(* ===== verification/Prelude.thy ===== *)
theory Prelude
  imports Main "HOL-Library.Word"
begin

text \<open>
  Shared vocabulary of the development: the fixed-width integer types of the C++ sources, checked
  reads and writes of a memory region (an access outside the region is undefined behaviour in C++
  and is \<open>None\<close> here), the counting loop \<open>for (i = lo; i < hi; i++)\<close> over a machine word together
  with its Hoare-style rule, the power-of-two masks both queues and the server use, and the decimal
  rendering of integers that \<open>std::ostringstream\<close> performs.
\<close>

unbundle bit_operations_syntax

section \<open>Machine types\<close>

type_synonym u8 = "8 word"
type_synonym u32 = "32 word"
type_synonym u64 = "64 word"

named_theorems mem_simps \<open>length and lookup facts of checked memory accesses\<close>
named_theorems inv_steps \<open>preservation of component invariants by their steps\<close>

section \<open>Checked memory\<close>

definition arr_read :: "'a list \<Rightarrow> nat \<Rightarrow> 'a option" where
  "arr_read xs i = (if i < length xs then Some (xs ! i) else None)"

definition arr_write :: "'a list \<Rightarrow> nat \<Rightarrow> 'a \<Rightarrow> 'a list option" where
  "arr_write xs i v = (if i < length xs then Some (xs[i := v]) else None)"

lemma arr_read_in [mem_simps]: "i < length xs \<Longrightarrow> arr_read xs i = Some (xs ! i)"
  by (simp add: arr_read_def)

lemma arr_write_in [mem_simps]: "i < length xs \<Longrightarrow> arr_write xs i v = Some (xs[i := v])"
  by (simp add: arr_write_def)

lemma arr_read_out [mem_simps]: "length xs \<le> i \<Longrightarrow> arr_read xs i = None"
  by (simp add: arr_read_def)

lemma arr_write_out [mem_simps]: "length xs \<le> i \<Longrightarrow> arr_write xs i v = None"
  by (simp add: arr_write_def)

lemma arr_read_Some_iff: "arr_read xs i = Some v \<longleftrightarrow> i < length xs \<and> v = xs ! i"
  by (auto simp: arr_read_def)

lemma arr_write_Some_iff: "arr_write xs i v = Some ys \<longleftrightarrow> i < length xs \<and> ys = xs[i := v]"
  by (auto simp: arr_write_def)

section \<open>Conversions\<close>

lemma unat_widen [simp]: "unat (ucast (x :: u32) :: u64) = unat x"
proof -
  have "unat x < 2 ^ 64" using unsigned_less [of x, where 'a = nat] by simp
  then show ?thesis by (simp add: unsigned_ucast_eq take_bit_nat_eq_self)
qed

lemma unat_exp: "k < LENGTH('w) \<Longrightarrow> unat (2 ^ k :: 'w::len word) = 2 ^ k"
  by (rule bit_eqI) (auto simp: bit_unsigned_iff bit_exp_iff)

section \<open>Counting loops over machine words\<close>

text \<open>
  The loop \<open>for (T i = lo; i < hi; i++) body\<close> where \<open>T\<close> is an unsigned type: the body may fault
  (\<open>None\<close>), and the counter cannot wrap because the guard bounds it by \<open>hi\<close>.
\<close>

lemma unat_Suc_less:
  fixes i n :: "'w::len word"
  assumes "i < n"
  shows "unat (i + 1) = Suc (unat i)"
proof -
  have "unat i + 1 < 2 ^ LENGTH('w)"
    using assms unsigned_less [of n, where 'a = nat]
    by (metis Suc_eq_plus1 Suc_leI order_le_less_trans word_less_nat_alt)
  then show ?thesis
    by (simp add: unat_word_ariths)
qed

function for_loop :: "'w::len word \<Rightarrow> 'w word \<Rightarrow> ('w word \<Rightarrow> 's \<Rightarrow> 's option) \<Rightarrow> 's \<Rightarrow> 's option" where
  "for_loop i n body s =
     (if i < n
      then (case body i s of None \<Rightarrow> None | Some s' \<Rightarrow> for_loop (i + 1) n body s')
      else Some s)"
  by pat_completeness auto
termination
  by (relation "measure (\<lambda>(i, n, body, s). unat n - unat i)")
    (auto simp: unat_Suc_less word_less_nat_alt)

declare for_loop.simps [simp del]

text \<open>The rule every loop proof uses: an invariant indexed by the counter as a natural number.\<close>

lemma for_loop_rule:
  assumes "unat i \<le> unat n" and "Inv (unat i) s"
    and "\<And>j s. \<lbrakk>unat i \<le> unat j; j < n; Inv (unat j) s\<rbrakk>
           \<Longrightarrow> \<exists>s'. body j s = Some s' \<and> Inv (Suc (unat j)) s'"
  shows "\<exists>s'. for_loop i n body s = Some s' \<and> Inv (unat n) s'"
  using assms
proof (induction i n body s rule: for_loop.induct)
  case (1 i n body s)
  show ?case
  proof (cases "i < n")
    case True
    with "1.prems" obtain s' where s': "body i s = Some s'" "Inv (Suc (unat i)) s'"
      by blast
    have Suc: "unat (i + 1) = Suc (unat i)"
      using True by (rule unat_Suc_less)
    have "\<exists>s''. for_loop (i + 1) n body s' = Some s'' \<and> Inv (unat n) s''"
      using "1.IH" [OF True s'(1)] True s'(2) "1.prems"(3) Suc
      by (simp add: word_less_nat_alt Suc_le_eq)
    with True s'(1) show ?thesis
      by (simp add: for_loop.simps [of i n])
  next
    case False
    then have "unat i = unat n"
      using "1.prems"(1) by (simp add: word_less_nat_alt)
    with False "1.prems"(2) show ?thesis
      by (simp add: for_loop.simps [of i n])
  qed
qed

text \<open>The values such a loop visits, in order.\<close>

definition word_range :: "'w::len word \<Rightarrow> 'w word \<Rightarrow> 'w word list" where
  "word_range lo hi = map of_nat [unat lo..<unat hi]"

lemma set_word_range [simp]: "set (word_range lo hi) = {w. lo \<le> w \<and> w < hi}"
proof -
  have "w \<in> of_nat ` {unat lo..<unat hi}" if "lo \<le> w" "w < hi" for w
    using that by (intro image_eqI [of _ _ "unat w"])
      (auto simp: word_less_nat_alt word_le_nat_alt)
  moreover have "lo \<le> of_nat k \<and> of_nat k < hi" if "unat lo \<le> k" "k < unat hi" for k
  proof -
    have "k < 2 ^ LENGTH('a)"
      using that(2) unsigned_less [of hi, where 'a = nat] by (rule less_trans)
    then have "unat (of_nat k :: 'a word) = k"
      by (simp add: unsigned_of_nat take_bit_nat_eq_self)
    with that show ?thesis
      by (simp add: word_less_nat_alt word_le_nat_alt)
  qed
  ultimately show ?thesis
    by (auto simp: word_range_def)
qed

lemma length_word_range [simp]: "length (word_range lo hi) = unat hi - unat lo"
  by (simp add: word_range_def)

lemma word_range_Cons: "lo < hi \<Longrightarrow> word_range lo hi = lo # word_range (lo + 1) hi"
  by (simp add: word_range_def unat_Suc_less upt_conv_Cons word_less_nat_alt)

lemma word_range_Nil [simp]: "hi \<le> lo \<Longrightarrow> word_range lo hi = []"
  by (simp add: word_range_def word_le_nat_alt)

lemma distinct_word_range [simp]: "distinct (word_range lo hi)"
proof -
  have "k < 2 ^ LENGTH('a)" if "k < unat hi" for k
    using that unsigned_less [of hi, where 'a = nat] by (rule less_trans)
  then have "inj_on (of_nat :: nat \<Rightarrow> 'a word) {unat lo..<unat hi}"
    by (intro inj_on_inverseI [where g = unat]) (simp add: unsigned_of_nat take_bit_nat_eq_self)
  then show ?thesis
    by (simp add: word_range_def distinct_map)
qed

lemma nth_word_range: "i < unat k \<Longrightarrow> word_range 0 k ! i = of_nat i"
  by (simp add: word_range_def)

lemma map_word_range_update:
  fixes x k :: "'w::len word"
  assumes "x < k"
  shows "map (\<lambda>b. if b = x then v else f b) (word_range 0 k) = (map f (word_range 0 k))[unat x := v]"
proof (rule nth_equalityI)
  fix i assume "i < length (map (\<lambda>b. if b = x then v else f b) (word_range 0 k))"
  then have i: "i < unat k" by simp
  then have "i < 2 ^ LENGTH('w)" using unsigned_less [of k, where 'a = nat] by (rule less_trans)
  then have "unat (of_nat i :: 'w word) = i" by (simp add: unsigned_of_nat take_bit_nat_eq_self)
  then have "of_nat i = x \<longleftrightarrow> i = unat x" by (metis word_unat_eq_iff)
  with i show "map (\<lambda>b. if b = x then v else f b) (word_range 0 k) ! i = (map f (word_range 0 k))[unat x := v] ! i"
    by (simp add: nth_word_range nth_list_update)
qed simp

lemma card_word_below: "card {w :: 'w::len word. w < n} = unat n"
  using distinct_card [OF distinct_word_range [of 0 n]] by simp

text \<open>\<open>word_range\<close> lists exactly the iterations of \<open>for_loop\<close>: a loop is the fold over them.\<close>

fun fold_opt :: "('a \<Rightarrow> 's \<Rightarrow> 's option) \<Rightarrow> 'a list \<Rightarrow> 's \<Rightarrow> 's option" where
  "fold_opt f [] s = Some s"
| "fold_opt f (x # xs) s = (case f x s of None \<Rightarrow> None | Some s' \<Rightarrow> fold_opt f xs s')"

lemma for_loop_fold: "for_loop i n body s = fold_opt body (word_range i n) s"
proof (induction i n body s rule: for_loop.induct)
  case (1 i n body s)
  then show ?case
    by (cases "i < n")
      (auto simp: for_loop.simps [of i n] word_range_Cons not_less split: option.split)
qed

lemma for_loop_as_fold: "for_loop i n body = fold_opt body (word_range i n)"
  by (rule ext) (rule for_loop_fold)

lemma fold_opt_append:
  "fold_opt f (xs @ ys) s = (case fold_opt f xs s of None \<Rightarrow> None | Some s' \<Rightarrow> fold_opt f ys s')"
  by (induction xs arbitrary: s) (auto split: option.split)

lemma fold_opt_Some_append: "fold_opt (\<lambda>x acc. Some (acc @ g x)) xs acc = Some (acc @ concat (map g xs))"
  by (induction xs arbitrary: acc) auto

lemma fold_opt_concat:
  "fold_opt (\<lambda>x. fold_opt f (g x)) xs s = fold_opt f (concat (map g xs)) s"
  by (induction xs arbitrary: s) (auto simp: fold_opt_append split: option.split)

section \<open>Simulation\<close>

text \<open>
  A transition system whose steps are, seen through an abstraction, steps of another system or nothing
  at all, as long as its invariant holds. Invariant and abstraction then carry over to whole runs.
\<close>

locale stuttering_simulation =
  fixes step :: "'s \<Rightarrow> 's \<Rightarrow> bool" and abs_step :: "'a \<Rightarrow> 'a \<Rightarrow> bool" and inv :: "'s \<Rightarrow> bool" and abstract :: "'s \<Rightarrow> 'a"
  assumes inv_step: "inv s \<Longrightarrow> step s t \<Longrightarrow> inv t"
    and simulates: "inv s \<Longrightarrow> step s t \<Longrightarrow> abstract t = abstract s \<or> abs_step (abstract s) (abstract t)"
begin

lemma inv_reach: "step\<^sup>*\<^sup>* s t \<Longrightarrow> inv s \<Longrightarrow> inv t"
  by (induction rule: rtranclp_induct) (auto intro: inv_step)

lemma simulates_reach:
  assumes "step\<^sup>*\<^sup>* s t" "inv s"
  shows "abs_step\<^sup>*\<^sup>* (abstract s) (abstract t)"
  using assms(1)
proof (induction rule: rtranclp_induct)
  case (step t u)
  have "inv t" using step.hyps(1) assms(2) by (rule inv_reach)
  from simulates [OF this step.hyps(2)] step.IH show ?case
    by (auto intro: rtranclp.rtrancl_into_rtrancl)
qed simp

end

end
