(* ===== verification/Mat_Transpose.thy ===== *)
theory Mat_Transpose
  imports Prelude "HOL-Library.Multiset"
begin

text \<open>
  The library \<open>lib/mat-transpose\<close>: \<open>TransposeNaive\<close>, \<open>MatricesAreEqual\<close> and
  \<open>TransposeTiledMultiThreaded\<close>. A matrix of \<open>rowCount\<close> rows is a flat row-major list of 64-bit
  elements; indices are computed in 32-bit arithmetic as the code does and an access outside the
  list is undefined behaviour (\<open>None\<close>, or \<open>Fault\<close> of the thread pool). The worker threads of the
  tiled routine are programs of element copies that an arbitrary schedule interleaves.
\<close>

section \<open>Specification\<close>

text \<open>The transpose of a row-major matrix of \<open>r\<close> rows and \<open>c\<close> columns, as a flat list.\<close>

definition transposed :: "nat \<Rightarrow> nat \<Rightarrow> 'a list \<Rightarrow> 'a list" where
  "transposed r c src = map (\<lambda>p. src ! ((p mod r) * c + p div r)) [0..<r * c]"

lemma length_transposed [simp]: "length (transposed r c src) = r * c"
  by (simp add: transposed_def)

lemma flat_index_less:
  fixes i j r c :: nat
  assumes "i < r" "j < c"
  shows "i * c + j < r * c"
proof -
  have "i * c + j < Suc i * c" using assms(2) by simp
  also have "\<dots> \<le> r * c" using assms(1) by (intro mult_le_mono1) simp
  finally show ?thesis .
qed

lemma flat_index_less_transposed: "(i::nat) < r \<Longrightarrow> j < c \<Longrightarrow> j * r + i < r * c"
  using flat_index_less [of j c i r] by (simp add: mult.commute)

lemma transposed_nth:
  assumes "i < r" "j < c"
  shows "transposed r c src ! (j * r + i) = src ! (i * c + j)"
  using assms flat_index_less_transposed [OF assms]
  by (simp add: transposed_def)

lemma transposed_nth_flat:
  assumes "p < r * c"
  shows "transposed r c src ! p = src ! ((p mod r) * c + p div r)"
  using assms by (simp add: transposed_def)

section \<open>One element copy\<close>

text \<open>\<open>dst[j * rowCount + i] = src[i * colCount + j]\<close>, the statement both routines execute.\<close>

definition copy_elem ::
  "u64 list \<Rightarrow> u32 \<Rightarrow> u32 \<Rightarrow> u32 \<Rightarrow> u32 \<Rightarrow> u64 list \<Rightarrow> u64 list option" where
  "copy_elem src rowCount colCount i j dst =
     (case arr_read src (unat (i * colCount + j)) of
        None \<Rightarrow> None
      | Some v \<Rightarrow> arr_write dst (unat (j * rowCount + i)) v)"

section \<open>TransposeNaive\<close>

definition TransposeNaive :: "u64 list \<Rightarrow> u64 list \<Rightarrow> u32 \<Rightarrow> u32 \<Rightarrow> u64 list option" where
  "TransposeNaive src dst rowCount colCount =
     for_loop 0 rowCount (\<lambda>i. for_loop 0 colCount (\<lambda>j. copy_elem src rowCount colCount i j)) dst"

section \<open>MatricesAreEqual\<close>

function equal_loop :: "u32 \<Rightarrow> u32 \<Rightarrow> u64 list \<Rightarrow> u64 list \<Rightarrow> bool option" where
  "equal_loop i n src dst =
     (if i < n
      then (case arr_read src (unat i) of
              None \<Rightarrow> None
            | Some a \<Rightarrow>
                (case arr_read dst (unat i) of
                   None \<Rightarrow> None
                 | Some b \<Rightarrow> if a \<noteq> b then Some False else equal_loop (i + 1) n src dst))
      else Some True)"
  by pat_completeness auto
termination
  by (relation "measure (\<lambda>(i, n, src, dst). unat n - unat i)")
    (auto simp: unat_Suc_less word_less_nat_alt)

declare equal_loop.simps [simp del]

definition MatricesAreEqual :: "u64 list \<Rightarrow> u64 list \<Rightarrow> u32 \<Rightarrow> u32 \<Rightarrow> bool option" where
  "MatricesAreEqual src dst rowCount colCount = equal_loop 0 (rowCount * colCount) src dst"

section \<open>TransposeTiledMultiThreaded\<close>

record Block =
  iStart :: u32
  iEnd :: u32
  jStart :: u32
  jEnd :: u32

text \<open>\<open>std::vector<Block> blocks(n)\<close> value-initialises its \<open>n\<close> elements.\<close>

definition zero_block :: Block where
  "zero_block = \<lparr>iStart = 0, iEnd = 0, jStart = 0, jEnd = 0\<rparr>"

definition num_blocks :: "u32 \<Rightarrow> u32 \<Rightarrow> u32" where
  "num_blocks extent tileSize = (extent + tileSize - 1) div tileSize"

text \<open>
  The declarations \<open>uint32_t iEnd = iStart + tileSize, rowCount;\<close> and
  \<open>uint32_t jEnd = jStart + tileSize, colCount;\<close> each declare a second, unused local variable: the
  block ends are not clamped to the matrix.
\<close>

definition tile_block :: "u32 \<Rightarrow> u32 \<Rightarrow> u32 \<Rightarrow> Block" where
  "tile_block tileSize bi bj =
     \<lparr>iStart = bi * tileSize, iEnd = bi * tileSize + tileSize,
      jStart = bj * tileSize, jEnd = bj * tileSize + tileSize\<rparr>"

text \<open>Building the vector: the \<open>push_back\<close>s go behind the blocks the constructor created.\<close>

definition make_blocks :: "u32 \<Rightarrow> u32 \<Rightarrow> u32 \<Rightarrow> Block list option" where
  "make_blocks rowCount colCount tileSize =
     (if tileSize = 0 then None
      else
        let numBlocksInRow = num_blocks rowCount tileSize;
            numBlocksInCol = num_blocks colCount tileSize;
            blocks = replicate (unat (numBlocksInRow * numBlocksInCol)) zero_block
        in for_loop 0 numBlocksInCol
             (\<lambda>bj. for_loop 0 numBlocksInRow
                (\<lambda>bi blocks. Some (blocks @ [tile_block tileSize bi bj]))) blocks)"

text \<open>The element copies of one block, in the order of the two inner loops.\<close>

definition block_assigns :: "Block \<Rightarrow> (u32 \<times> u32) list" where
  "block_assigns b =
     concat (map (\<lambda>i. map (Pair i) (word_range (jStart b) (jEnd b))) (word_range (iStart b) (iEnd b)))"

text \<open>
  The loop \<open>for (idx = t; idx < blocks.size(); idx += numThreads)\<close> of worker \<open>t\<close>. No worker
  exists when \<open>numThreads\<close> is 0, so the step is positive wherever the code runs this loop.
\<close>

function strided :: "nat \<Rightarrow> nat \<Rightarrow> nat \<Rightarrow> nat list" where
  "strided idx numBlocks numThreads =
     (if idx < numBlocks \<and> 0 < numThreads
      then idx # strided (idx + numThreads) numBlocks numThreads else [])"
  by pat_completeness auto
termination
  by (relation "measure (\<lambda>(idx, numBlocks, numThreads). numBlocks - idx)") auto

declare strided.simps [simp del]

definition thread_assigns :: "Block list \<Rightarrow> nat \<Rightarrow> nat \<Rightarrow> (u32 \<times> u32) list" where
  "thread_assigns blocks numThreads t =
     concat (map (\<lambda>idx. block_assigns (blocks ! idx)) (strided t (length blocks) numThreads))"

text \<open>
  The running pool: the shared destination and what each worker has still to copy. A schedule is
  the list of workers in the order in which they get to execute their next copy; \<open>src\<close> is only
  read, so a copy is one atomic step. A worker that has finished, or does not exist, makes no step.
\<close>

datatype pool = Running "u64 list" "(u32 \<times> u32) list list" | Fault

fun pool_step :: "u64 list \<Rightarrow> u32 \<Rightarrow> u32 \<Rightarrow> nat \<Rightarrow> pool \<Rightarrow> pool" where
  "pool_step src rowCount colCount t Fault = Fault"
| "pool_step src rowCount colCount t (Running dst progs) =
     (if t < length progs
      then (case progs ! t of
              [] \<Rightarrow> Running dst progs
            | (i, j) # rest \<Rightarrow>
                (case copy_elem src rowCount colCount i j dst of
                   None \<Rightarrow> Fault
                 | Some dst' \<Rightarrow> Running dst' (progs[t := rest])))
      else Running dst progs)"

definition pool_run :: "u64 list \<Rightarrow> u32 \<Rightarrow> u32 \<Rightarrow> nat list \<Rightarrow> pool \<Rightarrow> pool" where
  "pool_run src rowCount colCount sched s = fold (pool_step src rowCount colCount) sched s"

definition start_pool :: "u64 list \<Rightarrow> Block list \<Rightarrow> nat \<Rightarrow> pool" where
  "start_pool dst blocks numThreads = Running dst (map (thread_assigns blocks numThreads) [0..<numThreads])"

text \<open>All workers have returned, so every \<open>join\<close> returns.\<close>

fun joined :: "pool \<Rightarrow> bool" where
  "joined (Running dst progs) = list_all (\<lambda>p. p = []) progs"
| "joined Fault = False"

definition TransposeTiledMultiThreaded ::
  "u64 list \<Rightarrow> u64 list \<Rightarrow> u32 \<Rightarrow> u32 \<Rightarrow> u32 \<Rightarrow> u32 \<Rightarrow> nat list \<Rightarrow> pool" where
  "TransposeTiledMultiThreaded src dst rowCount colCount tileSize numThreads sched =
     (case make_blocks rowCount colCount tileSize of
        None \<Rightarrow> Fault
      | Some blocks \<Rightarrow>
          pool_run src rowCount colCount sched (start_pool dst blocks (unat numThreads)))"

section \<open>Index arithmetic\<close>

text \<open>A matrix of \<open>R \<times> C\<close> elements whose indices fit into 32 bits.\<close>

abbreviation fits :: "u32 \<Rightarrow> u32 \<Rightarrow> bool" where
  "fits R C \<equiv> unat R * unat C \<le> 2 ^ 32"

lemma unat_flat:
  fixes i j R C :: u32
  assumes "fits R C" "i < R" "j < C"
  shows "unat (i * C + j) = unat i * unat C + unat j"
proof -
  have "unat i * unat C + unat j < 2 ^ 32"
    using flat_index_less [of "unat i" "unat R" "unat j" "unat C"] assms
    by (simp add: word_less_nat_alt)
  then show ?thesis
    by (simp add: unat_word_ariths mod_add_left_eq)
qed

lemma unat_flat_swapped:
  fixes i j R C :: u32
  assumes "fits R C" "i < R" "j < C"
  shows "unat (j * R + i) = unat j * unat R + unat i"
  using unat_flat [of C R j i] assms by (simp add: mult.commute)

section \<open>Element copies in any order\<close>

text \<open>
  The invariant behind every order of copying: each of the \<open>r * c\<close> positions either holds the
  transposed element or is still to be written, and positions past the matrix are untouched.
\<close>

definition transposing :: "nat \<Rightarrow> nat \<Rightarrow> 'a list \<Rightarrow> 'a list \<Rightarrow> nat set \<Rightarrow> 'a list \<Rightarrow> bool" where
  "transposing r c src dst0 todo dst \<longleftrightarrow>
     length dst = length dst0 \<and>
     (\<forall>p < r * c. dst ! p = transposed r c src ! p \<or> p \<in> todo) \<and>
     (\<forall>p. r * c \<le> p \<and> p < length dst0 \<longrightarrow> dst ! p = dst0 ! p)"

definition cell :: "u32 \<Rightarrow> u32 \<times> u32 \<Rightarrow> nat" where
  "cell R ij = unat (snd ij) * unat R + unat (fst ij)"

lemma transposing_start: "{..<r * c} \<subseteq> todo \<Longrightarrow> transposing r c src dst todo dst"
  by (auto simp: transposing_def)

lemma transposing_done:
  assumes "transposing r c src dst0 {} dst" "r * c \<le> length dst0"
  shows "dst = transposed r c src @ drop (r * c) dst0"
  using assms by (intro nth_equalityI) (auto simp: transposing_def nth_append)

lemma transposing_mono: "transposing r c src dst0 A dst \<Longrightarrow> A \<subseteq> B \<Longrightarrow> transposing r c src dst0 B dst"
  by (auto simp: transposing_def)

lemma copy_elem_step:
  assumes "fits R C" "i < R" "j < C"
    and "unat R * unat C \<le> length src" "unat R * unat C \<le> length dst0"
    and "transposing (unat R) (unat C) src dst0 todo dst"
  shows "\<exists>dst'. copy_elem src R C i j dst = Some dst' \<and>
    transposing (unat R) (unat C) src dst0 (todo - {cell R (i, j)}) dst'"
proof -
  have ij: "unat i < unat R" "unat j < unat C"
    using assms(2,3) by (simp_all add: word_less_nat_alt)
  have from_in: "unat i * unat C + unat j < length src"
    using flat_index_less [OF ij] assms(4) by simp
  have to_in: "cell R (i, j) < unat R * unat C"
    using flat_index_less_transposed [OF ij] by (simp add: cell_def)
  have len: "length dst = length dst0"
    using assms(6) by (simp add: transposing_def)
  have "copy_elem src R C i j dst =
      Some (dst[cell R (i, j) := src ! (unat i * unat C + unat j)])"
    using from_in to_in len assms(5)
    by (simp add: copy_elem_def unat_flat [OF assms(1-3)] unat_flat_swapped [OF assms(1-3)]
      mem_simps cell_def)
  moreover have "src ! (unat i * unat C + unat j) = transposed (unat R) (unat C) src ! cell R (i, j)"
    using ij by (simp add: cell_def transposed_nth)
  ultimately show ?thesis
    using assms(6) to_in len assms(5) by (auto simp: transposing_def nth_list_update)
qed

definition in_matrix :: "u32 \<Rightarrow> u32 \<Rightarrow> (u32 \<times> u32) set" where
  "in_matrix R C = {(i, j). i < R \<and> j < C}"

lemma fold_copies:
  assumes "fits R C" "unat R * unat C \<le> length src" "unat R * unat C \<le> length dst0"
    and "set ijs \<subseteq> in_matrix R C"
    and "transposing (unat R) (unat C) src dst0 todo dst"
  shows "\<exists>dst'. fold_opt (\<lambda>(i, j). copy_elem src R C i j) ijs dst = Some dst' \<and>
    transposing (unat R) (unat C) src dst0 (todo - cell R ` set ijs) dst'"
  using assms(4,5)
proof (induction ijs arbitrary: dst todo)
  case Nil
  then show ?case by simp
next
  case (Cons ij ijs)
  obtain i j where ij: "ij = (i, j)" "i < R" "j < C"
    using Cons.prems(1) by (auto simp: in_matrix_def)
  from copy_elem_step [OF assms(1) ij(2,3) assms(2,3) Cons.prems(2)] obtain dst'
    where dst': "copy_elem src R C i j dst = Some dst'"
      "transposing (unat R) (unat C) src dst0 (todo - {cell R (i, j)}) dst'" by blast
  have "\<exists>d. fold_opt (\<lambda>(i, j). copy_elem src R C i j) ijs dst' = Some d \<and>
      transposing (unat R) (unat C) src dst0 (todo - {cell R (i, j)} - cell R ` set ijs) d"
    using Cons.IH [OF _ dst'(2)] Cons.prems(1) by simp
  then show ?case
    using dst'(1) ij(1) by (simp add: Diff_insert2 [symmetric] insert_commute)
qed

lemma cells_cover: "{..<unat R * unat C} \<subseteq> cell R ` in_matrix R C"
proof
  fix p assume "p \<in> {..<unat R * unat C}"
  then have p: "p < unat R * unat C" by simp
  define i j where "i = p mod unat R" and "j = p div unat R"
  have "0 < unat R" using p by (cases "unat R") auto
  then have i: "i < unat R" and j: "j < unat C"
    using p by (simp_all add: i_def j_def less_mult_imp_div_less mult.commute)
  have un: "unat (of_nat i :: u32) = i" "unat (of_nat j :: u32) = j"
    using less_trans [OF i unsigned_less [of R]] less_trans [OF j unsigned_less [of C]]
    by (simp_all add: unsigned_of_nat take_bit_nat_eq_self)
  have "(of_nat i, of_nat j) \<in> in_matrix R C"
    using i j un by (simp add: in_matrix_def word_less_nat_alt)
  moreover have "cell R (of_nat i, of_nat j) = p"
    using un by (simp add: cell_def i_def j_def)
  ultimately show "p \<in> cell R ` in_matrix R C" by (metis image_eqI)
qed

section \<open>Correctness of the sequential routines\<close>

lemma TransposeNaive_fold:
  "TransposeNaive src dst R C = fold_opt (\<lambda>(i, j). copy_elem src R C i j)
     (concat (map (\<lambda>i. map (Pair i) (word_range 0 C)) (word_range 0 R))) dst"
proof -
  have inner: "fold_opt (copy_elem src R C i) js d =
      fold_opt (\<lambda>(i, j). copy_elem src R C i j) (map (Pair i) js) d" for i js d
    by (induction js arbitrary: d) (auto split: option.split)
  show ?thesis
    by (simp add: TransposeNaive_def for_loop_as_fold inner [abs_def] fold_opt_concat [symmetric])
qed

lemma TransposeNaive_spec:
  assumes "fits R C" "unat R * unat C \<le> length src" "unat R * unat C \<le> length dst"
  shows "TransposeNaive src dst R C =
    Some (transposed (unat R) (unat C) src @ drop (unat R * unat C) dst)"
proof -
  let ?ijs = "concat (map (\<lambda>i. map (Pair i) (word_range 0 C)) (word_range 0 R))"
  have set: "set ?ijs = in_matrix R C"
    by (auto simp: in_matrix_def)
  have "transposing (unat R) (unat C) src dst {..<unat R * unat C} dst"
    by (rule transposing_start) simp
  from fold_copies [OF assms eq_refl [OF set] this] obtain dst' where
    dst': "fold_opt (\<lambda>(i, j). copy_elem src R C i j) ?ijs dst = Some dst'"
    "transposing (unat R) (unat C) src dst ({..<unat R * unat C} - cell R ` set ?ijs) dst'"
    by blast
  have "{..<unat R * unat C} - cell R ` set ?ijs = {}"
    using cells_cover unfolding set by blast
  with dst'(2) have "transposing (unat R) (unat C) src dst {} dst'" by metis
  from transposing_done [OF this assms(3)] dst'(1) show ?thesis
    by (simp only: TransposeNaive_fold)
qed

lemma equal_loop_spec:
  assumes "unat i \<le> unat n" "unat n \<le> length src" "unat n \<le> length dst"
  shows "equal_loop i n src dst =
    Some (\<forall>p. unat i \<le> p \<and> p < unat n \<longrightarrow> src ! p = dst ! p)"
  using assms
proof (induction i n src dst rule: equal_loop.induct)
  case (1 i n src dst)
  show ?case
  proof (cases "i < n")
    case True
    have Suc: "unat (i + 1) = Suc (unat i)" using True by (rule unat_Suc_less)
    have less: "unat i < unat n" using True by (simp add: word_less_nat_alt)
    have rd: "arr_read src (unat i) = Some (src ! unat i)" "arr_read dst (unat i) = Some (dst ! unat i)"
      using less "1.prems" by (simp_all add: mem_simps)
    show ?thesis
    proof (cases "src ! unat i = dst ! unat i")
      case eq: True
      have "equal_loop (i + 1) n src dst =
          Some (\<forall>p. Suc (unat i) \<le> p \<and> p < unat n \<longrightarrow> src ! p = dst ! p)"
        using "1.IH" [OF True rd] eq "1.prems" less Suc by simp
      moreover have "(\<forall>p. Suc (unat i) \<le> p \<and> p < unat n \<longrightarrow> src ! p = dst ! p) =
          (\<forall>p. unat i \<le> p \<and> p < unat n \<longrightarrow> src ! p = dst ! p)"
        using eq by (metis Suc_leI le_neq_implies_less Suc_leD)
      ultimately show ?thesis
        using True rd eq by (simp add: equal_loop.simps [of i n])
    next
      case False
      then show ?thesis
        using True rd less by (auto simp: equal_loop.simps [of i n])
    qed
  next
    case False
    then show ?thesis
      by (auto simp: equal_loop.simps [of i n] word_less_nat_alt)
  qed
qed

lemma MatricesAreEqual_spec:
  assumes "unat (R * C) \<le> length src" "unat (R * C) \<le> length dst"
  shows "MatricesAreEqual src dst R C = Some (take (unat (R * C)) src = take (unat (R * C)) dst)"
proof -
  have "(\<forall>p. p < n \<longrightarrow> src ! p = dst ! p) \<longleftrightarrow> take n src = take n dst"
    if "n \<le> length src" "n \<le> length dst" for n
    using that by (auto simp: list_eq_iff_nth_eq)
  with assms show ?thesis
    by (simp add: MatricesAreEqual_def equal_loop_spec)
qed

section \<open>The blocks\<close>

text \<open>The shapes for which the tiled routine covers exactly the matrix.\<close>

definition tiled_shape :: "u32 \<Rightarrow> u32 \<Rightarrow> u32 \<Rightarrow> bool" where
  "tiled_shape R C tileSize \<longleftrightarrow>
     tileSize \<noteq> 0 \<and> R \<noteq> 0 \<and> C \<noteq> 0 \<and> unat R mod unat tileSize = 0 \<and> unat C mod unat tileSize = 0 \<and> fits R C"

lemma extent_no_wrap:
  assumes "tiled_shape R C T"
  shows "unat R + unat T \<le> 2 ^ 32" "unat C + unat T \<le> 2 ^ 32"
proof -
  have pos: "0 < unat R" "0 < unat C" "0 < unat T"
    using assms by (simp_all add: tiled_shape_def unat_gt_0)
  have le: "unat T \<le> unat R" "unat T \<le> unat C"
    using assms pos by (auto simp: tiled_shape_def mod_eq_0_iff_dvd intro!: dvd_imp_le)
  have lt: "unat R < 2 ^ 32" "unat C < 2 ^ 32"
    using unsigned_less [of R, where 'a = nat] unsigned_less [of C, where 'a = nat] by simp_all
  have prod: "unat R * unat C \<le> 2 ^ 32" using assms by (simp add: tiled_shape_def)
  have "unat R + unat T \<le> 2 ^ 32 \<and> unat C + unat T \<le> 2 ^ 32"
  proof (cases "unat T = 1")
    case True
    then show ?thesis using lt by simp
  next
    case False
    then have two: "2 \<le> unat R" "2 \<le> unat C" using pos le by simp_all
    have "unat R + unat C \<le> unat R * unat C"
    proof -
      obtain a b where ab: "unat R = Suc (Suc a)" "unat C = Suc (Suc b)"
        using two by (metis add_2_eq_Suc le_Suc_ex)
      show ?thesis unfolding ab by simp
    qed
    then show ?thesis using prod le by simp
  qed
  then show "unat R + unat T \<le> 2 ^ 32" "unat C + unat T \<le> 2 ^ 32" by simp_all
qed

lemma num_blocks_exact:
  assumes "unat T dvd unat e" "T \<noteq> 0" "e \<noteq> 0" "unat e + unat T \<le> 2 ^ 32"
  shows "unat (num_blocks e T) = unat e div unat T"
proof -
  have pos: "0 < unat T" "0 < unat e" using assms(2,3) by (simp_all add: unat_gt_0)
  have one: "unat (T - 1) = unat T - 1"
    using assms(2) by (simp add: unat_minus_one)
  have "unat (e + T - 1) = unat (e + (T - 1))" by (simp add: add_diff_eq)
  also have "\<dots> = unat e + (unat T - 1)"
    using assms(4) pos by (simp add: unat_word_ariths one)
  finally have sum: "unat (e + T - 1) = unat e + (unat T - 1)" .
  obtain q where q: "unat e = unat T * q" using assms(1) by blast
  obtain k where k: "unat T = Suc k" using pos(1) by (metis gr0_implies_Suc)
  have "(unat e + (unat T - 1)) div unat T = (k + q * Suc k) div Suc k"
    unfolding q k by (simp add: algebra_simps)
  also have "\<dots> = q" by (subst div_mult_self1) simp_all
  finally have "(unat e + (unat T - 1)) div unat T = q" .
  then show ?thesis
    using pos(1) by (simp add: num_blocks_def unat_div sum q)
qed

lemma make_blocks_eq:
  assumes "T \<noteq> 0"
  shows "make_blocks R C T = Some
    (replicate (unat (num_blocks R T * num_blocks C T)) zero_block @
     concat (map (\<lambda>bj. map (\<lambda>bi. tile_block T bi bj) (word_range 0 (num_blocks R T)))
       (word_range 0 (num_blocks C T))))"
proof -
  have row: "fold_opt (\<lambda>bi blocks. Some (blocks @ [g bi])) xs = (\<lambda>blocks. Some (blocks @ map g xs))"
    for g :: "u32 \<Rightarrow> Block" and xs
    by (rule ext) (simp add: fold_opt_Some_append [of "\<lambda>x. [g x]"])
  show ?thesis
    using assms by (simp add: make_blocks_def Let_def for_loop_as_fold row fold_opt_Some_append)
qed

lemma length_concat_const: "(\<And>x. x \<in> set xs \<Longrightarrow> length (f x) = k) \<Longrightarrow> length (concat (map f xs)) = length xs * k"
  by (induction xs) auto

lemma length_block_assigns:
  "length (block_assigns b) = (unat (iEnd b) - unat (iStart b)) * (unat (jEnd b) - unat (jStart b))"
  by (simp add: block_assigns_def length_concat_const)

lemma set_block_assigns:
  "set (block_assigns b) = {(i, j). iStart b \<le> i \<and> i < iEnd b \<and> jStart b \<le> j \<and> j < jEnd b}"
  by (auto simp: block_assigns_def)

lemma block_assigns_zero [simp]: "block_assigns zero_block = []"
  by (simp add: block_assigns_def zero_block_def)

lemma tile_bounds:
  assumes "unat T dvd unat e" "T \<noteq> 0" "b < num_blocks e T"
    and "unat (num_blocks e T) = unat e div unat T"
  shows "unat (b * T) = unat b * unat T" "unat (b * T + T) = unat b * unat T + unat T"
    "unat b * unat T + unat T \<le> unat e"
proof -
  have "Suc (unat b) \<le> unat e div unat T"
    using assms(3,4) by (simp add: word_less_nat_alt)
  then have "Suc (unat b) * unat T \<le> unat e"
    using div_times_less_eq_dividend [of "unat e" "unat T"] mult_le_mono1 order_trans by blast
  then show le: "unat b * unat T + unat T \<le> unat e" by simp
  have lt: "unat e < 2 ^ 32"
    using unsigned_less [of e, where 'a = nat] by simp
  show "unat (b * T) = unat b * unat T"
    using le lt by (simp add: unat_word_ariths)
  then show "unat (b * T + T) = unat b * unat T + unat T"
    using le lt by (simp add: unat_word_ariths)
qed

text \<open>Together the blocks visit every element, and exactly once.\<close>

lemma tiles_in_matrix:
  assumes "tiled_shape R C T" "make_blocks R C T = Some blocks"
  shows "set (concat (map block_assigns blocks)) = in_matrix R C"
proof -
  note shape = assms(1) [unfolded tiled_shape_def mod_eq_0_iff_dvd]
  note nR = num_blocks_exact [of T R] and nC = num_blocks_exact [of T C]
  have nR: "unat (num_blocks R T) = unat R div unat T"
    using shape extent_no_wrap [OF assms(1)] by (intro nR) auto
  have nC: "unat (num_blocks C T) = unat C div unat T"
    using shape extent_no_wrap [OF assms(1)] by (intro nC) auto
  have bounds: "unat (b * T) = unat b * unat T" "unat (b * T + T) = unat b * unat T + unat T"
      "unat b * unat T + unat T \<le> unat e"
    if "unat T dvd unat e" "b < num_blocks e T" "unat (num_blocks e T) = unat e div unat T" for b e
    using tile_bounds [of T e b] that shape by auto
  have tile_of: "x div T < num_blocks e T \<and> x div T * T \<le> x \<and> x < x div T * T + T"
    if "unat T dvd unat e" "x < e" "unat (num_blocks e T) = unat e div unat T" for x e
  proof -
    have pos: "0 < unat T" using shape by (simp add: unat_gt_0)
    have q: "unat (x div T) = unat x div unat T" by (simp add: unat_div)
    have "unat x div unat T < unat e div unat T"
      using that(1,2) pos by (metis dvd_mult_div_cancel less_mult_imp_div_less mult.commute word_less_nat_alt)
    then have less: "x div T < num_blocks e T"
      by (simp add: word_less_nat_alt q that(3))
    have "unat x div unat T * unat T \<le> unat x" by simp
    moreover have "unat x < unat x div unat T * unat T + unat T"
      using pos by (metis add.commute div_mult_mod_eq mod_less_divisor nat_add_left_cancel_less)
    ultimately show ?thesis
      using less bounds(1,2) [OF that(1) less that(3)] q
      by (simp add: word_less_nat_alt word_le_nat_alt)
  qed
  have blocks: "blocks = replicate (unat (num_blocks R T * num_blocks C T)) zero_block @
     concat (map (\<lambda>bj. map (\<lambda>bi. tile_block T bi bj) (word_range 0 (num_blocks R T)))
       (word_range 0 (num_blocks C T)))"
    using assms make_blocks_eq [of T R C] shape by simp
  have "set (concat (map block_assigns blocks)) =
      (\<Union>bj\<in>{b. b < num_blocks C T}. \<Union>bi\<in>{b. b < num_blocks R T}. set (block_assigns (tile_block T bi bj)))"
    by (auto simp: blocks)
  also have "\<dots> = in_matrix R C"
  proof (intro equalityI subsetI)
    fix ij assume "ij \<in> (\<Union>bj\<in>{b. b < num_blocks C T}. \<Union>bi\<in>{b. b < num_blocks R T}.
        set (block_assigns (tile_block T bi bj)))"
    then show "ij \<in> in_matrix R C"
      using bounds [of R, OF _ _ nR] bounds [of C, OF _ _ nC] shape
      by (fastforce simp: set_block_assigns tile_block_def in_matrix_def word_less_nat_alt)
  next
    fix ij assume "ij \<in> in_matrix R C"
    then obtain i j where ij: "ij = (i, j)" "i < R" "j < C" by (auto simp: in_matrix_def)
    show "ij \<in> (\<Union>bj\<in>{b. b < num_blocks C T}. \<Union>bi\<in>{b. b < num_blocks R T}.
        set (block_assigns (tile_block T bi bj)))"
      using tile_of [OF _ ij(2) nR] tile_of [OF _ ij(3) nC] shape
      by (intro UN_I [of "j div T"] UN_I [of "i div T"])
        (simp_all add: ij(1) set_block_assigns tile_block_def)
  qed
  finally show ?thesis .
qed

lemma tiles_length:
  assumes "tiled_shape R C T" "make_blocks R C T = Some blocks"
  shows "length (concat (map block_assigns blocks)) = unat R * unat C"
proof -
  note shape = assms(1) [unfolded tiled_shape_def mod_eq_0_iff_dvd]
  have nR: "unat (num_blocks R T) = unat R div unat T"
    using shape extent_no_wrap [OF assms(1)] by (intro num_blocks_exact) auto
  have nC: "unat (num_blocks C T) = unat C div unat T"
    using shape extent_no_wrap [OF assms(1)] by (intro num_blocks_exact) auto
  have len: "length (block_assigns (tile_block T bi bj)) = unat T * unat T"
    if "bi < num_blocks R T" "bj < num_blocks C T" for bi bj
    using tile_bounds [of T R bi] tile_bounds [of T C bj] that shape nR nC
    by (simp add: length_block_assigns tile_block_def)
  have zeros: "concat (map block_assigns (replicate k zero_block)) = []" for k
    by (induction k) auto
  have "length (concat (map block_assigns (map (\<lambda>bi. tile_block T bi bj) (word_range 0 (num_blocks R T))))) =
      unat (num_blocks R T) * (unat T * unat T)" if "bj < num_blocks C T" for bj
    using length_concat_const [of "word_range 0 (num_blocks R T)" "\<lambda>bi. block_assigns (tile_block T bi bj)"]
      len that by (simp add: comp_def)
  then have "length (concat (map (\<lambda>bj. concat (map block_assigns
        (map (\<lambda>bi. tile_block T bi bj) (word_range 0 (num_blocks R T))))) (word_range 0 (num_blocks C T)))) =
      unat (num_blocks C T) * (unat (num_blocks R T) * (unat T * unat T))"
    by (subst length_concat_const [where k = "unat (num_blocks R T) * (unat T * unat T)"]) auto
  moreover have "concat (map block_assigns blocks) = concat (map (\<lambda>bj. concat (map block_assigns
        (map (\<lambda>bi. tile_block T bi bj) (word_range 0 (num_blocks R T))))) (word_range 0 (num_blocks C T)))"
  proof -
    have "concat (map f (concat (map g xs))) = concat (map (\<lambda>x. concat (map f (g x))) xs)"
      for f :: "Block \<Rightarrow> (u32 \<times> u32) list" and g :: "u32 \<Rightarrow> Block list" and xs
      by (induction xs) auto
    then show ?thesis
      using assms make_blocks_eq [of T R C] shape zeros by auto
  qed
  moreover have "unat C div unat T * (unat R div unat T * (unat T * unat T)) = unat R * unat C"
  proof -
    obtain a b where "unat R = unat T * a" "unat C = unat T * b" "0 < unat T"
      using shape by (auto simp: unat_gt_0 elim!: dvdE)
    then show ?thesis by (simp add: algebra_simps)
  qed
  ultimately show ?thesis by (simp only: nR nC)
qed

lemma card_in_matrix: "card (in_matrix R C) = unat R * unat C"
proof -
  have "in_matrix R C = {i. i < R} \<times> {j. j < C}" by (auto simp: in_matrix_def)
  then show ?thesis by (simp add: card_cartesian_product card_word_below)
qed

lemma tiles_distinct:
  assumes "tiled_shape R C T" "make_blocks R C T = Some blocks"
  shows "distinct (concat (map block_assigns blocks))"
  using tiles_in_matrix [OF assms] tiles_length [OF assms]
  by (intro card_distinct) (simp only: card_in_matrix)

section \<open>Distributing the blocks over the workers\<close>

lemma set_strided:
  assumes "0 < n"
  shows "set (strided t N n) = {k. t \<le> k \<and> k < N \<and> k mod n = t mod n}"
  using assms
proof (induction t N n rule: strided.induct)
  case (1 t N n)
  show ?case
  proof (cases "t < N")
    case True
    have "{k. t \<le> k \<and> k < N \<and> k mod n = t mod n} =
        insert t {k. t + n \<le> k \<and> k < N \<and> k mod n = (t + n) mod n}"
    proof (intro equalityI subsetI)
      fix k assume "k \<in> {k. t \<le> k \<and> k < N \<and> k mod n = t mod n}"
      then have k: "t \<le> k" "k < N" "k mod n = t mod n" by simp_all
      have "t + n \<le> k" if "k \<noteq> t"
      proof -
        have "n dvd k - t" using k(1,3) by (simp add: mod_eq_dvd_iff_nat)
        then have "n \<le> k - t" using that k(1) by (intro dvd_imp_le) auto
        then show ?thesis using k(1) by simp
      qed
      then show "k \<in> insert t {k. t + n \<le> k \<and> k < N \<and> k mod n = (t + n) mod n}"
        using k by auto
    qed (use True in auto)
    with True 1 show ?thesis by (simp add: strided.simps [of t])
  next
    case False
    then show ?thesis by (auto simp: strided.simps [of t])
  qed
qed

lemma distinct_strided: "distinct (strided t N n)"
proof (induction t N n rule: strided.induct)
  case (1 t N n)
  then show ?case by (simp add: strided.simps [of t N n] set_strided)
qed

lemma mset_strided_upto:
  assumes "0 < n" "m \<le> n"
  shows "mset (concat (map (\<lambda>t. strided t N n) [0..<m])) = mset (filter (\<lambda>k. k mod n < m) [0..<N])"
  using assms(2)
proof (induction m)
  case 0
  then show ?case by simp
next
  case (Suc m)
  have "mset (strided m N n) = mset (filter (\<lambda>k. k mod n = m) [0..<N])"
  proof (subst set_eq_iff_mset_eq_distinct [symmetric])
    show "set (strided m N n) = set (filter (\<lambda>k. k mod n = m) [0..<N])"
      using Suc.prems assms(1) by (auto simp: set_strided)
  qed (simp_all add: distinct_strided)
  moreover have "mset (filter (\<lambda>k. k mod n < Suc m) xs) =
      mset (filter (\<lambda>k. k mod n < m) xs) + mset (filter (\<lambda>k. k mod n = m) xs)" for xs :: "nat list"
    by (induction xs) (auto simp: less_Suc_eq)
  moreover have "mset (concat (map (\<lambda>t. strided t N n) [0..<m])) = mset (filter (\<lambda>k. k mod n < m) [0..<N])"
    using Suc by simp
  moreover have "mset (concat (map (\<lambda>t. strided t N n) [0..<Suc m])) =
      mset (concat (map (\<lambda>t. strided t N n) [0..<m])) + mset (strided m N n)"
    by simp
  ultimately show ?case by presburger
qed

lemma mset_strided_partition:
  assumes "0 < n"
  shows "mset (concat (map (\<lambda>t. strided t N n) [0..<n])) = mset [0..<N]"
  using mset_strided_upto [OF assms order_refl, of N] assms by simp

lemma mset_concat_map_cong: "mset xs = mset ys \<Longrightarrow> mset (concat (map f xs)) = mset (concat (map f ys))"
  by (simp add: mset_concat) (metis mset_map sum_mset_sum_list)

text \<open>The workers' programs are a partition of the copies of all blocks.\<close>

lemma mset_thread_assigns:
  assumes "0 < n"
  shows "mset (concat (map (thread_assigns blocks n) [0..<n])) = mset (concat (map block_assigns blocks))"
proof -
  have flat: "concat (map (\<lambda>t. concat (map f (g t))) ts) = concat (map f (concat (map g ts)))"
    for f :: "nat \<Rightarrow> (u32 \<times> u32) list" and g :: "nat \<Rightarrow> nat list" and ts
    by (induction ts) auto
  have "concat (map (thread_assigns blocks n) [0..<n]) =
      concat (map (\<lambda>idx. block_assigns (blocks ! idx))
        (concat (map (\<lambda>t. strided t (length blocks) n) [0..<n])))"
    unfolding thread_assigns_def [abs_def] flat ..
  then have "mset (concat (map (thread_assigns blocks n) [0..<n])) =
      mset (concat (map (\<lambda>idx. block_assigns (blocks ! idx)) [0..<length blocks]))"
    using mset_concat_map_cong [OF mset_strided_partition [OF assms]] by simp
  also have "map (\<lambda>idx. block_assigns (blocks ! idx)) [0..<length blocks] = map block_assigns blocks"
    by (rule nth_equalityI) simp_all
  finally show ?thesis .
qed

section \<open>Runs of the pool\<close>

fun pool_inv :: "u64 list \<Rightarrow> u32 \<Rightarrow> u32 \<Rightarrow> u64 list \<Rightarrow> pool \<Rightarrow> bool" where
  "pool_inv src R C dst0 Fault = False"
| "pool_inv src R C dst0 (Running dst progs) =
     ((\<forall>p \<in> set progs. set p \<subseteq> in_matrix R C) \<and>
      transposing (unat R) (unat C) src dst0 (\<Union>p \<in> set progs. cell R ` set p) dst)"

lemma pool_step_inv [inv_steps]:
  assumes "fits R C" "unat R * unat C \<le> length src" "unat R * unat C \<le> length dst0"
    and "pool_inv src R C dst0 s"
  shows "pool_inv src R C dst0 (pool_step src R C t s)"
proof (cases s)
  case Fault
  with assms(4) show ?thesis by simp
next
  case (Running dst progs)
  show ?thesis
  proof (cases "t < length progs \<and> progs ! t \<noteq> []")
    case False
    then have "pool_step src R C t s = s" using Running by (auto split: list.split)
    with assms(4) show ?thesis by simp
  next
    case True
    then obtain i j rest where p: "progs ! t = (i, j) # rest" by (metis list.exhaust surj_pair)
    have mem: "progs ! t \<in> set progs" using True by simp
    have sub: "\<forall>p \<in> set progs. set p \<subseteq> in_matrix R C"
      using assms(4) Running by simp
    then have "set ((i, j) # rest) \<subseteq> in_matrix R C"
      using mem p by metis
    then have ij: "i < R" "j < C" and rest: "set rest \<subseteq> in_matrix R C"
      by (auto simp: in_matrix_def)
    let ?todo = "\<Union>p \<in> set progs. cell R ` set p"
    have tr: "transposing (unat R) (unat C) src dst0 ?todo dst"
      using assms(4) Running by simp
    from copy_elem_step [OF assms(1) ij assms(2,3) tr] obtain dst' where
      dst': "copy_elem src R C i j dst = Some dst'"
      "transposing (unat R) (unat C) src dst0 (?todo - {cell R (i, j)}) dst'" by blast
    have split_at: "progs = take t progs @ ((i, j) # rest) # drop (Suc t) progs"
      using id_take_nth_drop [of t progs] True p by simp
    have upd: "progs[t := rest] = take t progs @ rest # drop (Suc t) progs"
      using True by (simp add: upd_conv_take_nth_drop)
    have "set progs = set (take t progs) \<union> {(i, j) # rest} \<union> set (drop (Suc t) progs)"
      by (subst split_at) auto
    then have "?todo - {cell R (i, j)} \<subseteq> (\<Union>p \<in> set (progs[t := rest]). cell R ` set p)"
      unfolding upd by auto
    with dst'(2) have "transposing (unat R) (unat C) src dst0
        (\<Union>p \<in> set (progs[t := rest]). cell R ` set p) dst'" by (rule transposing_mono)
    moreover have "\<forall>q \<in> set (progs[t := rest]). set q \<subseteq> in_matrix R C"
      using sub rest set_update_subset_insert [of progs t rest] by blast
    ultimately show ?thesis
      using Running True p dst'(1) by simp
  qed
qed

lemma pool_run_inv:
  assumes "fits R C" "unat R * unat C \<le> length src" "unat R * unat C \<le> length dst0"
    and "pool_inv src R C dst0 s"
  shows "pool_inv src R C dst0 (pool_run src R C sched s)"
  using assms(4) by (induction sched arbitrary: s) (simp_all add: pool_run_def pool_step_inv [OF assms(1-3)])

text \<open>Every step of a worker shortens its program by one copy.\<close>

lemma pool_run_progress:
  assumes "pool_run src R C sched (Running dst progs) = Running dst' progs'"
  shows "length progs' = length progs \<and>
    (\<forall>t < length progs. length (progs' ! t) = length (progs ! t) - count_list sched t)"
  using assms
proof (induction sched arbitrary: dst progs)
  case Nil
  then show ?case by (simp add: pool_run_def)
next
  case (Cons u sched)
  let ?s = "pool_step src R C u (Running dst progs)"
  have run: "pool_run src R C sched ?s = Running dst' progs'"
    using Cons.prems by (simp add: pool_run_def)
  have stuck: "pool_run src R C sched Fault = Fault"
    by (induction sched) (simp_all add: pool_run_def)
  show ?case
  proof (cases "u < length progs \<and> progs ! u \<noteq> []")
    case False
    then have "?s = Running dst progs" by (auto split: list.split)
    with Cons.IH run False show ?thesis by fastforce
  next
    case True
    then obtain i j rest where p: "progs ! u = (i, j) # rest" by (metis list.exhaust surj_pair)
    obtain d where d: "copy_elem src R C i j dst = Some d"
      using run stuck True p by (cases "copy_elem src R C i j dst") auto
    with True p have "?s = Running d (progs[u := rest])" by simp
    with Cons.IH run p True show ?thesis by (fastforce simp: nth_list_update)
  qed
qed

lemma pool_stuck: "pool_run src R C sched Fault = Fault"
  by (induction sched) (simp_all add: pool_run_def)

lemma start_pool_inv:
  assumes "tiled_shape R C T" "make_blocks R C T = Some blocks" "0 < n"
  shows "pool_inv src R C dst (start_pool dst blocks n)"
proof -
  let ?progs = "map (thread_assigns blocks n) [0..<n]"
  have "mset (concat ?progs) = mset (concat (map block_assigns blocks))"
    by (rule mset_thread_assigns [OF assms(3)])
  then have "set (concat ?progs) = set (concat (map block_assigns blocks))"
    by (rule mset_eq_setD)
  then have "(\<Union>p \<in> set ?progs. set p) = in_matrix R C"
    unfolding tiles_in_matrix [OF assms(1,2)] by simp
  then have "\<forall>p \<in> set ?progs. set p \<subseteq> in_matrix R C"
    "(\<Union>p \<in> set ?progs. cell R ` set p) = cell R ` in_matrix R C" by blast+
  then show ?thesis
    using transposing_start [OF cells_cover [of R C], of src dst] by (simp add: start_pool_def)
qed

text \<open>The outcome of any schedule: never a fault, and the transpose once all workers have joined.\<close>

lemma tiled_run:
  assumes "tiled_shape R C T" "n \<noteq> 0" "unat R * unat C \<le> length src" "unat R * unat C \<le> length dst"
  shows "\<exists>dst' progs'. TransposeTiledMultiThreaded src dst R C T n sched = Running dst' progs' \<and>
    (joined (Running dst' progs') \<longrightarrow> dst' = transposed (unat R) (unat C) src @ drop (unat R * unat C) dst)"
proof -
  have "T \<noteq> 0" and ft: "fits R C" using assms(1) by (simp_all add: tiled_shape_def)
  then obtain blocks where b: "make_blocks R C T = Some blocks"
    using make_blocks_eq by blast
  have n: "0 < unat n" using assms(2) by (simp add: unat_gt_0)
  let ?s = "TransposeTiledMultiThreaded src dst R C T n sched"
  have inv: "pool_inv src R C dst ?s"
    using pool_run_inv [OF ft assms(3,4) start_pool_inv [OF assms(1) b n]]
    by (simp add: TransposeTiledMultiThreaded_def b)
  then obtain dst' progs' where s: "?s = Running dst' progs'" by (cases ?s) auto
  have "dst' = transposed (unat R) (unat C) src @ drop (unat R * unat C) dst"
    if "joined (Running dst' progs')"
  proof -
    have "(\<Union>p \<in> set progs'. cell R ` set p) = {}"
      using that by (auto simp: list_all_iff)
    with inv s have "transposing (unat R) (unat C) src dst {} dst'" by (metis pool_inv.simps(2))
    then show ?thesis by (rule transposing_done) (rule assms(4))
  qed
  with s show ?thesis by blast
qed

lemma length_thread_assigns:
  assumes "tiled_shape R C T" "make_blocks R C T = Some blocks" "t < n"
  shows "length (thread_assigns blocks n t) \<le> unat R * unat C"
proof -
  have "mset (concat (map (thread_assigns blocks n) [0..<n])) = mset (concat (map block_assigns blocks))"
    using assms(3) by (intro mset_thread_assigns) simp
  then have "length (concat (map (thread_assigns blocks n) [0..<n])) = unat R * unat C"
    using tiles_length [OF assms(1,2)] by (metis size_mset)
  moreover have "length (f t) \<le> length (concat (map f ts))" if "t \<in> set ts" for f :: "nat \<Rightarrow> (u32 \<times> u32) list" and ts
    using that by (induction ts) auto
  ultimately show ?thesis using assms(3) by (metis atLeastLessThan_iff le0 set_upt)
qed

lemma tiled_joins:
  assumes "tiled_shape R C T" "n \<noteq> 0" "unat R * unat C \<le> length src" "unat R * unat C \<le> length dst"
    and "\<forall>t < unat n. unat R * unat C \<le> count_list sched t"
  shows "joined (TransposeTiledMultiThreaded src dst R C T n sched)"
proof -
  have "T \<noteq> 0" using assms(1) by (simp add: tiled_shape_def)
  then obtain blocks where b: "make_blocks R C T = Some blocks"
    using make_blocks_eq by blast
  let ?progs = "map (thread_assigns blocks (unat n)) [0..<unat n]"
  from tiled_run [OF assms(1-4)] obtain dst' progs' where
    s: "TransposeTiledMultiThreaded src dst R C T n sched = Running dst' progs'" by blast
  then have "pool_run src R C sched (Running dst ?progs) = Running dst' progs'"
    by (simp add: TransposeTiledMultiThreaded_def b start_pool_def)
  from pool_run_progress [OF this] have pr: "length progs' = unat n"
    "\<forall>t < unat n. length (progs' ! t) = length (?progs ! t) - count_list sched t" by simp_all
  have "progs' ! t = []" if "t < unat n" for t
  proof -
    have "length (progs' ! t) = length (thread_assigns blocks (unat n) t) - count_list sched t"
      using pr(2) that by simp
    also have "\<dots> = 0"
      using le_trans [OF length_thread_assigns [OF assms(1) b that] assms(5) [rule_format, OF that]]
      by simp
    finally show ?thesis by simp
  qed
  then have "list_all (\<lambda>p. p = []) progs'"
    using pr(1) by (simp add: list_all_length)
  with s show ?thesis by simp
qed

lemma cell_inj: "inj_on (cell R) (in_matrix R C)"
proof (rule inj_onI)
  fix x y assume xy: "x \<in> in_matrix R C" "y \<in> in_matrix R C" "cell R x = cell R y"
  obtain i j i' j' where e: "x = (i, j)" "y = (i', j')" by (metis surj_pair)
  have lt: "unat i < unat R" "unat i' < unat R"
    using xy e by (auto simp: in_matrix_def word_less_nat_alt)
  have eq: "unat i + unat R * unat j = unat i' + unat R * unat j'"
    using xy(3) by (simp add: e cell_def algebra_simps)
  have "unat i = unat i'" using arg_cong [OF eq, of "\<lambda>k. k mod unat R"] lt by simp
  moreover have "unat j = unat j'"
    using arg_cong [OF eq, of "\<lambda>k. k div unat R"] lt by simp
  ultimately show "x = y" by (simp add: e word_unat_eq_iff)
qed

lemma workers_disjoint:
  assumes "tiled_shape R C T" "make_blocks R C T = Some blocks" "t < n" "u < n" "t \<noteq> u"
  shows "cell R ` set (thread_assigns blocks n t) \<inter> cell R ` set (thread_assigns blocks n u) = {}"
proof -
  have m: "mset (concat (map (thread_assigns blocks n) [0..<n])) = mset (concat (map block_assigns blocks))"
    using assms(3) by (intro mset_thread_assigns) simp
  have dist: "distinct (concat (map (thread_assigns blocks n) [0..<n]))"
    using tiles_distinct [OF assms(1,2)] m by (metis mset_eq_imp_distinct_iff)
  have disj: "set (f t) \<inter> set (f u) = {}" if "distinct (concat (map f ts))" "t \<in> set ts" "u \<in> set ts" "t \<noteq> u"
    for f :: "nat \<Rightarrow> (u32 \<times> u32) list" and ts
    using that by (induction ts) auto
  have "set (thread_assigns blocks n t) \<inter> set (thread_assigns blocks n u) = {}"
    using assms(3-5) by (intro disj [OF dist]) auto
  moreover have "set (thread_assigns blocks n t) \<subseteq> in_matrix R C"
    "set (thread_assigns blocks n u) \<subseteq> in_matrix R C"
    using start_pool_inv [OF assms(1,2), of n] assms(3,4) by (auto simp: start_pool_def)
  ultimately show ?thesis
    using inj_on_image_Int [OF cell_inj] by (metis image_is_empty)
qed

lemma transposed_twice:
  assumes "r * c \<le> length src"
  shows "transposed c r (transposed r c src) = take (r * c) src"
proof (rule nth_equalityI)
  fix p assume "p < length (transposed c r (transposed r c src))"
  then have p: "p < r * c" by (simp add: mult.commute)
  then have c: "0 < c" and r: "p div c < r"
    by (auto simp: less_mult_imp_div_less intro: gr0I)
  have "transposed c r (transposed r c src) ! p = transposed r c src ! ((p mod c) * r + p div c)"
    using p by (intro transposed_nth_flat) (simp add: mult.commute)
  also have "\<dots> = src ! (p div c * c + p mod c)"
    using c r by (intro transposed_nth) simp_all
  finally show "transposed c r (transposed r c src) ! p = take (r * c) src ! p"
    using p by simp
qed (use assms in \<open>simp add: mult.commute min_absorb2\<close>)

section \<open>Shapes the tiled routine does not handle\<close>

text \<open>Whatever a worker has executed without a fault wrote inside the destination.\<close>

lemma pool_run_executed:
  assumes "pool_run src R C sched (Running dst progs) = Running dst' progs'" "t < length progs"
    and "(i, j) \<in> set (take (count_list sched t) (progs ! t))"
  shows "unat (j * R + i) < length dst"
  using assms
proof (induction sched arbitrary: dst progs)
  case Nil
  then show ?case by simp
next
  case (Cons u sched)
  let ?s = "pool_step src R C u (Running dst progs)"
  have run: "pool_run src R C sched ?s = Running dst' progs'"
    using Cons.prems(1) by (simp add: pool_run_def)
  show ?case
  proof (cases "u < length progs \<and> progs ! u \<noteq> []")
    case False
    then have "?s = Running dst progs" by (auto split: list.split)
    moreover have "(i, j) \<in> set (take (count_list sched t) (progs ! t))"
      using Cons.prems False by (cases "u = t") auto
    ultimately show ?thesis using Cons.IH run Cons.prems(2) by simp
  next
    case True
    then obtain a b rest where p: "progs ! u = (a, b) # rest" by (metis list.exhaust surj_pair)
    obtain d where d: "copy_elem src R C a b dst = Some d"
      using run True p by (cases "copy_elem src R C a b dst") (auto simp: pool_stuck)
    then have len: "length d = length dst" and ab: "unat (b * R + a) < length dst"
      by (auto simp: copy_elem_def arr_write_Some_iff split: option.splits)
    have s: "?s = Running d (progs[u := rest])" using d True p by simp
    show ?thesis
    proof (cases "u = t \<and> (i, j) = (a, b)")
      case True
      with ab show ?thesis by simp
    next
      case False
      then have "(i, j) \<in> set (take (count_list sched t) (progs[u := rest] ! t))"
        using Cons.prems(2,3) p by (cases "u = t") auto
      from Cons.IH [OF run [unfolded s] _ this] Cons.prems(2) len show ?thesis by simp
    qed
  qed
qed

text \<open>Rounding the number of blocks up reaches past the matrix in an inexact dimension.\<close>

lemma num_blocks_up:
  assumes "T \<noteq> 0" "unat e + unat T \<le> 2 ^ 32" "k < e \<or> k = e \<and> unat e mod unat T \<noteq> 0"
  shows "k div T < num_blocks e T \<and> k div T * T \<le> k \<and> k < k div T * T + T"
proof -
  have pos: "0 < unat T" using assms(1) by (simp add: unat_gt_0)
  have one: "unat (T - 1) = unat T - 1" using assms(1) by (simp add: unat_minus_one)
  have "unat (e + T - 1) = unat (e + (T - 1))" by (simp add: add_diff_eq)
  also have "\<dots> = unat e + (unat T - 1)"
    using assms(2) pos by (simp add: unat_word_ariths one)
  finally have nb: "unat (num_blocks e T) = (unat e + (unat T - 1)) div unat T"
    by (simp add: num_blocks_def unat_div)
  have ke: "unat k \<le> unat e" using assms(3) by (auto simp: word_less_nat_alt)
  have lo: "unat k div unat T * unat T \<le> unat k" by simp
  have hi: "unat k < unat k div unat T * unat T + unat T"
    using pos by (metis add.commute div_mult_mod_eq mod_less_divisor nat_add_left_cancel_less)
  have "unat k div unat T * unat T + unat T \<le> unat e + (unat T - 1)"
  proof (cases "k = e")
    case True
    then have "unat e mod unat T \<noteq> 0" using assms(3) by auto
    then have "unat e div unat T * unat T + 1 \<le> unat e"
      by (metis div_mult_mod_eq add_le_cancel_left less_one not_less)
    then show ?thesis unfolding True using pos by linarith
  next
    case False
    then have "unat k < unat e" using assms(3) by (simp add: word_less_nat_alt)
    then show ?thesis using lo pos by linarith
  qed
  then have "Suc (unat k div unat T) * unat T \<le> unat e + (unat T - 1)" by simp
  then have "Suc (unat k div unat T) \<le> (unat e + (unat T - 1)) div unat T"
    using pos by (simp add: less_eq_div_iff_mult_less_eq)
  then have less: "k div T < num_blocks e T"
    by (simp add: word_less_nat_alt unat_div nb)
  have q: "unat (k div T) = unat k div unat T" by (simp add: unat_div)
  have m: "unat (k div T * T) = unat k div unat T * unat T"
    using le_less_trans [OF lo, of "2 ^ 32"] unsigned_less [of k, where 'a = nat]
    by (simp add: unat_mult_lem [THEN iffD1] q)
  have m': "unat (k div T * T + T) = unat k div unat T * unat T + unat T"
    using assms(2) \<open>unat k div unat T * unat T + unat T \<le> unat e + (unat T - 1)\<close> pos
    by (simp add: unat_add_lem [THEN iffD1] m)
  show ?thesis
    using less lo hi by (simp add: word_le_nat_alt word_less_nat_alt m m')
qed

lemma rounded_blocks_reach:
  assumes "T \<noteq> 0" "unat R + unat T \<le> 2 ^ 32" "unat C + unat T \<le> 2 ^ 32"
    and "make_blocks R C T = Some blocks"
    and "i < R \<or> i = R \<and> unat R mod unat T \<noteq> 0" "j < C \<or> j = C \<and> unat C mod unat T \<noteq> 0"
  shows "(i, j) \<in> set (concat (map block_assigns blocks))"
proof -
  note i = num_blocks_up [OF assms(1,2,5)] and j = num_blocks_up [OF assms(1,3,6)]
  have "tile_block T (i div T) (j div T) \<in> set blocks"
  proof -
    have "tile_block T (i div T) (j div T) \<in>
        (\<lambda>bi. tile_block T bi (j div T)) ` {b. b < num_blocks R T}" using i by simp
    moreover have "j div T \<in> {b. b < num_blocks C T}" using j by simp
    ultimately have "tile_block T (i div T) (j div T) \<in>
        (\<Union>bj\<in>{b. b < num_blocks C T}. (\<lambda>bi. tile_block T bi bj) ` {b. b < num_blocks R T})"
      by (rule UN_I [rotated])
    also have "\<dots> = (\<Union>x \<in> (\<lambda>bj. map (\<lambda>bi. tile_block T bi bj) (word_range 0 (num_blocks R T))) `
        set (word_range 0 (num_blocks C T)). set x)" by simp
    also have "\<dots> \<subseteq> set blocks"
      unfolding option.inject [THEN iffD1, OF assms(4) [unfolded make_blocks_eq [OF assms(1)]], symmetric]
        set_append set_concat set_map by (rule Un_upper2)
    finally show ?thesis .
  qed
  moreover have "(i, j) \<in> set (block_assigns (tile_block T (i div T) (j div T)))"
    using i j by (simp add: set_block_assigns tile_block_def)
  ultimately show ?thesis by auto
qed

lemma inexact_copy_outside:
  assumes "T \<noteq> 0" "R \<noteq> 0" "C \<noteq> 0" "unat R + unat T \<le> 2 ^ 32" "unat C + unat T \<le> 2 ^ 32"
    and "unat R * unat C < 2 ^ 32" "unat R mod unat T \<noteq> 0 \<or> unat C mod unat T \<noteq> 0"
    and "make_blocks R C T = Some blocks"
  shows "\<exists>i j. (i, j) \<in> set (concat (map block_assigns blocks)) \<and> unat (j * R + i) = unat R * unat C"
proof (cases "unat C mod unat T = 0")
  case False
  have "(0, C) \<in> set (concat (map block_assigns blocks))"
    using assms(2) False by (intro rounded_blocks_reach [OF assms(1,4,5,8)]) (auto simp: word_gt_0)
  moreover have "unat (C * R + 0) = unat R * unat C"
    using assms(6) by (simp add: unat_word_ariths mult.commute)
  ultimately show ?thesis by blast
next
  case True
  have "(R, C - 1) \<in> set (concat (map block_assigns blocks))"
  proof (rule rounded_blocks_reach [OF assms(1,4,5,8)])
    show "C - 1 < C \<or> C - 1 = C \<and> unat C mod unat T \<noteq> 0"
      using assms(3) unat_gt_0 [of C] by (simp add: word_less_nat_alt unat_minus_one)
  qed (use True assms(7) in auto)
  moreover have "(C - 1) * R + R = C * R" by (simp add: algebra_simps)
  then have "unat ((C - 1) * R + R) = unat R * unat C"
    using assms(6) by (simp add: unat_word_ariths mult.commute)
  ultimately show ?thesis by blast
qed

lemma in_some_worker:
  assumes "0 < n" "ij \<in> set (concat (map block_assigns blocks))"
  shows "\<exists>t < n. ij \<in> set (thread_assigns blocks n t)"
proof -
  have "set (concat (map (thread_assigns blocks n) [0..<n])) = set (concat (map block_assigns blocks))"
    by (rule mset_eq_setD [OF mset_thread_assigns [OF assms(1)]])
  with assms(2) have "ij \<in> set (concat (map (thread_assigns blocks n) [0..<n]))" by simp
  then show ?thesis by auto
qed

text \<open>A worker that gets through all its copies has performed every one of them.\<close>

lemma bad_copy_faults:
  assumes "t < length progs" "(i, j) \<in> set (progs ! t)" "length dst \<le> unat (j * R + i)"
    and "length (progs ! t) \<le> count_list sched t"
  shows "pool_run src R C sched (Running dst progs) = Fault"
proof (cases "pool_run src R C sched (Running dst progs)")
  case (Running dst' progs')
  from pool_run_executed [OF this assms(1), of i j] assms(2-4) show ?thesis by simp
qed

text \<open>A dimension that is no multiple of the tile size: some copy lies outside, so the workers cannot all join.\<close>

lemma inexact_never_joins:
  assumes "T \<noteq> 0" "R \<noteq> 0" "C \<noteq> 0" "n \<noteq> 0" "unat R + unat T \<le> 2 ^ 32" "unat C + unat T \<le> 2 ^ 32"
    and "unat R * unat C < 2 ^ 32" "unat R mod unat T \<noteq> 0 \<or> unat C mod unat T \<noteq> 0"
    and "length dst = unat R * unat C" "make_blocks R C T = Some blocks"
  shows "\<not> joined (TransposeTiledMultiThreaded src dst R C T n sched) \<and>
    ((\<forall>t < unat n. length (thread_assigns blocks (unat n) t) \<le> count_list sched t) \<longrightarrow>
       TransposeTiledMultiThreaded src dst R C T n sched = Fault)"
proof -
  have n: "0 < unat n" using assms(4) by (simp add: unat_gt_0)
  obtain i j where ij: "(i, j) \<in> set (concat (map block_assigns blocks))" "unat (j * R + i) = unat R * unat C"
    using inexact_copy_outside [OF assms(1-3,5-8,10)] by blast
  then obtain t where t: "t < unat n" "(i, j) \<in> set (thread_assigns blocks (unat n) t)"
    using in_some_worker [OF n] by blast
  let ?progs = "map (thread_assigns blocks (unat n)) [0..<unat n]"
  let ?run = "TransposeTiledMultiThreaded src dst R C T n sched"
  have run: "?run = pool_run src R C sched (Running dst ?progs)"
    by (simp add: TransposeTiledMultiThreaded_def assms(10) start_pool_def)
  have fault: "?run = Fault" if "length (?progs ! t) \<le> count_list sched t"
    unfolding run using t ij(2) assms(9) that by (intro bad_copy_faults [of t _ i j]) simp_all
  have "\<not> joined ?run"
  proof (cases ?run)
    case (Running dst' progs')
    then have "length (progs' ! t) = length (?progs ! t) - count_list sched t" "length progs' = unat n"
      using pool_run_progress [of src R C sched dst ?progs dst' progs'] t(1) unfolding run by simp_all
    moreover have "\<not> length (?progs ! t) \<le> count_list sched t"
      using fault Running by auto
    ultimately have "progs' ! t \<noteq> []" "t < length progs'" using t(1) by auto
    then show ?thesis using Running by (auto simp: list_all_length)
  qed simp
  with fault t(1) show ?thesis by simp
qed

section \<open>Properties\<close>

text \<open>\<open>TransposeNaive\<close> stays in bounds and stores element \<open>(i, j)\<close> of the source at
  \<open>(j, i)\<close> of the destination, for every matrix of at most \<open>2 ^ 32\<close> elements, and leaves the
  destination past the matrix alone.\<close>

theorem naive_transposes:
  assumes "unat R * unat C \<le> 2 ^ 32"
    and "unat R * unat C \<le> length src" "unat R * unat C \<le> length dst"
  shows "\<exists>dst'. TransposeNaive src dst R C = Some dst' \<and> length dst' = length dst \<and>
    (\<forall>i < unat R. \<forall>j < unat C. dst' ! (j * unat R + i) = src ! (i * unat C + j)) \<and>
    drop (unat R * unat C) dst' = drop (unat R * unat C) dst"
  using assms flat_index_less_transposed
  by (simp add: TransposeNaive_spec nth_append transposed_nth)

theorem naive_transposes_witness:
  "\<exists>dst'. TransposeNaive [1, 2, 3, 4, 5, 6] [0, 0, 0, 0, 0, 0, 9] 2 3 = Some dst' \<and>
    length dst' = length [0, 0, 0, 0, 0, 0, 9 :: u64] \<and> (\<forall>i < 2. \<forall>j < 3. dst' ! (j * 2 + i) = [1, 2, 3, 4, 5, 6 :: u64] ! (i * 3 + j)) \<and> drop 6 dst' = [9]"
  using naive_transposes [of 2 3 "[1, 2, 3, 4, 5, 6]" "[0, 0, 0, 0, 0, 0, 9]"] by simp

text \<open>Transposing a matrix and transposing the result with the dimensions exchanged
  gives the original matrix back.\<close>

theorem naive_roundtrip:
  assumes "unat R * unat C \<le> 2 ^ 32" "length src = unat R * unat C"
    and "length mid = unat R * unat C" "length dst = unat R * unat C"
    and "TransposeNaive src mid R C = Some tr"
  shows "TransposeNaive tr dst C R = Some src"
proof -
  have tr: "tr = transposed (unat R) (unat C) src"
    using TransposeNaive_spec [of R C src mid] assms by simp
  have "TransposeNaive tr dst C R = Some (transposed (unat C) (unat R) tr @ drop (unat C * unat R) dst)"
    using assms by (intro TransposeNaive_spec) (simp_all add: tr mult.commute)
  then show ?thesis
    using assms by (simp add: tr transposed_twice mult.commute)
qed

theorem naive_roundtrip_witness:
  "TransposeNaive (transposed 2 3 [1, 2, 3, 4, 5, 6]) [0, 0, 0, 0, 0, 0] 3 2 = Some [1, 2, 3, 4, 5, 6]"
  by (rule naive_roundtrip [of 2 3 _ "[0, 0, 0, 0, 0, 0]"]) (simp_all add: TransposeNaive_spec)

text \<open>\<open>MatricesAreEqual\<close> answers whether the first \<open>rowCount * colCount\<close> elements (a
  product of 32 bits) of the two buffers agree, and never reads past them.\<close>

theorem matrices_equal_iff:
  assumes "unat (R * C) \<le> length a" "unat (R * C) \<le> length b"
  shows "MatricesAreEqual a b R C = Some (\<forall>p < unat (R * C). a ! p = b ! p)"
  using assms by (simp add: MatricesAreEqual_def equal_loop_spec)

theorem matrices_equal_iff_witness: "MatricesAreEqual [1, 2, 3, 4] [1, 2, 3, 5] 2 2 = Some False"
proof -
  have "(\<exists>p < 4. [1, 2, 3, 4 :: u64] ! p \<noteq> [1, 2, 3, 5] ! p)" by (intro exI [of _ 3]) simp
  then show ?thesis using matrices_equal_iff [of 2 2 "[1, 2, 3, 4]" "[1, 2, 3, 5]"] by simp
qed

text \<open>Property C11: when the tile size divides both dimensions, every interleaving of any positive
  number of worker threads stays in bounds, and once the workers have joined the destination is
  exactly what \<open>TransposeNaive\<close> computes.\<close>

theorem tiled_equals_naive:
  assumes "tiled_shape R C T" "n \<noteq> 0"
    and "unat R * unat C \<le> length src" "unat R * unat C \<le> length dst"
  shows "\<exists>dst' progs. TransposeTiledMultiThreaded src dst R C T n sched = Running dst' progs \<and>
    (joined (Running dst' progs) \<longrightarrow> TransposeNaive src dst R C = Some dst')"
proof -
  have "fits R C" using assms(1) by (simp add: tiled_shape_def)
  from TransposeNaive_spec [OF this assms(3,4)] tiled_run [OF assms, of sched] show ?thesis by auto
qed

theorem tiled_equals_naive_witness:
  "\<exists>dst' progs. TransposeTiledMultiThreaded [1, 2, 3, 4] [0, 0, 0, 0] 2 2 1 3 [1, 0, 2, 0, 1] = Running dst' progs \<and>
    (joined (Running dst' progs) \<longrightarrow> TransposeNaive [1, 2, 3, 4] [0, 0, 0, 0] 2 2 = Some dst')"
  by (rule tiled_equals_naive) (simp_all add: tiled_shape_def)

text \<open>Property C26: when the tile size divides both dimensions, the tiled routine terminates under every
  schedule that gives each worker enough turns: \<open>rowCount * colCount\<close> turns each always suffice for all workers to join.\<close>

theorem tiled_terminates:
  assumes "tiled_shape R C T" "n \<noteq> 0"
    and "unat R * unat C \<le> length src" "unat R * unat C \<le> length dst"
    and "\<forall>t < unat n. unat R * unat C \<le> count_list sched t"
  shows "joined (TransposeTiledMultiThreaded src dst R C T n sched)"
  using assms by (rule tiled_joins)

theorem tiled_terminates_witness:
  "joined (TransposeTiledMultiThreaded [1, 2, 3, 4] [0, 0, 0, 0] 2 2 2 2 [0, 1, 1, 0, 0, 1, 1, 0])"
proof (rule tiled_terminates)
  show "\<forall>t < unat (2 :: u32). unat (2 :: u32) * unat (2 :: u32) \<le> count_list [0, 1, 1, 0, 0, 1, 1, 0] t"
    by (auto simp: less_Suc_eq_0_disj less_2_cases_iff)
qed (simp_all add: tiled_shape_def)

text \<open>Property C27: when the tile size divides both dimensions, two different workers never write the same
  element of the destination, so the threads share no written location. The condition is needed: next
  to an unclamped last tile two workers can write the same element (\<open>inexact_workers_race\<close>).\<close>

theorem workers_race_free:
  assumes "tiled_shape R C T" "make_blocks R C T = Some blocks" "t < n" "u < n" "t \<noteq> u"
    and "(i, j) \<in> set (thread_assigns blocks n t)" "(i', j') \<in> set (thread_assigns blocks n u)"
  shows "j * R + i \<noteq> j' * R + i'"
proof
  assume eq: "j * R + i = j' * R + i'"
  have fit: "fits R C" using assms(1) by (simp add: tiled_shape_def)
  have sub: "set (thread_assigns blocks n w) \<subseteq> in_matrix R C" if "w < n" for w
    using start_pool_inv [OF assms(1,2), of n] that by (auto simp: start_pool_def)
  have "(i, j) \<in> in_matrix R C" "(i', j') \<in> in_matrix R C"
    using sub [OF assms(3)] sub [OF assms(4)] assms(6,7) by blast+
  then have "unat (j * R + i) = cell R (i, j)" "unat (j' * R + i') = cell R (i', j')"
    by (simp_all add: in_matrix_def cell_def unat_flat_swapped [OF fit])
  with eq have "cell R (i, j) = cell R (i', j')" by metis
  with workers_disjoint [OF assms(1-5)] assms(6,7) show False by blast
qed

theorem workers_race_free_witness:
  "(0, 1) \<in> set (thread_assigns [zero_block, zero_block, tile_block 1 0 0, tile_block 1 0 1] 2 1) \<and>
   (0, 0) \<in> set (thread_assigns [zero_block, zero_block, tile_block 1 0 0, tile_block 1 0 1] 2 0) \<and>
   (1 :: u32) * 1 + 0 \<noteq> 0 * 1 + 0"
proof -
  let ?bs = "[zero_block, zero_block, tile_block 1 0 0, tile_block 1 0 1]"
  have r: "word_range 0 (1 :: u32) = [0]" "word_range 0 (2 :: u32) = [0, 1]" "word_range 1 (2 :: u32) = [1]"
    by (simp_all add: word_range_def upt_rec)
  have b: "make_blocks 1 2 1 = Some ?bs"
    by (simp add: make_blocks_eq num_blocks_def r) (simp add: numeral_eq_Suc)
  have s: "strided 0 (Suc (Suc (Suc (Suc 0)))) 2 = [0, 2]"
    "strided (Suc 0) (Suc (Suc (Suc (Suc 0)))) 2 = [1, 3]"
    by (simp_all add: strided.simps)
  have m: "(0, 1) \<in> set (thread_assigns ?bs 2 1)" "(0, 0) \<in> set (thread_assigns ?bs 2 0)"
    by (simp_all add: thread_assigns_def s block_assigns_def tile_block_def zero_block_def)
  have "tiled_shape 1 2 1" by (simp add: tiled_shape_def)
  from workers_race_free [OF this b _ _ _ m] m show ?thesis by simp
qed

text \<open>A matrix of 16 by 128 with the tiles of the server and four workers: the third and the fourth worker both
  write the element 1071.\<close>

theorem inexact_workers_race:
  "\<exists>blocks. make_blocks 16 128 64 = Some blocks \<and> (63, 63) \<in> set (thread_assigns blocks 4 2) \<and>
     (47, 64) \<in> set (thread_assigns blocks 4 3) \<and> (63 * 16 + 63 :: u32) = 1071 \<and> (64 * 16 + 47 :: u32) = 1071"
proof -
  let ?blocks = "[zero_block, zero_block, tile_block 64 0 0, tile_block 64 0 1]"
  have nb: "num_blocks 16 64 = 1" "num_blocks 128 64 = 2" by (simp_all add: num_blocks_def)
  have r: "word_range 0 (1 :: u32) = [0]" "word_range 0 (2 :: u32) = [0, 1]"
    by (simp_all add: word_range_def upt_rec)
  have "make_blocks 16 128 64 = Some ?blocks" by (subst make_blocks_eq) (simp_all add: nb r, simp add: numeral_2_eq_2)
  moreover have "strided 2 (length ?blocks) 4 = [2]" "strided 3 (length ?blocks) 4 = [3]" by (simp_all add: strided.simps)
  then have "set (thread_assigns ?blocks 4 2) = set (block_assigns (tile_block 64 0 0))"
    "set (thread_assigns ?blocks 4 3) = set (block_assigns (tile_block 64 0 1))"
    by (simp_all only: thread_assigns_def) simp_all
  moreover have "set (block_assigns b) = {(i, j). iStart b \<le> i \<and> i < iEnd b \<and> jStart b \<le> j \<and> j < jEnd b}" for b
    by (auto simp: block_assigns_def)
  ultimately show ?thesis by (intro exI [of _ ?blocks]) (simp add: tile_block_def)
qed

text \<open>Property C39: transposing a matrix and transposing the result gives the matrix back. When the tile size divides
  both dimensions, and for any positive numbers of workers and any schedules under which they
  join, the second run of the tiled routine, with the dimensions exchanged, restores the source of the
  first one in every element.\<close>

theorem tiled_twice_restores:
  assumes "tiled_shape R C T" "n \<noteq> 0" "n' \<noteq> 0"
    and "length src = unat R * unat C" "length dst = unat R * unat C" "length back = unat R * unat C"
    and "TransposeTiledMultiThreaded src dst R C T n sched = Running dst' progs" "joined (Running dst' progs)"
    and "TransposeTiledMultiThreaded dst' back C R T n' sched' = Running back' progs'" "joined (Running back' progs')"
  shows "back' = src"
proof -
  have shape: "tiled_shape C R T" using assms(1) by (auto simp: tiled_shape_def mult.commute)
  have dst': "dst' = transposed (unat R) (unat C) src"
    using tiled_run [OF assms(1,2), of src dst sched] assms(4,5,7,8) by auto
  then have "unat C * unat R \<le> length dst'" "unat C * unat R \<le> length back" using assms(6) by (simp_all add: mult.commute)
  from tiled_run [OF shape assms(3) this, of sched'] have "back' = transposed (unat C) (unat R) dst'"
    using assms(6,9,10) by (auto simp: mult.commute)
  with transposed_twice [of "unat R" "unat C" src] dst' assms(4) show ?thesis by simp
qed

theorem tiled_twice_restores_witness:
  "\<exists>dst' progs back' progs'. TransposeTiledMultiThreaded [1, 2, 3, 4] [0, 0, 0, 0] 2 2 1 1 (replicate 4 0) = Running dst' progs \<and>
     TransposeTiledMultiThreaded dst' [0, 0, 0, 0] 2 2 1 1 (replicate 4 0) = Running back' progs' \<and> back' = [1, 2, 3, 4]"
proof -
  let ?run = "\<lambda>src. TransposeTiledMultiThreaded src [0, 0, 0, 0] 2 2 1 1 (replicate 4 0)"
  have shape: "tiled_shape 2 2 (1 :: u32)" by (simp add: tiled_shape_def)
  have runs: "\<exists>d p. ?run src = Running d p \<and> joined (Running d p) \<and> length d = 4" if "length src = 4" for src
  proof -
    have count: "count_list (replicate k x) x = k" for k and x :: nat by (induction k) auto
    have "joined (?run src)"
      by (rule tiled_joins [OF shape]) (use that count [of 4 0] in simp_all)
    with tiled_run [OF shape, of 1 src "[0, 0, 0, 0]" "replicate 4 0"] that show ?thesis by auto
  qed
  obtain d p where d: "?run [1, 2, 3, 4] = Running d p" "joined (Running d p)" "length d = 4" using runs [of "[1, 2, 3, 4]"] by auto
  obtain b q where b: "?run d = Running b q" "joined (Running b q)" using runs [OF d(3)] by blast
  have "b = [1, 2, 3, 4]" by (rule tiled_twice_restores [OF shape _ _ _ _ _ d(1,2) b]) simp_all
  with d b show ?thesis by blast
qed

text \<open>Property C38: when the tile size does not divide a dimension, no schedule lets the workers
  join: the unclamped last tile writes past a destination of \<open>rowCount * colCount\<close> elements, and
  every schedule that gives the workers enough turns runs into that write. This covers the client's
  default of a 16 by 16 matrix with the server's tile size 64.\<close>

theorem tiled_inexact_faults:
  assumes "T \<noteq> 0" "R \<noteq> 0" "C \<noteq> 0" "n \<noteq> 0" "unat R + unat T \<le> 2 ^ 32" "unat C + unat T \<le> 2 ^ 32"
    and "unat R * unat C < 2 ^ 32" "unat R mod unat T \<noteq> 0 \<or> unat C mod unat T \<noteq> 0"
    and "length dst = unat R * unat C" "make_blocks R C T = Some blocks"
  shows "\<not> joined (TransposeTiledMultiThreaded src dst R C T n sched) \<and>
    ((\<forall>t < unat n. length (thread_assigns blocks (unat n) t) \<le> count_list sched t) \<longrightarrow>
       TransposeTiledMultiThreaded src dst R C T n sched = Fault)"
  using assms by (rule inexact_never_joins)

theorem tiled_inexact_faults_witness:
  "TransposeTiledMultiThreaded (replicate 256 7) (replicate 256 0) 16 16 64 1 (replicate 4096 0) = Fault"
proof -
  have nb: "num_blocks 16 64 = 1" by (simp add: num_blocks_def)
  have r: "word_range 0 (1 :: u32) = [0]" by (simp add: word_range_def)
  have b: "make_blocks 16 16 64 = Some [zero_block, tile_block 64 0 0]"
    by (simp add: make_blocks_eq nb r)
  have s: "strided 0 (Suc (Suc 0)) (Suc 0) = [0, 1]" by (simp add: strided.simps)
  have len: "length (thread_assigns [zero_block, tile_block 64 0 0] 1 0) = 4096"
    by (simp add: thread_assigns_def s length_block_assigns) (simp add: tile_block_def)
  have count: "count_list (replicate k x) x = k" for k and x :: nat by (induction k) auto
  have "\<forall>t < unat (1 :: u32). length (thread_assigns [zero_block, tile_block 64 0 0] (unat (1 :: u32)) t)
      \<le> count_list (replicate 4096 0) t"
    using len count [of 4096 0] by simp
  with tiled_inexact_faults [of 64 16 16 1 "replicate 256 0" _ "replicate 256 7" "replicate 4096 0", OF _ _ _ _ _ _ _ _ _ b]
  show ?thesis by simp
qed

text \<open>With no worker threads, which the server's power-of-two test of its argument
  lets through, the routine returns at once and leaves the destination as it was.\<close>

theorem no_workers_no_transpose:
  assumes "T \<noteq> 0"
  shows "TransposeTiledMultiThreaded src dst R C T 0 sched = Running dst [] \<and> joined (Running dst [])"
proof -
  have "pool_run src R C sched (Running dst []) = Running dst []"
    by (induction sched) (simp_all add: pool_run_def)
  then show ?thesis
    using assms by (simp add: TransposeTiledMultiThreaded_def make_blocks_eq start_pool_def)
qed

theorem no_workers_no_transpose_witness:
  "TransposeTiledMultiThreaded [1, 2, 3, 4] [0, 0, 0, 0] 2 2 2 0 [0, 1] = Running [0, 0, 0, 0] [] \<and>
   joined (Running [0, 0, 0, 0] [])"
  by (rule no_workers_no_transpose) simp

end
