(* ===== verification/Text_IO.thy ===== *)
theory Text_IO
  imports Prelude
begin

text \<open>
  The text conversions of the C++ standard library that the sources use: decimal output of unsigned
  integers (\<open>operator<<\<close>, \<open>std::to_string\<close>), and the decimal readers \<open>std::stoi\<close>, \<open>std::atoi\<close>
  and \<open>istream >> size_t\<close>, with the errors they report. Undefined behaviour and exceptions are
  values of \<open>cpp_error\<close>.
\<close>

section \<open>Decimal output\<close>

definition digit_char :: "nat \<Rightarrow> char" where
  "digit_char d = char_of (48 + d)"

fun dec :: "nat \<Rightarrow> string" where
  "dec n = (if n < 10 then [digit_char n] else dec (n div 10) @ [digit_char (n mod 10)])"

declare dec.simps [simp del]

definition is_digit :: "char \<Rightarrow> bool" where
  "is_digit c \<longleftrightarrow> 48 \<le> (of_char c :: nat) \<and> (of_char c :: nat) \<le> 57"

definition digit_value :: "char \<Rightarrow> nat" where
  "digit_value c = of_char c - 48"

definition digits_value :: "string \<Rightarrow> nat" where
  "digits_value = foldl (\<lambda>a c. 10 * a + digit_value c) 0"

lemma of_digit_char: "d < 10 \<Longrightarrow> (of_char (digit_char d) :: nat) = 48 + d"
  by (simp add: digit_char_def)

lemma digit_char_props [simp]:
  "d < 10 \<Longrightarrow> is_digit (digit_char d)" "d < 10 \<Longrightarrow> digit_value (digit_char d) = d"
  by (simp_all add: is_digit_def digit_value_def of_digit_char)

lemma dec_digits: "list_all is_digit (dec n)"
proof (induction n rule: dec.induct)
  case (1 n)
  then show ?case by (cases "n < 10") (simp_all add: dec.simps [of n])
qed

lemma dec_not_Nil [simp]: "dec n \<noteq> []"
  by (simp add: dec.simps [of n])

lemma digits_value_dec [simp]: "digits_value (dec n) = n"
proof (induction n rule: dec.induct)
  case (1 n)
  then show ?case by (cases "n < 10") (simp_all add: dec.simps [of n] digits_value_def)
qed

lemma dec_inj: "dec m = dec n \<longleftrightarrow> m = n"
  by (metis digits_value_dec)

text \<open>A decimal number that is followed by a character other than a digit can be split off.\<close>

lemma takeWhile_dec:
  assumes "\<not> is_digit c"
  shows "takeWhile is_digit (dec n @ c # s) = dec n" "dropWhile is_digit (dec n @ c # s) = c # s"
  using dec_digits [of n] assms
  by (simp_all add: takeWhile_append2 dropWhile_append2 list_all_iff)

lemma takeWhile_dec_end [simp]: "takeWhile is_digit (dec n) = dec n"
  using dec_digits [of n] by (simp add: takeWhile_eq_all_conv list_all_iff)

lemma dec_delimited_inj:
  assumes "\<not> is_digit c"
  shows "dec m @ c # s = dec n @ c # t \<longleftrightarrow> m = n \<and> s = t"
  using takeWhile_dec [OF assms, of m s] takeWhile_dec [OF assms, of n t] by (metis dec_inj list.inject)

lemma braces_not_digits [simp]: "\<not> is_digit CHR ''}''" "\<not> is_digit CHR ''K''" "\<not> is_digit CHR ''M''"
  by (simp_all add: is_digit_def)

section \<open>Decimal input\<close>

datatype cpp_error = Undefined | Invalid_argument | Out_of_range

definition is_space :: "char \<Rightarrow> bool" where
  "is_space c \<longleftrightarrow> (of_char c :: nat) \<in> {9, 10, 11, 12, 13, 32}"

definition skip_space :: "string \<Rightarrow> string" where
  "skip_space s = dropWhile is_space s"

text \<open>An optional sign and the digits behind it; \<open>None\<close> when there is no digit.\<close>

definition read_signed :: "string \<Rightarrow> int option" where
  "read_signed s =
     (let t = skip_space s;
          neg = (t \<noteq> [] \<and> hd t = CHR ''-'');
          u = (if t \<noteq> [] \<and> (hd t = CHR ''-'' \<or> hd t = CHR ''+'') then tl t else t);
          ds = takeWhile is_digit u
      in if ds = [] then None
         else Some (if neg then - int (digits_value ds) else int (digits_value ds)))"

definition fits_int :: "int \<Rightarrow> bool" where
  "fits_int i \<longleftrightarrow> - (2 ^ 31) \<le> i \<and> i < 2 ^ 31"

definition stoi :: "string \<Rightarrow> cpp_error + int" where
  "stoi s = (case read_signed s of
       None \<Rightarrow> Inl Invalid_argument
     | Some i \<Rightarrow> if fits_int i then Inr i else Inl Out_of_range)"

text \<open>\<open>std::atoi\<close> yields 0 without digits and is undefined when the value does not fit.\<close>

definition atoi :: "string \<Rightarrow> cpp_error + int" where
  "atoi s = (case read_signed s of
       None \<Rightarrow> Inr 0
     | Some i \<Rightarrow> if fits_int i then Inr i else Inl Undefined)"

text \<open>\<open>istream >> size_t\<close>: 0 on failure, the largest value on overflow, and a minus sign negates.\<close>

definition read_size :: "string \<Rightarrow> u64" where
  "read_size s = (case read_signed s of
       None \<Rightarrow> 0
     | Some i \<Rightarrow> if \<bar>i\<bar> < 2 ^ 64 then of_int i else - 1)"

definition read_word :: "string \<Rightarrow> string" where
  "read_word s = takeWhile (\<lambda>c. \<not> is_space c) (skip_space s)"

lemma is_digit_not_space: "is_digit c \<Longrightarrow> \<not> is_space c"
  by (auto simp: is_digit_def is_space_def)

lemma hd_dec_digit: "is_digit (hd (dec n @ s))"
  using dec_digits [of n] by (cases "dec n") (auto simp: dec_not_Nil [symmetric])

lemma skip_space_dec: "skip_space (dec n @ s) = dec n @ s"
proof -
  have "\<not> is_space (hd (dec n @ s))" using hd_dec_digit by (rule is_digit_not_space)
  then show ?thesis by (cases "dec n @ s") (simp_all add: skip_space_def)
qed

lemma read_signed_dec:
  assumes "s = [] \<or> \<not> is_digit (hd s)"
  shows "read_signed (dec n @ s) = Some (int n)"
proof -
  have hd: "is_digit (hd (dec n @ s))" by (rule hd_dec_digit)
  then have sign: "hd (dec n @ s) \<noteq> CHR ''-''" "hd (dec n @ s) \<noteq> CHR ''+''"
    by (auto simp: is_digit_def)
  have "takeWhile is_digit (dec n @ s) = dec n"
    using assms takeWhile_dec(1) [of "hd s" n "tl s"] by (cases s) auto
  then show ?thesis
    using sign by (simp add: read_signed_def skip_space_dec Let_def)
qed

lemma read_word_dec:
  assumes "\<not> is_space c" "w = [] \<or> is_space (hd w)"
  shows "read_word (dec n @ c # w) = dec n @ [c]"
proof -
  have "takeWhile (\<lambda>c. \<not> is_space c) ((dec n @ [c]) @ w) = (dec n @ [c]) @ takeWhile (\<lambda>c. \<not> is_space c) w"
    using dec_digits [of n] assms(1) is_digit_not_space
    by (intro takeWhile_append2) (auto simp: list_all_iff)
  moreover have "takeWhile (\<lambda>c. \<not> is_space c) w = []"
    using assms(2) by (cases w) auto
  ultimately show ?thesis by (simp add: read_word_def skip_space_dec)
qed

end
