(* ===== verification/Memory_Utils.thy ===== *)
theory Memory_Utils
  imports Text_IO
begin

text \<open>
  \<open>lib/mem-utils/MemoryUtils.h\<close>: cache geometry read from sysfs and memory totals from
  \<open>sysinfo\<close>. The file system is a parameter \<open>fs\<close> (the content of a path, \<open>None\<close> when it cannot be
  opened) and so is the answer of \<open>sysinfo\<close> (\<open>None\<close> when the call fails).
\<close>

type_synonym file_system = "string \<Rightarrow> string option"

definition GetCacheLineSize :: "file_system \<Rightarrow> u64" where
  "GetCacheLineSize fs =
     (case fs ''/sys/devices/system/cpu/cpu0/cache/index0/coherency_line_size'' of
        None \<Rightarrow> 0
      | Some content \<Rightarrow> read_size content)"

text \<open>\<open>std::stoi(sizeStr) * f\<close> in \<open>int\<close> arithmetic (overflow is undefined), then converted to \<open>size_t\<close>.
  The product \<open>i * 1024 * 1024\<close> fits whenever all of it does, so one factor is enough.\<close>

definition scaled_size :: "string \<Rightarrow> int \<Rightarrow> cpp_error + u64" where
  "scaled_size sizeStr f =
     (case stoi sizeStr of
        Inl e \<Rightarrow> Inl e
      | Inr i \<Rightarrow> if fits_int (i * f) then Inr (of_int (i * f)) else Inl Undefined)"

definition cache_path :: "int \<Rightarrow> string" where
  "cache_path level = ''/sys/devices/system/cpu/cpu0/cache/index'' @
     (if level < 0 then ''-'' else []) @ dec (nat \<bar>level\<bar>) @ ''/size''"

text \<open>\<open>sizeStr.back()\<close> on an empty string is undefined. The parameter \<open>type\<close> is never used.\<close>

definition getCacheSize :: "file_system \<Rightarrow> int \<Rightarrow> string \<Rightarrow> cpp_error + u64" where
  "getCacheSize fs level type =
     (case fs (cache_path level) of
        None \<Rightarrow> Inr 0
      | Some content \<Rightarrow>
          let sizeStr = read_word content
          in if sizeStr = [] then Inl Undefined
             else if last sizeStr = CHR ''K'' then scaled_size sizeStr 1024
             else if last sizeStr = CHR ''M'' then scaled_size sizeStr (1024 * 1024)
             else scaled_size sizeStr 1)"

definition GetL1DataCacheSize :: "file_system \<Rightarrow> cpp_error + u64" where
  "GetL1DataCacheSize fs = getCacheSize fs 1 ''data''"

definition GetL1InstructionCacheSize :: "file_system \<Rightarrow> cpp_error + u64" where
  "GetL1InstructionCacheSize fs = getCacheSize fs 1 ''instruction''"

definition GetL2CacheSize :: "file_system \<Rightarrow> cpp_error + u64" where
  "GetL2CacheSize fs = getCacheSize fs 2 ''unified''"

definition GetL3CacheSize :: "file_system \<Rightarrow> cpp_error + u64" where
  "GetL3CacheSize fs = getCacheSize fs 3 ''unified''"

record sys_info =
  totalram :: u64
  freeram :: u64
  mem_unit :: u32

definition GetTotalMemory :: "sys_info option \<Rightarrow> u64" where
  "GetTotalMemory si = (case si of None \<Rightarrow> 0 | Some info \<Rightarrow> totalram info * ucast (mem_unit info))"

definition GetUsedMemory :: "sys_info option \<Rightarrow> u64" where
  "GetUsedMemory si =
     (case si of None \<Rightarrow> 0 | Some info \<Rightarrow> (totalram info - freeram info) * ucast (mem_unit info))"

definition GetFreeMemory :: "sys_info option \<Rightarrow> u64" where
  "GetFreeMemory si = (case si of None \<Rightarrow> 0 | Some info \<Rightarrow> freeram info * ucast (mem_unit info))"

section \<open>Properties\<close>

lemma scaled_size_dec:
  assumes "int n * f < 2 ^ 31" "0 < f" "s = [] \<or> \<not> is_digit (hd s)"
  shows "scaled_size (dec n @ s) f = Inr (of_int (int n * f))"
proof -
  have "int n * 1 \<le> int n * f" using assms(2) by (intro mult_left_mono) auto
  then have "fits_int (int n)" "fits_int (int n * f)"
    using assms(1,2) by (auto simp: fits_int_def)
  then show ?thesis
    using assms(3) by (simp add: scaled_size_def stoi_def read_signed_dec)
qed

text \<open>A sysfs entry of \<open>n\<close> kibibytes (\<open>nK\<close>, as the kernel prints it, newline included)
  is reported as \<open>n * 1024\<close> bytes as long as that fits \<open>int\<close>, and an absent entry as 0.\<close>

theorem cache_size_kibibytes:
  assumes "fs (cache_path level) = Some (dec n @ ''K'' @ w)" "w = [] \<or> is_space (hd w)" "n * 1024 < 2 ^ 31"
  shows "getCacheSize fs level type = Inr (of_nat (n * 1024))"
proof -
  have "\<not> is_space CHR ''K''" by (simp add: is_space_def)
  then have w: "read_word (dec n @ CHR ''K'' # w) = dec n @ ''K''"
    using assms(2) by (simp add: read_word_dec)
  have "scaled_size (dec n @ ''K'') 1024 = Inr (of_int (int n * 1024))"
    using assms(3) by (intro scaled_size_dec) simp_all
  then show ?thesis
    using assms(1) w by (simp add: getCacheSize_def Let_def)
qed

theorem cache_size_kibibytes_witness:
  "getCacheSize (\<lambda>p. if p = cache_path 2 then Some (dec 512 @ ''K'' @ [CHR 0x0A]) else None) 2 ''unified'' =
     Inr 524288"
  using cache_size_kibibytes [of "\<lambda>p. if p = cache_path 2 then Some (dec 512 @ ''K'' @ [CHR 0x0A]) else None"
      2 512 "[CHR 0x0A]"]
  by (simp add: is_space_def)

text \<open>Used and free memory add up to the total (in 64-bit arithmetic) whatever
  \<open>sysinfo\<close> reports and also when it fails.\<close>

theorem memory_adds_up: "GetUsedMemory si + GetFreeMemory si = GetTotalMemory si"
  by (simp add: GetUsedMemory_def GetFreeMemory_def GetTotalMemory_def algebra_simps split: option.split)

text \<open>The sizes of the level 1 data cache and instruction cache are always reported as
  equal, because the kind of cache asked for plays no part in the lookup.\<close>

theorem l1_sizes_coincide: "GetL1DataCacheSize fs = GetL1InstructionCacheSize fs"
  by (simp add: GetL1DataCacheSize_def GetL1InstructionCacheSize_def getCacheSize_def)

end
