(* ===== verification/Shared_Memory.thy ===== *)
theory Shared_Memory
  imports Text_IO
begin

text \<open>
  \<open>lib/shared-mem/SharedMemory\<close>: the RAII wrapper around a POSIX shared-memory object. The system
  calls are parameters: a record of functions over an abstract kernel state \<open>'k\<close>, each returning the
  C result code and the next kernel state. What the code relies on is \<open>posix_laws\<close>, the documented
  effect of each call on the set of names that exist; the theorems take it as a hypothesis.
\<close>

section \<open>System calls\<close>

record 'k posix =
  shm_open :: "string \<Rightarrow> bool \<Rightarrow> 'k \<Rightarrow> int \<times> 'k" \<comment> \<open>the flag says whether \<open>O_EXCL\<close> is given\<close>
  ftruncate :: "int \<Rightarrow> u64 \<Rightarrow> 'k \<Rightarrow> int \<times> 'k"
  mmap :: "u64 \<Rightarrow> int \<Rightarrow> 'k \<Rightarrow> u64 \<times> 'k"
  munmap :: "u64 \<Rightarrow> u64 \<Rightarrow> 'k \<Rightarrow> 'k"
  close_fd :: "int \<Rightarrow> 'k \<Rightarrow> 'k"
  shm_unlink :: "string \<Rightarrow> 'k \<Rightarrow> 'k"
  memset_zero :: "u64 \<Rightarrow> u64 \<Rightarrow> 'k \<Rightarrow> 'k"

definition MAP_FAILED :: u64 where
  "MAP_FAILED = - 1"

section \<open>The class\<close>

datatype Ownership = Owner | Borrower

datatype BufferInitMode = Init_Zero | Init_NoInit

record SharedMemory =
  m_ShmObjectName :: string
  m_SizeInBytes :: u64
  m_FileDescriptor :: int
  m_RawPointer :: u64
  m_Ownership :: Ownership

text \<open>The \<open>std::runtime_error\<close>s the constructor throws.\<close>

datatype shm_error = Create_failed string | Truncate_failed string u64 | Map_failed string

definition FillWithZero :: "'k posix \<Rightarrow> SharedMemory \<Rightarrow> 'k \<Rightarrow> 'k" where
  "FillWithZero P sm k = memset_zero P (m_RawPointer sm) (m_SizeInBytes sm) k"

text \<open>The part of the constructor behind the branch on the ownership.\<close>

definition map_object ::
  "'k posix \<Rightarrow> u64 \<Rightarrow> string \<Rightarrow> Ownership \<Rightarrow> BufferInitMode \<Rightarrow> int \<Rightarrow> 'k \<Rightarrow> (shm_error + SharedMemory) \<times> 'k" where
  "map_object P sizeInBytes name ownership initMode fd k =
     (case mmap P sizeInBytes fd k of (ptr, k1) \<Rightarrow>
        if ptr = MAP_FAILED \<or> ptr = 0
        then (Inl (Map_failed name), shm_unlink P name (close_fd P fd k1))
        else
          let k2 = close_fd P fd k1;
              sm = \<lparr>m_ShmObjectName = name, m_SizeInBytes = sizeInBytes, m_FileDescriptor = fd,
                    m_RawPointer = ptr, m_Ownership = ownership\<rparr>
          in (Inr sm, if initMode = Init_Zero \<and> ownership = Owner then FillWithZero P sm k2 else k2))"

definition SharedMemory_ctor ::
  "'k posix \<Rightarrow> u64 \<Rightarrow> string \<Rightarrow> Ownership \<Rightarrow> BufferInitMode \<Rightarrow> 'k \<Rightarrow> (shm_error + SharedMemory) \<times> 'k" where
  "SharedMemory_ctor P sizeInBytes name ownership initMode k =
     (case ownership of
        Owner \<Rightarrow>
          (case shm_open P name True k of (fd, k1) \<Rightarrow>
             if fd < 0 then (Inl (Create_failed name), k1)
             else (case ftruncate P fd sizeInBytes k1 of (r, k2) \<Rightarrow>
                     if r < 0
                     then (Inl (Truncate_failed name sizeInBytes), shm_unlink P name (close_fd P fd k2))
                     else map_object P sizeInBytes name ownership initMode fd k2))
      | Borrower \<Rightarrow>
          (case shm_open P name False k of (fd, k1) \<Rightarrow>
             if fd < 0 then (Inl (Create_failed name), k1)
             else map_object P sizeInBytes name ownership initMode fd k1))"

definition SharedMemory_dtor :: "'k posix \<Rightarrow> SharedMemory \<Rightarrow> 'k \<Rightarrow> SharedMemory \<times> 'k" where
  "SharedMemory_dtor P sm k =
     (let k1 = (if m_RawPointer sm \<noteq> MAP_FAILED \<and> m_RawPointer sm \<noteq> 0
                then munmap P (m_RawPointer sm) (m_SizeInBytes sm) k else k);
          k2 = (if m_Ownership sm = Owner then shm_unlink P (m_ShmObjectName sm) k1 else k1)
      in (sm\<lparr>m_RawPointer := 0, m_SizeInBytes := 0, m_FileDescriptor := -1, m_ShmObjectName := []\<rparr>, k2))"

definition shm_GetRawPointer :: "SharedMemory \<Rightarrow> u64" where
  "shm_GetRawPointer sm = m_RawPointer sm"

definition shm_GetName :: "SharedMemory \<Rightarrow> string" where
  "shm_GetName sm = m_ShmObjectName sm"

definition shm_GetBufferSizeInBytes :: "SharedMemory \<Rightarrow> u64" where
  "shm_GetBufferSizeInBytes sm = m_SizeInBytes sm"

section \<open>What the system calls are relied on for\<close>

text \<open>
  \<open>ex k n\<close> says that the name \<open>n\<close> exists in kernel state \<open>k\<close>. Opening with \<open>O_CREAT | O_EXCL\<close>
  succeeds only on a new name, opening with \<open>O_CREAT\<close> creates a missing one, a failed open creates
  nothing, \<open>shm_unlink\<close> removes the name, and the other calls leave the names alone.
\<close>

definition posix_laws :: "'k posix \<Rightarrow> ('k \<Rightarrow> string \<Rightarrow> bool) \<Rightarrow> bool" where
  "posix_laws P ex \<longleftrightarrow>
     (\<forall>n k. 0 \<le> fst (shm_open P n True k) \<longrightarrow> \<not> ex k n) \<and>
     (\<forall>n e k. ex (snd (shm_open P n e k)) =
        (if 0 \<le> fst (shm_open P n e k) then (ex k)(n := True) else ex k)) \<and>
     (\<forall>fd sz k. ex (snd (ftruncate P fd sz k)) = ex k) \<and>
     (\<forall>sz fd k. ex (snd (mmap P sz fd k)) = ex k) \<and>
     (\<forall>p sz k. ex (munmap P p sz k) = ex k) \<and>
     (\<forall>fd k. ex (close_fd P fd k) = ex k) \<and>
     (\<forall>n k. ex (shm_unlink P n k) = (ex k)(n := False)) \<and>
     (\<forall>p sz k. ex (memset_zero P p sz k) = ex k)"

lemma posix_names:
  assumes "posix_laws P ex"
  shows "shm_open P n True k = (fd, k1) \<Longrightarrow> 0 \<le> fd \<Longrightarrow> \<not> ex k n"
    and "shm_open P n e k = (fd, k1) \<Longrightarrow> ex k1 = (if 0 \<le> fd then (ex k)(n := True) else ex k)"
    and "ftruncate P fd sz k = (r, k1) \<Longrightarrow> ex k1 = ex k"
    and "mmap P sz fd k = (ptr, k1) \<Longrightarrow> ex k1 = ex k"
    and "ex (munmap P ptr sz k) = ex k"
    and "ex (close_fd P fd k) = ex k"
    and "ex (shm_unlink P n k) = (ex k)(n := False)"
    and "ex (memset_zero P ptr sz k) = ex k"
  using assms unfolding posix_laws_def by (metis fst_conv snd_conv)+

lemma map_object_names:
  assumes "posix_laws P ex" "map_object P sz name own mode fd k = (r, k')"
  shows "case r of Inl e \<Rightarrow> e = Map_failed name \<and> ex k' = (ex k)(name := False)
    | Inr sm \<Rightarrow> ex k' = ex k \<and> m_ShmObjectName sm = name \<and> m_Ownership sm = own \<and> m_SizeInBytes sm = sz \<and>
        m_RawPointer sm \<noteq> 0 \<and> m_RawPointer sm \<noteq> MAP_FAILED"
  using assms(2) posix_names(4) [OF assms(1)] posix_names(6-8) [OF assms(1)]
  by (auto simp: map_object_def FillWithZero_def Let_def split: prod.splits if_splits)

lemma ctor_names:
  assumes "posix_laws P ex" "SharedMemory_ctor P sz name own mode k = (r, k')"
  shows "case r of
      Inl e \<Rightarrow> (if own = Owner \<and> \<not> ex k name \<or> own = Borrower \<and> e = Map_failed name
                then ex k' = (ex k)(name := False) else ex k' = ex k)
    | Inr sm \<Rightarrow> ex k' = (ex k)(name := True) \<and> (own = Owner \<longrightarrow> \<not> ex k name) \<and>
        m_ShmObjectName sm = name \<and> m_Ownership sm = own \<and> m_SizeInBytes sm = sz \<and>
        m_RawPointer sm \<noteq> 0 \<and> m_RawPointer sm \<noteq> MAP_FAILED"
proof (cases own)
  case Owner
  obtain fd k1 where op: "shm_open P name True k = (fd, k1)" by force
  show ?thesis
  proof (cases "fd < 0")
    case True
    have "ex k1 = ex k" using posix_names(2) [OF assms(1) op] True by simp
    with assms(2) Owner op True show ?thesis by (auto simp: SharedMemory_ctor_def fun_eq_iff)
  next
    case False
    obtain q k2 where ft: "ftruncate P fd sz k1 = (q, k2)" by force
    have new: "\<not> ex k name" using posix_names(1) [OF assms(1) op] False by simp
    have k2: "ex k2 = (ex k)(name := True)"
      using posix_names(2) [OF assms(1) op] posix_names(3) [OF assms(1) ft] False by simp
    show ?thesis
    proof (cases "q < 0")
      case True
      with assms(2) Owner op ft False k2 new posix_names(6,7) [OF assms(1)] show ?thesis
        by (auto simp: SharedMemory_ctor_def)
    next
      case q: False
      then have "map_object P sz name Owner mode fd k2 = (r, k')"
        using assms(2) Owner op ft False by (simp add: SharedMemory_ctor_def)
      from map_object_names [OF assms(1) this] k2 new Owner show ?thesis
        by (auto split: sum.splits)
    qed
  qed
next
  case Borrower
  obtain fd k1 where op: "shm_open P name False k = (fd, k1)" by force
  have k1: "ex k1 = (if 0 \<le> fd then (ex k)(name := True) else ex k)"
    by (rule posix_names(2) [OF assms(1) op])
  show ?thesis
  proof (cases "fd < 0")
    case True
    with assms(2) Borrower op k1 show ?thesis by (auto simp: SharedMemory_ctor_def)
  next
    case False
    then have "map_object P sz name Borrower mode fd k1 = (r, k')"
      using assms(2) Borrower op by (simp add: SharedMemory_ctor_def)
    from map_object_names [OF assms(1) this] k1 False Borrower show ?thesis
      by (auto split: sum.splits)
  qed
qed

text \<open>The handle of a successful construction, whatever the kernel does.\<close>

lemma ctor_fields:
  assumes "SharedMemory_ctor P sz name own mode k = (Inr sm, k')"
  shows "m_ShmObjectName sm = name" "m_SizeInBytes sm = sz" "m_Ownership sm = own"
  using assms
  by (auto simp: SharedMemory_ctor_def map_object_def Let_def split: Ownership.splits prod.splits if_splits)

lemma dtor_names:
  assumes "posix_laws P ex"
  shows "ex (snd (SharedMemory_dtor P sm k)) =
    (if m_Ownership sm = Owner then (ex k)(m_ShmObjectName sm := False) else ex k)"
  using posix_names(5,7) [OF assms] by (simp add: SharedMemory_dtor_def Let_def)

section \<open>A kernel for the witnesses\<close>

text \<open>
  A kernel state that is the list of existing names; \<open>mmap\<close> answers the given address. It shows that
  \<open>posix_laws\<close> can hold.
\<close>

definition list_kernel :: "u64 \<Rightarrow> string list posix" where
  "list_kernel addr =
     \<lparr>shm_open = (\<lambda>n excl k. if excl \<and> n \<in> set k then (-1, k) else (3, List.insert n k)),
      ftruncate = (\<lambda>fd sz k. (0, k)), mmap = (\<lambda>sz fd k. (addr, k)), munmap = (\<lambda>p sz k. k),
      close_fd = (\<lambda>fd k. k), shm_unlink = (\<lambda>n k. removeAll n k), memset_zero = (\<lambda>p sz k. k)\<rparr>"

definition listed :: "string list \<Rightarrow> string \<Rightarrow> bool" where
  "listed k n \<longleftrightarrow> n \<in> set k"

lemma list_kernel_laws: "posix_laws (list_kernel addr) listed"
  by (auto simp: posix_laws_def list_kernel_def listed_def fun_eq_iff)

section \<open>Properties\<close>

text \<open>Property C37: creating an owned object is all or nothing. When the constructor succeeds the name
  is new and is the only one added; when it throws, for whichever reason, the names are as before.\<close>

theorem owner_ctor_atomic:
  assumes "posix_laws P ex" "SharedMemory_ctor P sz name Owner mode k = (r, k')"
  shows "case r of Inl e \<Rightarrow> ex k' = ex k
    | Inr sm \<Rightarrow> \<not> ex k name \<and> ex k' = (ex k)(name := True) \<and> m_RawPointer sm \<noteq> 0 \<and> m_SizeInBytes sm = sz"
  using ctor_names [OF assms] by (auto split: sum.splits if_splits)

theorem owner_ctor_atomic_witness:
  "case SharedMemory_ctor (list_kernel 4096) 64 ''q'' Owner Init_Zero [''f''] of (r, k') \<Rightarrow>
     (case r of Inl e \<Rightarrow> listed k' = listed [''f'']
      | Inr sm \<Rightarrow> \<not> listed [''f''] ''q'' \<and> listed k' = (listed [''f''])(''q'' := True) \<and>
          m_RawPointer sm \<noteq> 0 \<and> m_SizeInBytes sm = 64)"
  using owner_ctor_atomic [OF list_kernel_laws, of 4096 64 "''q''" Init_Zero "[''f'']"] by blast

text \<open>The lifetime of an object is the lifetime of its owner. Destroying the owner takes
  the set of names back to what it was before the construction, while destroying a borrower leaves
  the name in place.\<close>

theorem owner_lifetime:
  assumes "posix_laws P ex" "SharedMemory_ctor P sz name own mode k = (Inr sm, k')"
  shows "ex (snd (SharedMemory_dtor P sm k')) = (if own = Owner then ex k else (ex k)(name := True))"
  using ctor_names [OF assms] dtor_names [OF assms(1), of sm k'] by (auto simp: fun_upd_idem_iff)

theorem owner_lifetime_witness:
  "case SharedMemory_ctor (list_kernel 4096) 64 ''q'' Owner Init_Zero [''f''] of
     (Inr sm, k') \<Rightarrow> listed (snd (SharedMemory_dtor (list_kernel 4096) sm k')) = listed [''f'']
   | (Inl e, k') \<Rightarrow> False"
proof -
  obtain sm k' where c: "SharedMemory_ctor (list_kernel 4096) 64 ''q'' Owner Init_Zero [''f''] = (Inr sm, k')"
    by (simp add: SharedMemory_ctor_def list_kernel_def map_object_def Let_def MAP_FAILED_def)
  from owner_lifetime [OF list_kernel_laws c] show ?thesis by (simp add: c)
qed

text \<open>An existing name cannot be created a second time: another owner's constructor
  throws and changes no name.\<close>

theorem second_owner_rejected:
  assumes "posix_laws P ex" "ex k name" "SharedMemory_ctor P sz name Owner mode k = (r, k')"
  shows "(\<exists>e. r = Inl e) \<and> ex k' = ex k"
  using ctor_names [OF assms(1,3)] assms(2) by (auto split: sum.splits)

theorem second_owner_rejected_witness:
  "case SharedMemory_ctor (list_kernel 4096) 64 ''q'' Owner Init_Zero [''q''] of (r, k') \<Rightarrow>
     (\<exists>e. r = Inl e) \<and> listed k' = listed [''q'']"
  using second_owner_rejected [OF list_kernel_laws, of "[''q'']" "''q''" 4096 64 Init_Zero]
  by (simp add: listed_def split: prod.split)

text \<open>A borrower whose \<open>mmap\<close> fails unlinks the name, although the object belongs to
  another process that still uses it.\<close>

theorem borrower_map_failure_unlinks:
  assumes "posix_laws P ex" "SharedMemory_ctor P sz name Borrower mode k = (Inl (Map_failed name), k')"
  shows "ex k' = (ex k)(name := False)"
  using ctor_names [OF assms] by simp

theorem borrower_map_failure_unlinks_witness:
  "case SharedMemory_ctor (list_kernel (- 1)) 64 ''q'' Borrower Init_NoInit [''q''] of
     (r, k') \<Rightarrow> listed k' = (listed [''q''])(''q'' := False)"
proof -
  obtain k' where c: "SharedMemory_ctor (list_kernel (- 1)) 64 ''q'' Borrower Init_NoInit [''q''] =
      (Inl (Map_failed ''q''), k')"
    by (simp add: SharedMemory_ctor_def list_kernel_def map_object_def Let_def MAP_FAILED_def)
  from borrower_map_failure_unlinks [OF list_kernel_laws c] show ?thesis by (simp add: c)
qed

end
