(* ===== verification/Fifo_Spec.thy ===== *)
theory Fifo_Spec
  imports Shared_Memory Memory_Utils "HOL-Library.Sublist"
begin

text \<open>
  What the two queue classes of \<open>lib/spsc-queue\<close> promise, independent of their layout: the contents
  of a circular buffer as a list, the sequential contract of a bounded FIFO queue (locale
  \<open>bounded_fifo\<close>, with its refinement to a list), and the contract of a channel between one
  producer and one consumer that run concurrently (locale \<open>fifo_channel\<close>).
\<close>

section \<open>Circular buffers\<close>

definition ring_count :: "nat \<Rightarrow> nat \<Rightarrow> nat \<Rightarrow> nat" where
  "ring_count N t h = (h + N - t) mod N"

definition ring_list :: "'a list \<Rightarrow> nat \<Rightarrow> nat \<Rightarrow> 'a list" where
  "ring_list buf t h = map (\<lambda>i. buf ! ((t + i) mod length buf)) [0..<ring_count (length buf) t h]"

lemma ring_count_less: "0 < N \<Longrightarrow> ring_count N t h < N"
  by (simp add: ring_count_def)

lemma length_ring_list [simp]: "length (ring_list buf t h) = ring_count (length buf) t h"
  by (simp add: ring_list_def)

lemma ring_count_cases:
  assumes "t < N" "h < N"
  shows "ring_count N t h = (if t \<le> h then h - t else h + N - t)"
  using assms by (auto simp: ring_count_def mod_if)

lemma ring_count_0_iff: "t < N \<Longrightarrow> h < N \<Longrightarrow> ring_count N t h = 0 \<longleftrightarrow> t = h"
  by (auto simp: ring_count_cases)

lemma ring_list_Nil_iff: "t < length buf \<Longrightarrow> h < length buf \<Longrightarrow> ring_list buf t h = [] \<longleftrightarrow> t = h"
  using ring_count_0_iff [of t "length buf" h] by (simp flip: length_0_conv)

lemma ring_next_cases: "h < N \<Longrightarrow> Suc h mod N = (if Suc h = N then 0 else Suc h)"
  by auto

lemma ring_full_iff:
  assumes "t < N" "h < N"
  shows "Suc h mod N = t \<longleftrightarrow> ring_count N t h = N - 1"
  using assms by (auto simp: ring_count_cases ring_next_cases)

lemma ring_count_push:
  assumes "t < N" "h < N" "Suc h mod N \<noteq> t"
  shows "ring_count N t (Suc h mod N) = Suc (ring_count N t h)"
  using assms by (auto simp: ring_count_cases ring_next_cases)

lemma ring_count_pop:
  assumes "t < N" "h < N" "t \<noteq> h"
  shows "Suc (ring_count N (Suc t mod N) h) = ring_count N t h"
  using assms by (auto simp: ring_count_cases ring_next_cases)

lemma ring_index_below_head:
  assumes "t < N" "h < N" "i < ring_count N t h"
  shows "(t + i) mod N \<noteq> h"
proof (cases "t + i < N")
  case True
  with assms show ?thesis by (auto simp: ring_count_cases split: if_splits)
next
  case False
  then have "(t + i) mod N = t + i - N"
    using assms ring_count_less [of N t h] by (simp add: mod_if)
  with False assms show ?thesis by (auto simp: ring_count_cases split: if_splits)
qed

lemma ring_index_head:
  assumes "t < N" "h < N"
  shows "(t + ring_count N t h) mod N = h"
  using assms by (auto simp: ring_count_cases)

text \<open>The free slot at the head can be written without disturbing the contents.\<close>

lemma ring_list_write_head:
  assumes "t < length buf" "h < length buf"
  shows "ring_list (buf[h := x]) t h = ring_list buf t h"
  using ring_index_below_head [OF assms] unfolding ring_list_def length_list_update
  by (intro map_cong refl) (metis atLeastLessThan_iff nth_list_update_neq set_upt)

lemma ring_list_push:
  assumes "t < length buf" "h < length buf" "Suc h mod length buf \<noteq> t"
  shows "ring_list (buf[h := x]) t (Suc h mod length buf) = ring_list buf t h @ [x]"
proof -
  let ?N = "length buf"
  have "ring_list (buf[h := x]) t (Suc h mod ?N) =
      map (\<lambda>i. buf[h := x] ! ((t + i) mod ?N)) [0..<ring_count ?N t h] @
      [buf[h := x] ! ((t + ring_count ?N t h) mod ?N)]"
    using ring_count_push [OF assms] by (simp add: ring_list_def)
  also have "map (\<lambda>i. buf[h := x] ! ((t + i) mod ?N)) [0..<ring_count ?N t h] = ring_list buf t h"
    using ring_list_write_head [OF assms(1,2), of x] by (simp add: ring_list_def)
  also have "buf[h := x] ! ((t + ring_count ?N t h) mod ?N) = x"
    using ring_index_head [OF assms(1,2)] assms(2) by simp
  finally show ?thesis .
qed

text \<open>Publishing the slot the producer has already written.\<close>

lemma ring_list_publish:
  assumes "t < length buf" "h < length buf" "Suc h mod length buf \<noteq> t"
  shows "ring_list buf t (Suc h mod length buf) = ring_list buf t h @ [buf ! h]"
  using ring_list_push [OF assms, of "buf ! h"] by simp

lemma ring_list_pop:
  assumes "t < length buf" "h < length buf" "t \<noteq> h"
  shows "ring_list buf t h = buf ! t # ring_list buf (Suc t mod length buf) h"
proof -
  let ?N = "length buf"
  have pos: "0 < ?N" using assms(1) by (rule le_less_trans [OF le0])
  have "[0..<ring_count ?N t h] = 0 # map Suc [0..<ring_count ?N (Suc t mod ?N) h]"
    using ring_count_pop [OF assms] by (metis map_Suc_upt upt_conv_Cons zero_less_Suc)
  moreover have "(t + Suc i) mod ?N = (Suc t mod ?N + i) mod ?N" for i
    by (simp add: mod_add_left_eq)
  ultimately show ?thesis
    using assms(1) pos unfolding ring_list_def by (auto simp: comp_def)
qed

section \<open>Power-of-two masks\<close>

text \<open>
  Both queues reduce an index with \<open>(i + 1) & m_CapacityMinusOne\<close>. For a capacity that is a power of
  two this is the successor modulo the capacity.
\<close>

definition is_capacity :: "nat \<Rightarrow> u64 \<Rightarrow> bool" where
  "is_capacity N m \<longleftrightarrow> (\<exists>k. 1 \<le> k \<and> k < 64 \<and> N = 2 ^ k \<and> m = mask k)"

lemma unat_mask: "k \<le> 64 \<Longrightarrow> unat (mask k :: u64) = 2 ^ k - 1"
proof -
  assume "k \<le> 64"
  then have "unat (mask k :: u64) = mask k"
    by (intro bit_eqI) (auto simp: bit_unsigned_iff bit_mask_iff)
  then show ?thesis by (simp add: mask_eq_exp_minus_1)
qed

lemma is_capacityD:
  assumes "is_capacity N m"
  shows "2 \<le> N" "N < 2 ^ 64" "unat m = N - 1"
proof -
  obtain k where k: "1 \<le> k" "k < 64" "N = 2 ^ k" "m = mask k"
    using assms by (auto simp: is_capacity_def)
  show "2 \<le> N" using power_increasing [of 1 k "2 :: nat"] k by simp
  show "N < 2 ^ 64" unfolding k(3) using k(2) by (intro power_strict_increasing) simp_all
  show "unat m = N - 1" using k by (simp add: unat_mask)
qed

lemma masked_successor:
  assumes "is_capacity N m" "unat i < N"
  shows "unat ((i + 1) AND m) = Suc (unat i) mod N"
proof -
  obtain k where k: "1 \<le> k" "k < 64" "N = 2 ^ k" "m = mask k"
    using assms(1) by (auto simp: is_capacity_def)
  have "unat i + 1 < 2 ^ LENGTH(64)"
    using assms(2) is_capacityD(2) [OF assms(1)] by simp
  then have "unat (i + 1) = Suc (unat i)"
    by (simp add: unat_add_lem [THEN iffD1])
  moreover have "unat ((i + 1) AND m) = take_bit k (unat (i + 1))"
    unfolding k(4) take_bit_eq_mask [symmetric] by (rule unsigned_take_bit_eq)
  ultimately show ?thesis
    by (simp add: take_bit_eq_mod k(3))
qed

lemma masked_successor_less:
  assumes "is_capacity N m" "unat i < N"
  shows "unat ((i + 1) AND m) < N"
  using is_capacityD(1) [OF assms(1)] by (simp add: masked_successor [OF assms])

text \<open>The constructors' test \<open>(capacity & (capacity - 1)) == 0\<close>, for capacities of at least 2.\<close>

lemma nat_and_pred:
  fixes n :: nat
  assumes "0 < n"
  shows "n AND (n - 1) = 0 \<longleftrightarrow> (\<exists>k. n = 2 ^ k)"
  using assms
proof (induction n rule: less_induct)
  case (less n)
  show ?case
  proof (cases "even n")
    case True
    then obtain m where m: "n = 2 * m" "0 < m" using less.prems by (auto elim!: evenE)
    have "n AND (n - 1) = 2 * (m AND (m - 1))"
    proof -
      have "(n - 1) div 2 = m - 1" "odd (n - 1)" using m by auto
      then show ?thesis using m by (subst and_rec) simp
    qed
    moreover have "(\<exists>k. n = 2 ^ k) \<longleftrightarrow> (\<exists>k. m = 2 ^ k)"
    proof
      assume "\<exists>k. n = 2 ^ k"
      then obtain k where "n = 2 ^ k" by blast
      with True less.prems have "m = 2 ^ (k - 1)" using m by (cases k) auto
      then show "\<exists>k. m = 2 ^ k" by blast
    next
      assume "\<exists>k. m = 2 ^ k"
      then obtain k where "m = 2 ^ k" by blast
      then have "n = 2 ^ Suc k" using m by simp
      then show "\<exists>k. n = 2 ^ k" by blast
    qed
    ultimately show ?thesis using less.IH [of m] m by simp
  next
    case False
    then obtain m where m: "n = 2 * m + 1" by (auto elim!: oddE)
    have "n AND (n - 1) = 2 * m" unfolding m by (subst and_rec) simp
    moreover have "(\<exists>k. n = 2 ^ k) \<longleftrightarrow> m = 0"
    proof
      assume "\<exists>k. n = 2 ^ k"
      then obtain k where "n = 2 ^ k" by blast
      with False have "k = 0" by (cases k) auto
      with \<open>n = 2 ^ k\<close> m show "m = 0" by simp
    qed (auto simp: m intro: exI [of _ 0])
    ultimately show ?thesis by simp
  qed
qed

lemma pow2_test:
  fixes c :: u64
  assumes "2 \<le> c"
  shows "c AND (c - 1) = 0 \<longleftrightarrow> is_capacity (unat c) (c - 1)"
proof -
  have two: "2 \<le> unat c" using assms by (simp add: word_le_nat_alt)
  then have pred: "unat (c - 1) = unat c - 1" by (metis unat_minus_one unat_0 not_numeral_le_zero)
  have "c AND (c - 1) = 0 \<longleftrightarrow> unat c AND (unat c - 1) = 0"
    by (metis pred unsigned_and_eq unat_eq_zero)
  also have "\<dots> \<longleftrightarrow> (\<exists>k. unat c = 2 ^ k)"
    using two by (intro nat_and_pred) simp
  also have "\<dots> \<longleftrightarrow> is_capacity (unat c) (c - 1)"
  proof
    assume "\<exists>k. unat c = 2 ^ k"
    then obtain k where k: "unat c = 2 ^ k" by blast
    then have "1 \<le> k" using two by (cases k) auto
    moreover have "(2 :: nat) ^ k < 2 ^ 64" using unsigned_less [of c, where 'a = nat] k by simp
    then have "k < 64" by (rule power_less_imp_less_exp [rotated]) simp
    moreover have "c - 1 = mask k"
      using k pred \<open>k < 64\<close>
      by (simp add: word_unat_eq_iff unat_mask)
    ultimately show "is_capacity (unat c) (c - 1)" using k by (auto simp: is_capacity_def)
  qed (auto simp: is_capacity_def)
  finally show ?thesis .
qed

section \<open>What both constructors share\<close>

text \<open>The exceptions of the constructors, in the order of their checks.\<close>

datatype queue_error =
    Not_lock_free
  | Capacity_below_two
  | Capacity_not_power_of_two
  | Queue_memory shm_error

text \<open>\<open>CalculateBufferSize\<close> rounds header and slots up to whole cache lines.\<close>

definition rounded_size :: "u64 \<Rightarrow> u64 \<Rightarrow> u64 \<Rightarrow> u64" where
  "rounded_size cacheLineSize header capacity =
     (let cacheLineSize = (if cacheLineSize = 0 then 64 else cacheLineSize)
      in ((header + capacity * 4) div cacheLineSize + 1) * cacheLineSize)"

lemma rounded_size_fits:
  assumes "unat header + 4 * unat capacity + max 64 (unat line) < 2 ^ 64"
  shows "unat header + 4 * unat capacity < unat (rounded_size line header capacity)"
    "(if line = 0 then 64 else unat line) dvd unat (rounded_size line header capacity)"
proof -
  define l where "l = (if line = 0 then 64 else line)"
  have l: "unat l = (if line = 0 then 64 else unat line)" "0 < unat l" "unat l \<le> max 64 (unat line)"
    by (auto simp: l_def unat_gt_0)
  define n where "n = unat header + 4 * unat capacity"
  have n: "n + unat l < 2 ^ 64" using assms l(3) by (simp add: n_def)
  have cap4: "unat (capacity * 4) = 4 * unat capacity"
    using n by (simp add: unat_word_ariths n_def)
  have sum: "unat (header + capacity * 4) = n"
    using n unfolding n_def by (subst unat_add_lem [THEN iffD1]) (simp_all add: cap4)
  have le: "n div unat l * unat l + unat l \<le> n + unat l" by simp
  have d: "unat ((header + capacity * 4) div l) = n div unat l"
    by (simp add: unat_div sum)
  have "n div unat l \<le> n" by simp
  then have "n div unat l + 1 < 2 ^ 64" using n l(2) by linarith
  then have "unat ((header + capacity * 4) div l + 1) = n div unat l + 1"
    by (subst unat_add_lem [THEN iffD1]) (simp_all add: d)
  then have eq: "unat (rounded_size line header capacity) = (n div unat l + 1) * unat l"
  proof -
    assume u: "unat ((header + capacity * 4) div l + 1) = n div unat l + 1"
    have "(n div unat l + 1) * unat l < 2 ^ 64"
      unfolding add_mult_distrib mult_1 using le n by (rule le_less_trans)
    then have "unat (((header + capacity * 4) div l + 1) * l) = (n div unat l + 1) * unat l"
      unfolding u [symmetric] by (subst unat_mult_lem [THEN iffD1]) simp_all
    then show ?thesis by (simp add: rounded_size_def l_def [symmetric] Let_def)
  qed
  have "n < n div unat l * unat l + unat l"
    using l(2) by (metis add.commute div_mult_mod_eq mod_less_divisor nat_add_left_cancel_less)
  then show "unat header + 4 * unat capacity < unat (rounded_size line header capacity)"
    unfolding eq by (simp add: n_def)
  show "(if line = 0 then 64 else unat line) dvd unat (rounded_size line header capacity)"
    unfolding eq l(1) [symmetric] by simp
qed

section \<open>The sequential contract\<close>

text \<open>
  A client's call: \<open>Enqueue(x)\<close>, or \<open>Dequeue(v)\<close> where \<open>v\<close> is the value of the caller's variable,
  which the call overwrites only when it returns true.
\<close>

datatype 'a fifo_op = Enq 'a | Deq 'a

datatype 'a fifo_res = EnqRes bool | DeqRes bool 'a

fun fifo_run ::
  "('a \<Rightarrow> 'q \<Rightarrow> (bool \<times> 'q) option) \<Rightarrow> ('a \<Rightarrow> 'q \<Rightarrow> (bool \<times> 'a \<times> 'q) option) \<Rightarrow>
   'a fifo_op list \<Rightarrow> 'q \<Rightarrow> ('a fifo_res list \<times> 'q) option" where
  "fifo_run enq deq [] q = Some ([], q)"
| "fifo_run enq deq (Enq x # ops) q =
     (case enq x q of None \<Rightarrow> None
      | Some (b, q') \<Rightarrow> map_option (\<lambda>(rs, q''). (EnqRes b # rs, q'')) (fifo_run enq deq ops q'))"
| "fifo_run enq deq (Deq v # ops) q =
     (case deq v q of None \<Rightarrow> None
      | Some (b, x, q') \<Rightarrow> map_option (\<lambda>(rs, q''). (DeqRes b x # rs, q'')) (fifo_run enq deq ops q'))"

text \<open>The abstract queue: a list of at most \<open>cap\<close> elements.\<close>

fun spec_run :: "nat \<Rightarrow> 'a fifo_op list \<Rightarrow> 'a list \<Rightarrow> 'a fifo_res list \<times> 'a list" where
  "spec_run cap [] xs = ([], xs)"
| "spec_run cap (Enq x # ops) xs =
     (if length xs < cap
      then (case spec_run cap ops (xs @ [x]) of (rs, ys) \<Rightarrow> (EnqRes True # rs, ys))
      else (case spec_run cap ops xs of (rs, ys) \<Rightarrow> (EnqRes False # rs, ys)))"
| "spec_run cap (Deq v # ops) [] = (case spec_run cap ops [] of (rs, ys) \<Rightarrow> (DeqRes False v # rs, ys))"
| "spec_run cap (Deq v # ops) (x # xs) =
     (case spec_run cap ops xs of (rs, ys) \<Rightarrow> (DeqRes True x # rs, ys))"

lemma spec_run_append:
  "spec_run cap (ops @ ops') xs =
     (case spec_run cap ops xs of (rs, ys) \<Rightarrow>
        (case spec_run cap ops' ys of (rs', zs) \<Rightarrow> (rs @ rs', zs)))"
  by (induction cap ops xs rule: spec_run.induct) (auto split: prod.splits)

lemma spec_fill:
  "length ys + length xs \<le> cap \<Longrightarrow>
   spec_run cap (map Enq xs) ys = (replicate (length xs) (EnqRes True), ys @ xs)"
  by (induction xs arbitrary: ys) auto

lemma spec_drain:
  "length vs = length xs \<Longrightarrow> spec_run cap (map Deq vs) (xs @ ys) = (map (DeqRes True) xs, ys)"
  by (induction vs xs rule: list_induct2) auto

locale bounded_fifo =
  fixes enq :: "'a \<Rightarrow> 'q \<Rightarrow> (bool \<times> 'q) option"
    and deq :: "'a \<Rightarrow> 'q \<Rightarrow> (bool \<times> 'a \<times> 'q) option"
    and elems :: "'q \<Rightarrow> 'a list"
    and ok :: "'q \<Rightarrow> bool"
    and cap :: nat
  assumes enq_room: "ok q \<Longrightarrow> length (elems q) < cap \<Longrightarrow>
      \<exists>q'. enq x q = Some (True, q') \<and> ok q' \<and> elems q' = elems q @ [x]"
    and enq_full: "ok q \<Longrightarrow> length (elems q) = cap \<Longrightarrow> enq x q = Some (False, q)"
    and deq_empty: "ok q \<Longrightarrow> elems q = [] \<Longrightarrow> deq v q = Some (False, v, q)"
    and deq_next: "ok q \<Longrightarrow> elems q = y # ys \<Longrightarrow>
      \<exists>q'. deq v q = Some (True, y, q') \<and> ok q' \<and> elems q' = ys"
    and elems_bound: "ok q \<Longrightarrow> length (elems q) \<le> cap"
begin

text \<open>Any sequence of calls is defined and answers as the abstract queue does.\<close>

lemma run_refines:
  "ok q \<Longrightarrow> \<exists>q'. fifo_run enq deq ops q = Some (fst (spec_run cap ops (elems q)), q') \<and>
     ok q' \<and> elems q' = snd (spec_run cap ops (elems q))"
proof (induction ops arbitrary: q)
  case Nil
  then show ?case by simp
next
  case (Cons c ops)
  show ?case
  proof (cases c)
    case (Enq x)
    show ?thesis
    proof (cases "length (elems q) < cap")
      case True
      with enq_room Cons.prems obtain q' where "enq x q = Some (True, q')" "ok q'" "elems q' = elems q @ [x]"
        by blast
      with Cons.IH [of q'] True Enq show ?thesis by (auto split: prod.splits)
    next
      case False
      then have "length (elems q) = cap" using elems_bound [OF Cons.prems] by simp
      with enq_full Cons.prems have "enq x q = Some (False, q)" by blast
      with Cons.IH [OF Cons.prems] False Enq show ?thesis by (auto split: prod.splits)
    qed
  next
    case (Deq v)
    show ?thesis
    proof (cases "elems q")
      case Nil
      with deq_empty Cons.prems have "deq v q = Some (False, v, q)" by blast
      with Cons.IH [OF Cons.prems] Nil Deq show ?thesis by (auto split: prod.splits)
    next
      case (Cons y ys)
      with deq_next \<open>ok q\<close> obtain q' where "deq v q = Some (True, y, q')" "ok q'" "elems q' = ys"
        by blast
      with Cons.IH [of q'] Cons Deq show ?thesis by (auto split: prod.splits)
    qed
  qed
qed

text \<open>Filling an empty queue and draining it returns the items in order, as the unit tests do.\<close>

lemma fill_then_drain:
  assumes "ok q" "elems q = []" "length xs \<le> cap" "length vs = length xs"
  shows "\<exists>q'. fifo_run enq deq (map Enq xs @ map Deq vs) q =
      Some (replicate (length xs) (EnqRes True) @ map (DeqRes True) xs, q') \<and> ok q' \<and> elems q' = []"
proof -
  have "spec_run cap (map Enq xs @ map Deq vs) [] =
      (replicate (length xs) (EnqRes True) @ map (DeqRes True) xs, [])"
    using spec_fill [of "[]" xs cap] spec_drain [OF assms(4), of cap "[]"] assms(3)
    by (simp add: spec_run_append)
  with run_refines [OF assms(1), of "map Enq xs @ map Deq vs"] assms(2) show ?thesis by simp
qed

end

section \<open>The concurrent contract\<close>

text \<open>
  A channel is a transition system over the atomic accesses of one producer and one consumer, with
  the history of the items whose \<open>Enqueue\<close> has taken effect and of those a \<open>Dequeue\<close> has taken out.
\<close>

locale fifo_channel =
  fixes start :: "'s \<Rightarrow> bool"
    and step :: "'s \<Rightarrow> 's \<Rightarrow> bool"
    and sent :: "'s \<Rightarrow> 'a list"
    and received :: "'s \<Rightarrow> 'a list"
    and queued :: "'s \<Rightarrow> 'a list"
    and inv :: "'s \<Rightarrow> bool"
    and cap :: nat
  assumes start_inv: "start s \<Longrightarrow> inv s"
    and step_inv: "inv s \<Longrightarrow> step s t \<Longrightarrow> inv t"
    and balance: "inv s \<Longrightarrow> sent s = received s @ queued s"
    and bound: "inv s \<Longrightarrow> length (queued s) \<le> cap"
    and sent_grows: "inv s \<Longrightarrow> step s t \<Longrightarrow> prefix (sent s) (sent t)"
    and received_grows: "inv s \<Longrightarrow> step s t \<Longrightarrow> prefix (received s) (received t)"
begin

lemma reach_inv: "step\<^sup>*\<^sup>* s t \<Longrightarrow> inv s \<Longrightarrow> inv t"
  by (induction rule: rtranclp_induct) (auto intro: step_inv)

lemma fifo_order:
  assumes "start s" "step\<^sup>*\<^sup>* s t"
  shows "sent t = received t @ queued t" "length (queued t) \<le> cap"
  using reach_inv [OF assms(2) start_inv [OF assms(1)]] by (simp_all add: balance bound)

lemma history_grows:
  assumes "step\<^sup>*\<^sup>* s t" "inv s"
  shows "prefix (sent s) (sent t) \<and> prefix (received s) (received t)"
  using assms
proof (induction rule: rtranclp_induct)
  case base
  then show ?case by simp
next
  case (step u v)
  have "inv u" by (rule reach_inv [OF step.hyps(1) step.prems])
  with step show ?case
    by (blast intro: prefix_order.trans sent_grows received_grows)
qed

end

end
