(* ===== verification/Spsc_RingBuffer.thy ===== *)
theory Spsc_RingBuffer
  imports Fifo_Spec
begin

text \<open>
  \<open>lib/spsc-queue/SpscQueueRingBuffer\<close>: the shared \<open>QueueData\<close> (two indices and the slots), the
  sequential \<open>Enqueue\<close> and \<open>Dequeue\<close>, and the two operations cut into their single atomic accesses
  of the shared data, so that one producer and one consumer interleave at every access. The slots
  are the \<open>m_Capacity\<close> elements behind the header; an access beyond them is \<open>None\<close>.
\<close>

section \<open>Shared data and sequential operations\<close>

record ring_data =
  rb_head :: u64
  rb_tail :: u64
  rb_buffer :: "u32 list"

text \<open>The producer's constructor clears the segment and puts both indices at 0.\<close>

definition rb_initial :: "u64 \<Rightarrow> ring_data" where
  "rb_initial capacity = \<lparr>rb_head = 0, rb_tail = 0, rb_buffer = replicate (unat capacity) 0\<rparr>"

definition rb_Enqueue :: "u64 \<Rightarrow> u32 \<Rightarrow> ring_data \<Rightarrow> (bool \<times> ring_data) option" where
  "rb_Enqueue capacityMinusOne item q =
     (let head = rb_head q;
          nextHead = (head + 1) AND capacityMinusOne
      in if nextHead = rb_tail q then Some (False, q)
         else (case arr_write (rb_buffer q) (unat head) item of
                 None \<Rightarrow> None
               | Some buffer \<Rightarrow> Some (True, q\<lparr>rb_buffer := buffer, rb_head := nextHead\<rparr>)))"

definition rb_Dequeue :: "u64 \<Rightarrow> u32 \<Rightarrow> ring_data \<Rightarrow> (bool \<times> u32 \<times> ring_data) option" where
  "rb_Dequeue capacityMinusOne item q =
     (let tail = rb_tail q
      in if tail = rb_head q then Some (False, item, q)
         else (case arr_read (rb_buffer q) (unat tail) of
                 None \<Rightarrow> None
               | Some x \<Rightarrow> Some (True, x, q\<lparr>rb_tail := (tail + 1) AND capacityMinusOne\<rparr>)))"

definition rb_GetRealCapacity :: "u64 \<Rightarrow> u64" where
  "rb_GetRealCapacity capacityMinusOne = capacityMinusOne"

definition rb_elems :: "ring_data \<Rightarrow> u32 list" where
  "rb_elems q = ring_list (rb_buffer q) (unat (rb_tail q)) (unat (rb_head q))"

definition rb_ok :: "u64 \<Rightarrow> ring_data \<Rightarrow> bool" where
  "rb_ok m q \<longleftrightarrow> is_capacity (length (rb_buffer q)) m \<and>
     unat (rb_head q) < length (rb_buffer q) \<and> unat (rb_tail q) < length (rb_buffer q)"

lemmas rb_defs = rb_elems_def rb_ok_def

lemma rb_full_iff:
  assumes "rb_ok m q"
  shows "(rb_head q + 1) AND m = rb_tail q \<longleftrightarrow> length (rb_elems q) = unat m"
  using assms is_capacityD(3) [of "length (rb_buffer q)" m]
  by (auto simp: rb_defs word_unat_eq_iff masked_successor ring_full_iff)

lemma rb_empty_iff: "rb_ok m q \<Longrightarrow> rb_tail q = rb_head q \<longleftrightarrow> rb_elems q = []"
  by (auto simp: rb_defs ring_list_Nil_iff word_unat_eq_iff)

lemma rb_elems_bound: "rb_ok m q \<Longrightarrow> length (rb_elems q) \<le> unat m"
proof -
  assume ok: "rb_ok m q"
  then have "2 \<le> length (rb_buffer q)" "unat m = length (rb_buffer q) - 1"
    using is_capacityD(1,3) by (auto simp: rb_ok_def)
  moreover from this have "ring_count (length (rb_buffer q)) (unat (rb_tail q)) (unat (rb_head q)) < length (rb_buffer q)"
    by (intro ring_count_less) linarith
  ultimately show ?thesis by (simp add: rb_elems_def)
qed

lemma rb_push:
  fixes x :: u32
  assumes "rb_ok m q" "(rb_head q + 1) AND m \<noteq> rb_tail q"
  defines "q' \<equiv> q\<lparr>rb_buffer := (rb_buffer q)[unat (rb_head q) := x], rb_head := (rb_head q + 1) AND m\<rparr>"
  shows "rb_ok m q'" "rb_elems q' = rb_elems q @ [x]"
proof -
  show "rb_ok m q'"
    using assms by (simp add: rb_ok_def masked_successor_less)
  have "Suc (unat (rb_head q)) mod length (rb_buffer q) \<noteq> unat (rb_tail q)"
    using assms by (auto simp: rb_ok_def word_unat_eq_iff masked_successor)
  then show "rb_elems q' = rb_elems q @ [x]"
    using assms by (simp add: rb_defs masked_successor [of "length (rb_buffer q)"] ring_list_push)
qed

lemma rb_pop:
  assumes "rb_ok m q" "rb_tail q \<noteq> rb_head q"
  defines "q' \<equiv> q\<lparr>rb_tail := (rb_tail q + 1) AND m\<rparr>"
  shows "rb_ok m q'" "rb_elems q = rb_buffer q ! unat (rb_tail q) # rb_elems q'"
proof -
  show "rb_ok m q'"
    using assms by (simp add: rb_ok_def masked_successor_less)
  show "rb_elems q = rb_buffer q ! unat (rb_tail q) # rb_elems q'"
    using assms ring_list_pop [of "unat (rb_tail q)" "rb_buffer q" "unat (rb_head q)"]
    by (simp add: rb_defs masked_successor [of "length (rb_buffer q)"] word_unat_eq_iff)
qed

lemma rb_Enqueue_room:
  assumes "rb_ok m q" "length (rb_elems q) < unat m"
  shows "\<exists>q'. rb_Enqueue m x q = Some (True, q') \<and> rb_ok m q' \<and> rb_elems q' = rb_elems q @ [x]"
proof -
  have room: "(rb_head q + 1) AND m \<noteq> rb_tail q"
    using assms by (simp add: rb_full_iff)
  then show ?thesis
    using rb_push [OF assms(1) room, of x] assms(1)
    by (simp add: rb_Enqueue_def Let_def mem_simps rb_ok_def)
qed

lemma rb_Dequeue_next:
  assumes "rb_ok m q" "rb_elems q = y # ys"
  shows "\<exists>q'. rb_Dequeue m v q = Some (True, y, q') \<and> rb_ok m q' \<and> rb_elems q' = ys"
proof -
  have ne: "rb_tail q \<noteq> rb_head q"
    using assms by (simp add: rb_empty_iff)
  then show ?thesis
    using rb_pop [OF assms(1) ne] assms
    by (simp add: rb_Dequeue_def Let_def mem_simps rb_ok_def)
qed

interpretation rb: bounded_fifo "rb_Enqueue m" "rb_Dequeue m" rb_elems "rb_ok m" "unat m"
  for m :: u64
proof unfold_locales
  show "rb_Enqueue m x q = Some (False, q)" if "rb_ok m q" "length (rb_elems q) = unat m" for q x
    using that by (simp add: rb_Enqueue_def Let_def rb_full_iff)
  show "rb_Dequeue m v q = Some (False, v, q)" if "rb_ok m q" "rb_elems q = []" for q v
    using that by (simp add: rb_Dequeue_def rb_empty_iff)
qed (fact rb_Enqueue_room rb_Dequeue_next rb_elems_bound)+

lemma rb_initial_ok: "is_capacity (unat capacity) m \<Longrightarrow> rb_ok m (rb_initial capacity) \<and> rb_elems (rb_initial capacity) = []"
  using is_capacityD(1) [of "unat capacity" m]
  by (auto simp: rb_defs rb_initial_def ring_list_Nil_iff)

section \<open>Construction\<close>

datatype rb_role = RB_Producer | RB_Consumer

record rb_handle =
  rb_OwnerPid :: u32
  rb_Role :: rb_role
  rb_Capacity :: u64
  rb_CapacityMinusOne :: u64
  rb_SharedMemory :: SharedMemory

definition rb_CreateShmObjectName :: "u32 \<Rightarrow> string \<Rightarrow> string" where
  "rb_CreateShmObjectName ownerPid nameSuffix =
     ''spsc_queue_buffer_uid{'' @ dec (unat ownerPid) @ ''}'' @ nameSuffix"

text \<open>\<open>sizeof(QueueData)\<close> is 128: two indices on a cache line of 64 bytes each.\<close>

definition rb_CalculateBufferSize :: "u64 \<Rightarrow> u64 \<Rightarrow> u64" where
  "rb_CalculateBufferSize cacheLineSize capacity = rounded_size cacheLineSize 128 capacity"

text \<open>
  The constructor: \<open>lockFree\<close> is \<open>std::atomic<size_t>::is_always_lock_free\<close>. Next to the handle it
  returns the queue data it has initialised, which a consumer does not touch.
\<close>

definition rb_ctor ::
  "'k posix \<Rightarrow> file_system \<Rightarrow> bool \<Rightarrow> u32 \<Rightarrow> rb_role \<Rightarrow> u64 \<Rightarrow> string \<Rightarrow> 'k \<Rightarrow>
   (queue_error + rb_handle \<times> ring_data option) \<times> 'k" where
  "rb_ctor P fs lockFree ownerPid role capacity nameSuffix k =
     (if \<not> lockFree then (Inl Not_lock_free, k)
      else if capacity < 2 then (Inl Capacity_below_two, k)
      else if capacity AND (capacity - 1) \<noteq> 0 then (Inl Capacity_not_power_of_two, k)
      else
        (case SharedMemory_ctor P (rb_CalculateBufferSize (GetCacheLineSize fs) capacity)
                (rb_CreateShmObjectName ownerPid nameSuffix)
                (if role = RB_Producer then Owner else Borrower)
                (if role = RB_Producer then Init_Zero else Init_NoInit) k of
           (Inl e, k') \<Rightarrow> (Inl (Queue_memory e), k')
         | (Inr sm, k') \<Rightarrow>
             (Inr (\<lparr>rb_OwnerPid = ownerPid, rb_Role = role, rb_Capacity = capacity,
                    rb_CapacityMinusOne = capacity - 1, rb_SharedMemory = sm\<rparr>,
                   if role = RB_Producer then Some (rb_initial capacity) else None), k')))"

lemma rb_ctor_capacity:
  assumes "rb_ctor P fs lockFree ownerPid role capacity nameSuffix k = (Inr (h, d), k')"
  shows "is_capacity (unat capacity) (rb_CapacityMinusOne h)"
  using assms pow2_test [of capacity]
  by (auto simp: rb_ctor_def not_less split: if_splits prod.splits sum.splits)

section \<open>One producer and one consumer\<close>

text \<open>
  Program counters. The producer is between calls, has loaded \<open>head\<close>, has seen that the next slot
  is free, or has filled the slot. The consumer is between calls, has loaded \<open>tail\<close>, has seen that
  the queue is not empty, or has read the item.
\<close>

datatype rb_producer =
    RP_Idle
  | RP_Loaded u32 u64
  | RP_Checked u32 u64 u64
  | RP_Written u32 u64

datatype rb_consumer =
    RC_Idle
  | RC_Loaded u64
  | RC_Checked u64
  | RC_Read u64 u32

record rb_sys =
  rbs_data :: ring_data
  rbs_prod :: rb_producer
  rbs_cons :: rb_consumer
  rbs_sent :: "u32 list"
  rbs_received :: "u32 list"

text \<open>
  One rule per atomic access: the two loads, the slot write and the store of \<open>head\<close> of \<open>Enqueue\<close>,
  and the two loads, the slot read and the store of \<open>tail\<close> of \<open>Dequeue\<close>. An \<open>Enqueue\<close> takes effect
  (its item joins \<open>rbs_sent\<close>) with the store of \<open>head\<close>, a \<open>Dequeue\<close> with the store of \<open>tail\<close>.
\<close>

inductive rb_step :: "u64 \<Rightarrow> rb_sys \<Rightarrow> rb_sys \<Rightarrow> bool" for m :: u64 where
  enq_load_head: "rbs_prod s = RP_Idle \<Longrightarrow>
     rb_step m s (s\<lparr>rbs_prod := RP_Loaded x (rb_head (rbs_data s))\<rparr>)"
| enq_full: "rbs_prod s = RP_Loaded x h \<Longrightarrow> (h + 1) AND m = rb_tail (rbs_data s) \<Longrightarrow>
     rb_step m s (s\<lparr>rbs_prod := RP_Idle\<rparr>)"
| enq_room: "rbs_prod s = RP_Loaded x h \<Longrightarrow> (h + 1) AND m \<noteq> rb_tail (rbs_data s) \<Longrightarrow>
     rb_step m s (s\<lparr>rbs_prod := RP_Checked x h ((h + 1) AND m)\<rparr>)"
| enq_write: "rbs_prod s = RP_Checked x h nh \<Longrightarrow> arr_write (rb_buffer (rbs_data s)) (unat h) x = Some b \<Longrightarrow>
     rb_step m s (s\<lparr>rbs_prod := RP_Written x nh, rbs_data := (rbs_data s)\<lparr>rb_buffer := b\<rparr>\<rparr>)"
| enq_store_head: "rbs_prod s = RP_Written x nh \<Longrightarrow>
     rb_step m s (s\<lparr>rbs_prod := RP_Idle, rbs_data := (rbs_data s)\<lparr>rb_head := nh\<rparr>,
                   rbs_sent := rbs_sent s @ [x]\<rparr>)"
| deq_load_tail: "rbs_cons s = RC_Idle \<Longrightarrow>
     rb_step m s (s\<lparr>rbs_cons := RC_Loaded (rb_tail (rbs_data s))\<rparr>)"
| deq_empty: "rbs_cons s = RC_Loaded t \<Longrightarrow> t = rb_head (rbs_data s) \<Longrightarrow>
     rb_step m s (s\<lparr>rbs_cons := RC_Idle\<rparr>)"
| deq_some: "rbs_cons s = RC_Loaded t \<Longrightarrow> t \<noteq> rb_head (rbs_data s) \<Longrightarrow>
     rb_step m s (s\<lparr>rbs_cons := RC_Checked t\<rparr>)"
| deq_read: "rbs_cons s = RC_Checked t \<Longrightarrow> arr_read (rb_buffer (rbs_data s)) (unat t) = Some x \<Longrightarrow>
     rb_step m s (s\<lparr>rbs_cons := RC_Read t x\<rparr>)"
| deq_store_tail: "rbs_cons s = RC_Read t x \<Longrightarrow>
     rb_step m s (s\<lparr>rbs_cons := RC_Idle, rbs_data := (rbs_data s)\<lparr>rb_tail := (t + 1) AND m\<rparr>,
                   rbs_received := rbs_received s @ [x]\<rparr>)"

inductive_cases rb_stepE: "rb_step m s t"

definition rb_start :: "u64 \<Rightarrow> rb_sys \<Rightarrow> bool" where
  "rb_start capacity s \<longleftrightarrow> s = \<lparr>rbs_data = rb_initial capacity, rbs_prod = RP_Idle, rbs_cons = RC_Idle,
     rbs_sent = [], rbs_received = []\<rparr>"

text \<open>What each side knows about the shared data at each point of its operation.\<close>

fun rb_prod_ok :: "u64 \<Rightarrow> ring_data \<Rightarrow> rb_producer \<Rightarrow> bool" where
  "rb_prod_ok m q RP_Idle = True"
| "rb_prod_ok m q (RP_Loaded x h) = (h = rb_head q)"
| "rb_prod_ok m q (RP_Checked x h nh) = (h = rb_head q \<and> nh = (h + 1) AND m \<and> nh \<noteq> rb_tail q)"
| "rb_prod_ok m q (RP_Written x nh) =
     (nh = (rb_head q + 1) AND m \<and> nh \<noteq> rb_tail q \<and> rb_buffer q ! unat (rb_head q) = x)"

fun rb_cons_ok :: "ring_data \<Rightarrow> rb_consumer \<Rightarrow> bool" where
  "rb_cons_ok q RC_Idle = True"
| "rb_cons_ok q (RC_Loaded t) = (t = rb_tail q)"
| "rb_cons_ok q (RC_Checked t) = (t = rb_tail q \<and> t \<noteq> rb_head q)"
| "rb_cons_ok q (RC_Read t x) = (t = rb_tail q \<and> t \<noteq> rb_head q \<and> rb_buffer q ! unat t = x)"

definition rb_inv :: "u64 \<Rightarrow> rb_sys \<Rightarrow> bool" where
  "rb_inv m s \<longleftrightarrow> rb_ok m (rbs_data s) \<and> rb_prod_ok m (rbs_data s) (rbs_prod s) \<and>
     rb_cons_ok (rbs_data s) (rbs_cons s) \<and> rbs_sent s = rbs_received s @ rb_elems (rbs_data s)"

lemma rb_start_inv:
  assumes "is_capacity (unat capacity) m" "rb_start capacity s"
  shows "rb_inv m s"
  using assms rb_initial_ok [OF assms(1)] by (simp add: rb_start_def rb_inv_def)

lemma rb_write_free_slot:
  assumes "rb_ok m q"
  shows "rb_elems (q\<lparr>rb_buffer := (rb_buffer q)[unat (rb_head q) := x]\<rparr>) = rb_elems q"
    "rb_ok m (q\<lparr>rb_buffer := (rb_buffer q)[unat (rb_head q) := x]\<rparr>)"
  using assms by (simp_all add: rb_defs ring_list_write_head)

lemma rb_publish:
  assumes "rb_ok m q" "(rb_head q + 1) AND m \<noteq> rb_tail q"
  shows "rb_ok m (q\<lparr>rb_head := (rb_head q + 1) AND m\<rparr>)"
    "rb_elems (q\<lparr>rb_head := (rb_head q + 1) AND m\<rparr>) = rb_elems q @ [rb_buffer q ! unat (rb_head q)]"
  using rb_push [OF assms, of "rb_buffer q ! unat (rb_head q)"] by simp_all

text \<open>Popping one element never makes the queue full: the consumer's store keeps the producer's view.\<close>

lemma rb_pop_not_full:
  assumes "rb_ok m q" "rb_tail q \<noteq> rb_head q"
  shows "(rb_head q + 1) AND m \<noteq> (rb_tail q + 1) AND m"
proof
  assume "(rb_head q + 1) AND m = (rb_tail q + 1) AND m"
  then have "length (rb_elems (q\<lparr>rb_tail := (rb_tail q + 1) AND m\<rparr>)) = unat m"
    using rb_full_iff [OF rb_pop(1) [OF assms]] by simp
  then show False
    using rb_pop(2) [OF assms] rb_elems_bound [OF assms(1)] by simp
qed

text \<open>Publishing one element never makes the queue empty.\<close>

lemma rb_publish_not_empty:
  assumes "rb_ok m q" "(rb_head q + 1) AND m \<noteq> rb_tail q"
  shows "rb_tail q \<noteq> (rb_head q + 1) AND m"
  using assms(2) by simp

lemma rb_step_inv [inv_steps]:
  assumes "rb_inv m s" "rb_step m s t"
  shows "rb_inv m t"
  using assms(2)
proof cases
  case (enq_write x h nh b)
  have ok: "rb_ok m (rbs_data s)" "rb_prod_ok m (rbs_data s) (RP_Checked x h nh)"
    "rb_cons_ok (rbs_data s) (rbs_cons s)"
    using assms(1) enq_write(2) by (auto simp: rb_inv_def)
  then have b: "b = (rb_buffer (rbs_data s))[unat (rb_head (rbs_data s)) := x]"
    "unat (rb_head (rbs_data s)) < length (rb_buffer (rbs_data s))"
    using enq_write(3) by (simp_all add: arr_write_Some_iff)
  have "rb_cons_ok ((rbs_data s)\<lparr>rb_buffer := b\<rparr>) (rbs_cons s)"
    using ok(3) b by (cases "rbs_cons s") (auto simp: word_unat_eq_iff nth_list_update)
  then show ?thesis
    using assms(1) enq_write(1) ok b rb_write_free_slot [OF ok(1), of x]
    by (auto simp: rb_inv_def)
next
  case (enq_store_head x nh)
  have ok: "rb_ok m (rbs_data s)" "rb_prod_ok m (rbs_data s) (RP_Written x nh)"
    "rb_cons_ok (rbs_data s) (rbs_cons s)"
    using assms(1) enq_store_head(2) by (auto simp: rb_inv_def)
  have "rb_cons_ok ((rbs_data s)\<lparr>rb_head := nh\<rparr>) (rbs_cons s)"
    using ok(2,3) by (cases "rbs_cons s") auto
  moreover have nf: "(rb_head (rbs_data s) + 1) AND m \<noteq> rb_tail (rbs_data s)"
    using ok(2) by auto
  ultimately show ?thesis
    using assms(1) enq_store_head(1) ok(1,2) rb_publish [OF ok(1) nf] by (simp add: rb_inv_def)
next
  case (deq_store_tail t' x)
  have ok: "rb_ok m (rbs_data s)" "rb_prod_ok m (rbs_data s) (rbs_prod s)"
    "rb_cons_ok (rbs_data s) (RC_Read t' x)"
    using assms(1) deq_store_tail(2) by (auto simp: rb_inv_def)
  have ne: "rb_tail (rbs_data s) \<noteq> rb_head (rbs_data s)" using ok(3) by auto
  have "rb_prod_ok m ((rbs_data s)\<lparr>rb_tail := (t' + 1) AND m\<rparr>) (rbs_prod s)"
    using ok(2,3) rb_pop_not_full [OF ok(1) ne] by (cases "rbs_prod s") auto
  then show ?thesis
    using assms(1) deq_store_tail(1) ok rb_pop [OF ok(1) ne] by (auto simp: rb_inv_def)
qed (use assms(1) in \<open>auto simp: rb_inv_def arr_read_Some_iff\<close>)

lemma rb_histories_grow:
  assumes "rb_step m s t"
  shows "prefix (rbs_sent s) (rbs_sent t)" "prefix (rbs_received s) (rbs_received t)"
  using assms by (cases, simp_all)+

interpretation rbc: fifo_channel
  "\<lambda>s. \<exists>capacity. is_capacity (unat capacity) m \<and> rb_start capacity s" "rb_step m"
  rbs_sent rbs_received "\<lambda>s. rb_elems (rbs_data s)" "rb_inv m" "unat m"
  for m :: u64
proof unfold_locales
  show "rb_inv m s" if "\<exists>capacity. is_capacity (unat capacity) m \<and> rb_start capacity s" for s
    using that rb_start_inv by blast
  show "rbs_sent s = rbs_received s @ rb_elems (rbs_data s)" if "rb_inv m s" for s
    using that by (simp add: rb_inv_def)
  show "length (rb_elems (rbs_data s)) \<le> unat m" if "rb_inv m s" for s
    using that by (simp add: rb_inv_def rb_elems_bound)
qed (blast intro: rb_step_inv rb_histories_grow)+

section \<open>The interleaved operations are the sequential ones\<close>

lemma two_steps: "r s t \<Longrightarrow> r t u \<Longrightarrow> r\<^sup>*\<^sup>* s u"
  by (meson converse_rtranclp_into_rtranclp r_into_rtranclp)

lemma rb_enqueue_alone:
  assumes "rbs_prod s = RP_Idle" "rb_Enqueue m x (rbs_data s) = Some (b, q')"
  shows "(rb_step m)\<^sup>*\<^sup>* s (s\<lparr>rbs_data := q', rbs_sent := rbs_sent s @ (if b then [x] else [])\<rparr>)"
proof -
  let ?h = "rb_head (rbs_data s)"
  let ?s1 = "s\<lparr>rbs_prod := RP_Loaded x ?h\<rparr>"
  have s1: "rb_step m s ?s1" using assms(1) by (rule enq_load_head)
  show ?thesis
  proof (cases "(?h + 1) AND m = rb_tail (rbs_data s)")
    case True
    then have res: "b = False" "q' = rbs_data s"
      using assms(2) by (simp_all add: rb_Enqueue_def Let_def)
    have "rb_step m ?s1 (?s1\<lparr>rbs_prod := RP_Idle\<rparr>)" using True by (intro enq_full) simp_all
    moreover have "?s1\<lparr>rbs_prod := RP_Idle\<rparr> = s\<lparr>rbs_data := q', rbs_sent := rbs_sent s @ (if b then [x] else [])\<rparr>"
      using assms(1) res by simp
    ultimately show ?thesis using two_steps [of "rb_step m", OF s1] by simp
  next
    case False
    let ?nh = "(?h + 1) AND m"
    obtain buf where buf: "arr_write (rb_buffer (rbs_data s)) (unat ?h) x = Some buf"
      using assms(2) False by (auto simp: rb_Enqueue_def Let_def split: option.splits)
    have res: "b" "q' = (rbs_data s)\<lparr>rb_buffer := buf, rb_head := ?nh\<rparr>"
      using assms(2) False buf by (simp_all add: rb_Enqueue_def Let_def)
    let ?s2 = "?s1\<lparr>rbs_prod := RP_Checked x ?h ?nh\<rparr>"
    let ?s3 = "?s2\<lparr>rbs_prod := RP_Written x ?nh, rbs_data := (rbs_data ?s2)\<lparr>rb_buffer := buf\<rparr>\<rparr>"
    let ?s4 = "?s3\<lparr>rbs_prod := RP_Idle, rbs_data := (rbs_data ?s3)\<lparr>rb_head := ?nh\<rparr>,
                 rbs_sent := rbs_sent ?s3 @ [x]\<rparr>"
    have "rb_step m ?s1 ?s2" using False by (intro enq_room) simp_all
    moreover have "rb_step m ?s2 ?s3" using buf by (intro enq_write [of _ x ?h ?nh]) simp_all
    moreover have "rb_step m ?s3 ?s4" by (rule enq_store_head) simp
    ultimately have "(rb_step m)\<^sup>*\<^sup>* s ?s4"
      using s1 by (meson rtranclp.rtrancl_into_rtrancl two_steps)
    moreover have "?s4 = s\<lparr>rbs_data := q', rbs_sent := rbs_sent s @ (if b then [x] else [])\<rparr>"
      using assms(1) res by simp
    ultimately show ?thesis by simp
  qed
qed

lemma rb_dequeue_alone:
  assumes "rbs_cons s = RC_Idle" "rb_Dequeue m v (rbs_data s) = Some (b, x, q')"
  shows "(rb_step m)\<^sup>*\<^sup>* s (s\<lparr>rbs_data := q', rbs_received := rbs_received s @ (if b then [x] else [])\<rparr>)"
proof -
  let ?t = "rb_tail (rbs_data s)"
  let ?s1 = "s\<lparr>rbs_cons := RC_Loaded ?t\<rparr>"
  have s1: "rb_step m s ?s1" using assms(1) by (rule deq_load_tail)
  show ?thesis
  proof (cases "?t = rb_head (rbs_data s)")
    case True
    then have res: "b = False" "q' = rbs_data s"
      using assms(2) by (simp_all add: rb_Dequeue_def Let_def)
    have "rb_step m ?s1 (?s1\<lparr>rbs_cons := RC_Idle\<rparr>)" using True by (intro deq_empty) simp_all
    moreover have "?s1\<lparr>rbs_cons := RC_Idle\<rparr> = s\<lparr>rbs_data := q', rbs_received := rbs_received s @ (if b then [x] else [])\<rparr>"
      using assms(1) res by simp
    ultimately show ?thesis using two_steps [of "rb_step m", OF s1] by simp
  next
    case False
    have rd: "arr_read (rb_buffer (rbs_data s)) (unat ?t) = Some x"
      and res: "b" "q' = (rbs_data s)\<lparr>rb_tail := (?t + 1) AND m\<rparr>"
      using assms(2) False by (auto simp: rb_Dequeue_def Let_def split: option.splits)
    let ?s2 = "?s1\<lparr>rbs_cons := RC_Checked ?t\<rparr>"
    let ?s3 = "?s2\<lparr>rbs_cons := RC_Read ?t x\<rparr>"
    let ?s4 = "?s3\<lparr>rbs_cons := RC_Idle, rbs_data := (rbs_data ?s3)\<lparr>rb_tail := (?t + 1) AND m\<rparr>,
                 rbs_received := rbs_received ?s3 @ [x]\<rparr>"
    have "rb_step m ?s1 ?s2" using False by (intro deq_some) simp_all
    moreover have "rb_step m ?s2 ?s3" using rd by (intro deq_read) simp_all
    moreover have "rb_step m ?s3 ?s4" by (rule deq_store_tail) simp
    ultimately have "(rb_step m)\<^sup>*\<^sup>* s ?s4"
      using s1 by (meson rtranclp.rtrancl_into_rtrancl two_steps)
    moreover have "?s4 = s\<lparr>rbs_data := q', rbs_received := rbs_received s @ (if b then [x] else [])\<rparr>"
      using assms(1) res by simp
    ultimately show ?thesis by simp
  qed
qed

text \<open>The invariant bounds the two slot accesses and keeps them apart.\<close>

lemma rb_inv_accesses:
  assumes "rb_inv m t"
  shows "(\<forall>x h nh. rbs_prod t = RP_Checked x h nh \<longrightarrow> unat h < length (rb_buffer (rbs_data t))) \<and>
    (\<forall>i. rbs_cons t = RC_Checked i \<longrightarrow> unat i < length (rb_buffer (rbs_data t))) \<and>
    (\<forall>x h nh i. rbs_prod t = RP_Checked x h nh \<longrightarrow> rbs_cons t = RC_Checked i \<longrightarrow> h \<noteq> i)"
proof (intro conjI allI impI)
  have ok: "unat (rb_head (rbs_data t)) < length (rb_buffer (rbs_data t))"
    "unat (rb_tail (rbs_data t)) < length (rb_buffer (rbs_data t))"
    and p: "rb_prod_ok m (rbs_data t) (rbs_prod t)" and c: "rb_cons_ok (rbs_data t) (rbs_cons t)"
    using assms by (simp_all add: rb_inv_def rb_ok_def)
  show "unat h < length (rb_buffer (rbs_data t))" if "rbs_prod t = RP_Checked x h nh" for x h nh
    using p ok(1) unfolding that by simp
  show "unat i < length (rb_buffer (rbs_data t))" if "rbs_cons t = RC_Checked i" for i
    using c ok(2) unfolding that by simp
  show "h \<noteq> i" if "rbs_prod t = RP_Checked x h nh" "rbs_cons t = RC_Checked i" for x h nh i
    using p c unfolding that by auto
qed

section \<open>Properties\<close>

text \<open>A capacity of 4 and its mask, used by the witnesses.\<close>

lemma capacity_4: "is_capacity 4 3" "is_capacity (unat (4 :: u64)) 3"
  by (auto simp: is_capacity_def mask_eq_exp_minus_1 intro!: exI [of _ 2])

text \<open>The constructor accepts exactly the powers of two from 2 on. Otherwise it throws
  before it has made any system call; and a handle it returns masks with the capacity minus one and,
  for a producer, comes with an empty queue.\<close>

theorem rb_ctor_validates:
  "(if lockFree \<and> is_capacity (unat capacity) (capacity - 1)
    then (\<forall>h d k'. rb_ctor P fs lockFree pid role capacity nameSuffix k = (Inr (h, d), k') \<longrightarrow>
            rb_CapacityMinusOne h = capacity - 1 \<and>
            (role = RB_Producer \<longrightarrow> d = Some (rb_initial capacity) \<and>
               rb_ok (capacity - 1) (rb_initial capacity) \<and> rb_elems (rb_initial capacity) = []))
    else (\<exists>e. e \<in> {Not_lock_free, Capacity_below_two, Capacity_not_power_of_two} \<and>
            rb_ctor P fs lockFree pid role capacity nameSuffix k = (Inl e, k)))"
proof (cases "lockFree \<and> is_capacity (unat capacity) (capacity - 1)")
  case True
  then show ?thesis
    using rb_initial_ok [of capacity "capacity - 1"]
    by (auto simp: rb_ctor_def split: if_splits prod.splits sum.splits)
next
  case False
  then show ?thesis
    using pow2_test [of capacity] by (auto simp: rb_ctor_def not_less)
qed

theorem rb_ctor_validates_witness:
  "\<exists>e. e \<in> {Not_lock_free, Capacity_below_two, Capacity_not_power_of_two} \<and>
     rb_ctor (list_kernel 4096) (\<lambda>_. None) True 7 RB_Producer 6 [] [] = (Inl e, [])"
proof -
  have "\<not> is_capacity (unat (6 :: u64)) (6 - 1)"
    using pow2_test [of 6] by simp
  with rb_ctor_validates [of True 6 "list_kernel 4096" "\<lambda>_. None" 7 RB_Producer "[]" "[]"]
  show ?thesis by simp
qed

text \<open>Seen by one thread the ring buffer is a bounded FIFO queue: any sequence of
  \<open>Enqueue\<close> and \<open>Dequeue\<close> calls stays in bounds and answers as a list of at most
  \<open>m_CapacityMinusOne\<close> items does, full and empty queues included.\<close>

theorem rb_refines_list:
  assumes "rb_ok m q"
  shows "\<exists>q'. fifo_run (rb_Enqueue m) (rb_Dequeue m) ops q =
      Some (fst (spec_run (unat m) ops (rb_elems q)), q') \<and>
    rb_ok m q' \<and> rb_elems q' = snd (spec_run (unat m) ops (rb_elems q))"
  using assms by (rule rb.run_refines)

theorem rb_refines_list_witness:
  "\<exists>q'. fifo_run (rb_Enqueue 3) (rb_Dequeue 3) [Enq 5, Enq 6, Enq 7, Enq 8, Deq 0, Deq 0, Deq 0, Deq 9] (rb_initial 4) =
      Some ([EnqRes True, EnqRes True, EnqRes True, EnqRes False,
             DeqRes True 5, DeqRes True 6, DeqRes True 7, DeqRes False 9], q') \<and>
    rb_ok 3 q' \<and> rb_elems q' = []"
  using rb_refines_list [of 3 "rb_initial 4" "[Enq 5, Enq 6, Enq 7, Enq 8, Deq 0, Deq 0, Deq 0, Deq 9]"]
    rb_initial_ok [OF capacity_4(2)]
  by simp

text \<open>Property C12: with one producer and one consumer interleaving at every memory access, what has
  been dequeued is at any time the beginning of what has been enqueued, in order and without loss or
  duplication; the rest is in the buffer, and it is never more than \<open>m_CapacityMinusOne\<close> items.\<close>

theorem rb_fifo_concurrent:
  assumes "is_capacity (unat capacity) m" "rb_start capacity s" "(rb_step m)\<^sup>*\<^sup>* s t"
  shows "rbs_sent t = rbs_received t @ rb_elems (rbs_data t) \<and> length (rb_elems (rbs_data t)) \<le> unat m"
  using rbc.fifo_order [of m s t] assms by blast

lemma rb_initial_4: "rb_initial 4 = \<lparr>rb_head = 0, rb_tail = 0, rb_buffer = [0, 0, 0, 0]\<rparr>"
proof -
  have "unat (4 :: u64) = Suc (Suc (Suc (Suc 0)))" by simp
  then show ?thesis by (simp only: rb_initial_def replicate.simps)
qed

definition rb_demo_start :: rb_sys where
  "rb_demo_start = \<lparr>rbs_data = rb_initial 4, rbs_prod = RP_Idle, rbs_cons = RC_Idle,
     rbs_sent = [], rbs_received = []\<rparr>"

theorem rb_fifo_concurrent_witness:
  "\<exists>t. (rb_step 3)\<^sup>*\<^sup>* rb_demo_start t \<and> rbs_sent t = [9] \<and>
     rbs_sent t = rbs_received t @ rb_elems (rbs_data t) \<and> length (rb_elems (rbs_data t)) \<le> 3"
proof -
  have "\<exists>q'. rb_Enqueue 3 9 (rbs_data rb_demo_start) = Some (True, q')"
    by (simp add: rb_Enqueue_def rb_demo_start_def rb_initial_4 arr_write_def)
  then obtain q' where "rb_Enqueue 3 9 (rbs_data rb_demo_start) = Some (True, q')" by blast
  from rb_enqueue_alone [OF _ this]
  have "(rb_step 3)\<^sup>*\<^sup>* rb_demo_start (rb_demo_start\<lparr>rbs_data := q', rbs_sent := [9]\<rparr>)"
    by (simp add: rb_demo_start_def)
  moreover have "rb_start 4 rb_demo_start" by (simp add: rb_start_def rb_demo_start_def)
  ultimately show ?thesis
    using rb_fifo_concurrent [OF capacity_4(2), of rb_demo_start "rb_demo_start\<lparr>rbs_data := q', rbs_sent := [9]\<rparr>"]
    by (intro exI [of _ "rb_demo_start\<lparr>rbs_data := q', rbs_sent := [9]\<rparr>"]) simp
qed

text \<open>Memory safety of the interleaved operations: in every reachable state the slot the
  producer is about to write and the slot the consumer is about to read exist, and they are
  different slots.\<close>

theorem rb_accesses_safe:
  assumes "is_capacity (unat capacity) m" "rb_start capacity s" "(rb_step m)\<^sup>*\<^sup>* s t"
  shows "(\<forall>x h nh. rbs_prod t = RP_Checked x h nh \<longrightarrow> unat h < length (rb_buffer (rbs_data t))) \<and>
    (\<forall>i. rbs_cons t = RC_Checked i \<longrightarrow> unat i < length (rb_buffer (rbs_data t))) \<and>
    (\<forall>x h nh i. rbs_prod t = RP_Checked x h nh \<longrightarrow> rbs_cons t = RC_Checked i \<longrightarrow> h \<noteq> i)"
proof -
  have "rb_inv m t"
    by (rule rbc.reach_inv [OF assms(3) rb_start_inv [OF assms(1,2)]])
  then show ?thesis by (rule rb_inv_accesses)
qed

theorem rb_accesses_safe_witness:
  "(rb_step 3)\<^sup>*\<^sup>* rb_demo_start (rb_demo_start\<lparr>rbs_prod := RP_Checked 9 0 1\<rparr>) \<and>
   unat (0 :: u64) < length (rb_buffer (rbs_data rb_demo_start))"
proof -
  have start: "rb_start 4 rb_demo_start" by (simp add: rb_start_def rb_demo_start_def)
  let ?s1 = "rb_demo_start\<lparr>rbs_prod := RP_Loaded 9 0\<rparr>"
  have "rb_step 3 rb_demo_start ?s1"
    using enq_load_head [of rb_demo_start 3 9] by (simp add: rb_demo_start_def rb_initial_def)
  moreover have "rb_step 3 ?s1 (?s1\<lparr>rbs_prod := RP_Checked 9 0 ((0 + 1) AND 3)\<rparr>)"
    by (rule enq_room) (simp_all add: rb_demo_start_def rb_initial_def)
  ultimately have "(rb_step 3)\<^sup>*\<^sup>* rb_demo_start (?s1\<lparr>rbs_prod := RP_Checked 9 0 ((0 + 1) AND 3)\<rparr>)"
    by (rule two_steps)
  then have run: "(rb_step 3)\<^sup>*\<^sup>* rb_demo_start (rb_demo_start\<lparr>rbs_prod := RP_Checked 9 0 1\<rparr>)"
    by (simp add: rb_demo_start_def)
  have "unat (0 :: u64) < length (rb_buffer (rbs_data (rb_demo_start\<lparr>rbs_prod := RP_Checked 9 0 1\<rparr>)))"
    by (rule rb_accesses_safe [OF capacity_4(2) start run, THEN conjunct1, THEN spec, THEN spec, THEN spec,
          THEN mp, of 9 0 1]) simp
  then have "unat (0 :: u64) < length (rb_buffer (rbs_data rb_demo_start))" by simp
  with run show ?thesis by (rule conjI)
qed

text \<open>A \<open>Dequeue\<close> of the ring buffer never fails spuriously: once the consumer has
  loaded \<open>tail\<close> while the queue holds an item, then whatever the producer does in between, the
  consumer's next access finds the queue non-empty.\<close>

theorem rb_dequeue_not_spurious:
  assumes "rb_inv m s" "rbs_cons s = RC_Loaded i" "rb_elems (rbs_data s) \<noteq> []" "rb_step m s t"
  shows "rbs_cons t = RC_Checked i \<or> rbs_cons t = RC_Loaded i \<and> rb_elems (rbs_data t) \<noteq> []"
  using assms(4)
proof cases
  case (deq_empty t')
  then show ?thesis using assms rb_empty_iff [of m "rbs_data s"] by (simp add: rb_inv_def)
next
  case (enq_store_head x nh)
  have "rb_inv m t" using assms(1,4) by (rule rb_step_inv)
  moreover have "prefix (rbs_sent s) (rbs_sent t)" using assms(4) by (rule rb_histories_grow)
  moreover have "rbs_received t = rbs_received s" using enq_store_head(1) by simp
  ultimately have "rb_elems (rbs_data t) \<noteq> []"
    using assms(1,3) by (auto simp: rb_inv_def prefix_def)
  then show ?thesis using assms(2) enq_store_head(1) by simp
next
  case (enq_write x h nh b)
  have "rb_inv m t" using assms(1,4) by (rule rb_step_inv)
  then have "rb_elems (rbs_data t) = rb_elems (rbs_data s)"
    using assms(1) enq_write(1) by (simp add: rb_inv_def)
  then show ?thesis using assms(2,3) enq_write(1) by simp
qed (use assms(2,3) in auto)

theorem rb_dequeue_not_spurious_witness:
  "let s = \<lparr>rbs_data = \<lparr>rb_head = 1, rb_tail = 0, rb_buffer = [9, 0, 0, 0]\<rparr>, rbs_prod = RP_Idle,
        rbs_cons = RC_Loaded 0, rbs_sent = [9], rbs_received = []\<rparr>;
     t = s\<lparr>rbs_cons := RC_Checked 0\<rparr>
   in rb_step 3 s t \<and> (rbs_cons t = RC_Checked 0 \<or> rbs_cons t = RC_Loaded 0 \<and> rb_elems (rbs_data t) \<noteq> [])"
proof -
  let ?s = "\<lparr>rbs_data = \<lparr>rb_head = 1, rb_tail = 0, rb_buffer = [9, 0, 0, 0]\<rparr>, rbs_prod = RP_Idle,
        rbs_cons = RC_Loaded 0, rbs_sent = [9], rbs_received = []\<rparr>"
  have el: "rb_elems (rbs_data ?s) = [9]"
    by (simp add: rb_elems_def ring_list_def ring_count_def)
  have "is_capacity (length [9, 0, 0, 0 :: u32]) 3" using capacity_4(1) by (simp add: numeral_eq_Suc)
  then have inv: "rb_inv 3 ?s"
    using el by (simp add: rb_inv_def rb_ok_def)
  have st: "rb_step 3 ?s (?s\<lparr>rbs_cons := RC_Checked 0\<rparr>)"
    by (rule deq_some) simp_all
  from rb_dequeue_not_spurious [OF inv _ _ st] el st show ?thesis by (simp add: Let_def)
qed

text \<open>The interleaved producer and consumer run the code of \<open>Enqueue\<close> and \<open>Dequeue\<close>: an
  operation whose accesses are not interleaved takes the shared data to the state, and gives the
  answer, of the sequential function.\<close>

theorem rb_operations_alone:
  "(rbs_prod s = RP_Idle \<and> rb_Enqueue m x (rbs_data s) = Some (b, q') \<longrightarrow>
     (rb_step m)\<^sup>*\<^sup>* s (s\<lparr>rbs_data := q', rbs_sent := rbs_sent s @ (if b then [x] else [])\<rparr>)) \<and>
   (rbs_cons s = RC_Idle \<and> rb_Dequeue m v (rbs_data s) = Some (d, y, q'') \<longrightarrow>
     (rb_step m)\<^sup>*\<^sup>* s (s\<lparr>rbs_data := q'', rbs_received := rbs_received s @ (if d then [y] else [])\<rparr>))"
  using rb_enqueue_alone rb_dequeue_alone by blast

theorem rb_operations_alone_witness:
  "(rb_step 3)\<^sup>*\<^sup>* rb_demo_start
     (rb_demo_start\<lparr>rbs_data := \<lparr>rb_head = 1, rb_tail = 0, rb_buffer = [9, 0, 0, 0]\<rparr>, rbs_sent := [9]\<rparr>)"
proof -
  have "rb_Enqueue 3 9 (rbs_data rb_demo_start) = Some (True, \<lparr>rb_head = 1, rb_tail = 0, rb_buffer = [9, 0, 0, 0]\<rparr>)"
    by (simp add: rb_Enqueue_def rb_demo_start_def rb_initial_4 arr_write_def)
  with rb_operations_alone [of rb_demo_start 3 9 True "\<lparr>rb_head = 1, rb_tail = 0, rb_buffer = [9, 0, 0, 0]\<rparr>"]
  show ?thesis by (simp add: rb_demo_start_def)
qed

end
