(* ===== verification/Spsc_SeqLock.thy ===== *)
theory Spsc_SeqLock
  imports Spsc_RingBuffer
begin

text \<open>
  \<open>lib/spsc-queue/SpscQueueSeqLock\<close>: the same circular buffer with a sequence counter that is odd
  while the producer is writing; \<open>Dequeue\<close> gives up when it sees an odd counter or a counter that
  has moved. The sequential operations, the constructor and the access-by-access interleaving follow
  the ring buffer's theory; the contract is proved by refinement to the ring buffer: dropping the
  counter maps every access of this queue to accesses of that one.
\<close>

section \<open>Shared data and sequential operations\<close>

record seqlock_data =
  sl_head :: u64
  sl_tail :: u64
  sl_seq :: u64
  sl_buffer :: "u32 list"

text \<open>
  The producer's constructor writes 0 to both indices; the counter is 0 because the segment has been
  cleared.
\<close>

definition sl_initial :: "u64 \<Rightarrow> seqlock_data" where
  "sl_initial capacity =
     \<lparr>sl_head = 0, sl_tail = 0, sl_seq = 0, sl_buffer = replicate (unat capacity) 0\<rparr>"

definition sl_Enqueue :: "u64 \<Rightarrow> u32 \<Rightarrow> seqlock_data \<Rightarrow> (bool \<times> seqlock_data) option" where
  "sl_Enqueue capacityMinusOne item q =
     (let head = sl_head q;
          nextHead = (head + 1) AND capacityMinusOne
      in if nextHead = sl_tail q then Some (False, q)
         else
           (let q1 = q\<lparr>sl_seq := sl_seq q + 1\<rparr>
            in case arr_write (sl_buffer q1) (unat head) item of
                 None \<Rightarrow> None
               | Some buffer \<Rightarrow>
                   (let q2 = q1\<lparr>sl_buffer := buffer, sl_head := nextHead\<rparr>
                    in Some (True, q2\<lparr>sl_seq := sl_seq q2 + 1\<rparr>))))"

definition sl_Dequeue :: "u64 \<Rightarrow> u32 \<Rightarrow> seqlock_data \<Rightarrow> (bool \<times> u32 \<times> seqlock_data) option" where
  "sl_Dequeue capacityMinusOne item q =
     (let head = sl_head q; tail = sl_tail q
      in if tail = head then Some (False, item, q)
         else
           (let seqStart = sl_seq q
            in if seqStart mod 2 \<noteq> 0 then Some (False, item, q)
               else (case arr_read (sl_buffer q) (unat tail) of
                       None \<Rightarrow> None
                     | Some x \<Rightarrow>
                         (let nextTail = (tail + 1) AND capacityMinusOne; seqEnd = sl_seq q
                          in if seqStart = seqEnd then Some (True, x, q\<lparr>sl_tail := nextTail\<rparr>)
                             else Some (False, x, q)))))"

definition sl_GetRealCapacity :: "u64 \<Rightarrow> u64" where
  "sl_GetRealCapacity capacityMinusOne = capacityMinusOne"

text \<open>Without its counter the queue is a ring buffer.\<close>

definition sl_ring :: "seqlock_data \<Rightarrow> ring_data" where
  "sl_ring q = \<lparr>rb_head = sl_head q, rb_tail = sl_tail q, rb_buffer = sl_buffer q\<rparr>"

definition sl_elems :: "seqlock_data \<Rightarrow> u32 list" where
  "sl_elems q = rb_elems (sl_ring q)"

definition sl_ok :: "u64 \<Rightarrow> seqlock_data \<Rightarrow> bool" where
  "sl_ok m q \<longleftrightarrow> rb_ok m (sl_ring q) \<and> even (sl_seq q)"

lemma sl_ring_simps [simp]:
  "rb_head (sl_ring q) = sl_head q" "rb_tail (sl_ring q) = sl_tail q" "rb_buffer (sl_ring q) = sl_buffer q"
  "sl_ring (q\<lparr>sl_seq := n\<rparr>) = sl_ring q" "sl_ring (q\<lparr>sl_head := i\<rparr>) = (sl_ring q)\<lparr>rb_head := i\<rparr>"
  "sl_ring (q\<lparr>sl_tail := i\<rparr>) = (sl_ring q)\<lparr>rb_tail := i\<rparr>" "sl_ring (q\<lparr>sl_buffer := b\<rparr>) = (sl_ring q)\<lparr>rb_buffer := b\<rparr>"
  by (simp_all add: sl_ring_def)

lemma sl_Enqueue_ring: "map_option (map_prod id sl_ring) (sl_Enqueue m x q) = rb_Enqueue m x (sl_ring q)"
  by (simp add: sl_Enqueue_def rb_Enqueue_def Let_def split: option.split)

lemma sl_Dequeue_ring:
  "even (sl_seq q) \<Longrightarrow> map_option (map_prod id (map_prod id sl_ring)) (sl_Dequeue m v q) = rb_Dequeue m v (sl_ring q)"
  by (simp add: sl_Dequeue_def rb_Dequeue_def Let_def even_iff_mod_2_eq_zero split: option.split)

lemma sl_Enqueue_parity: "sl_Enqueue m x q = Some (b, q') \<Longrightarrow> even (sl_seq q') \<longleftrightarrow> even (sl_seq q)"
  by (auto simp: sl_Enqueue_def Let_def split: if_splits option.splits)

lemma sl_Dequeue_parity: "sl_Dequeue m v q = Some (b, y, q') \<Longrightarrow> sl_seq q' = sl_seq q"
  by (auto simp: sl_Dequeue_def Let_def split: if_splits option.splits)

interpretation sl: bounded_fifo "sl_Enqueue m" "sl_Dequeue m" sl_elems "sl_ok m" "unat m"
  for m :: u64
proof unfold_locales
  fix q :: seqlock_data and x v y ys
  assume ok: "sl_ok m q"
  then have rb: "rb_ok m (sl_ring q)" and ev: "even (sl_seq q)" by (simp_all add: sl_ok_def)
  note ring = sl_Enqueue_ring [of m x q] sl_Dequeue_ring [OF ev, of m v]
  show "length (sl_elems q) \<le> unat m"
    using rb_elems_bound [OF rb] by (simp add: sl_elems_def)
  show "\<exists>q'. sl_Enqueue m x q = Some (True, q') \<and> sl_ok m q' \<and> sl_elems q' = sl_elems q @ [x]"
    if "length (sl_elems q) < unat m"
    using rb_Enqueue_room [OF rb, of x] that ring(1) ev sl_Enqueue_parity [of m x q]
    by (fastforce simp: sl_elems_def sl_ok_def)
  show "sl_Enqueue m x q = Some (False, q)" if "length (sl_elems q) = unat m"
    using rb_full_iff [OF rb] that by (simp add: sl_elems_def sl_Enqueue_def Let_def)
  show "sl_Dequeue m v q = Some (False, v, q)" if "sl_elems q = []"
    using rb_empty_iff [OF rb] that by (simp add: sl_elems_def sl_Dequeue_def Let_def)
  show "\<exists>q'. sl_Dequeue m v q = Some (True, y, q') \<and> sl_ok m q' \<and> sl_elems q' = ys"
    if "sl_elems q = y # ys"
    using rb_Dequeue_next [OF rb, of y ys v] that ring(2) ev sl_Dequeue_parity [of m v q]
    by (fastforce simp: sl_elems_def sl_ok_def)
qed

lemma sl_ring_initial: "sl_ring (sl_initial capacity) = rb_initial capacity"
  by (simp add: sl_ring_def sl_initial_def rb_initial_def)

lemma sl_initial_ok:
  "is_capacity (unat capacity) m \<Longrightarrow> sl_ok m (sl_initial capacity) \<and> sl_elems (sl_initial capacity) = []"
  using rb_initial_ok by (simp add: sl_ok_def sl_elems_def sl_ring_initial) (simp add: sl_initial_def)

section \<open>Construction\<close>

datatype sl_role = SL_Producer | SL_Consumer

record sl_handle =
  sl_OwnerPid :: u32
  sl_Role :: sl_role
  sl_Capacity :: u64
  sl_CapacityMinusOne :: u64
  sl_SharedMemory :: SharedMemory

definition sl_CreateShmObjectName :: "u32 \<Rightarrow> string \<Rightarrow> string" where
  "sl_CreateShmObjectName ownerPid nameSuffix =
     ''spsc_queue_buffer_uid{'' @ dec (unat ownerPid) @ ''}'' @ nameSuffix"

text \<open>\<open>sizeof(QueueData)\<close> is 192: two indices and the counter, each on a cache line of 64 bytes.\<close>

definition sl_CalculateBufferSize :: "u64 \<Rightarrow> u64 \<Rightarrow> u64" where
  "sl_CalculateBufferSize cacheLineSize capacity = rounded_size cacheLineSize 192 capacity"

definition sl_ctor ::
  "'k posix \<Rightarrow> file_system \<Rightarrow> bool \<Rightarrow> u32 \<Rightarrow> sl_role \<Rightarrow> u64 \<Rightarrow> string \<Rightarrow> 'k \<Rightarrow>
   (queue_error + sl_handle \<times> seqlock_data option) \<times> 'k" where
  "sl_ctor P fs lockFree ownerPid role capacity nameSuffix k =
     (if \<not> lockFree then (Inl Not_lock_free, k)
      else if capacity < 2 then (Inl Capacity_below_two, k)
      else if capacity AND (capacity - 1) \<noteq> 0 then (Inl Capacity_not_power_of_two, k)
      else
        (case SharedMemory_ctor P (sl_CalculateBufferSize (GetCacheLineSize fs) capacity)
                (sl_CreateShmObjectName ownerPid nameSuffix)
                (if role = SL_Producer then Owner else Borrower)
                (if role = SL_Producer then Init_Zero else Init_NoInit) k of
           (Inl e, k') \<Rightarrow> (Inl (Queue_memory e), k')
         | (Inr sm, k') \<Rightarrow>
             (Inr (\<lparr>sl_OwnerPid = ownerPid, sl_Role = role, sl_Capacity = capacity,
                    sl_CapacityMinusOne = capacity - 1, sl_SharedMemory = sm\<rparr>,
                   if role = SL_Producer then Some (sl_initial capacity) else None), k')))"

lemma sl_ctor_object:
  assumes "sl_ctor P fs lockFree pid role capacity nameSuffix k = (Inr (h, d), k')"
  shows "m_ShmObjectName (sl_SharedMemory h) = sl_CreateShmObjectName pid nameSuffix"
    "m_SizeInBytes (sl_SharedMemory h) = sl_CalculateBufferSize (GetCacheLineSize fs) capacity"
    "m_Ownership (sl_SharedMemory h) = (if role = SL_Producer then Owner else Borrower)"
    "d = (if role = SL_Producer then Some (sl_initial capacity) else None)"
    "sl_CapacityMinusOne h = capacity - 1"
  using assms ctor_fields by (auto simp: sl_ctor_def split: if_splits prod.splits sum.splits)

text \<open>Both queue classes name their segment alike.\<close>

theorem queue_names_coincide: "sl_CreateShmObjectName = rb_CreateShmObjectName"
  by (intro ext) (simp add: sl_CreateShmObjectName_def rb_CreateShmObjectName_def)

text \<open>Two rings of the same kind share a name only when owner and suffix agree.\<close>

lemma queue_name_inj:
  assumes "rb_CreateShmObjectName p a = rb_CreateShmObjectName q b"
  shows "p = q \<and> a = b"
proof -
  have "dec (unat p) @ CHR ''}'' # a = dec (unat q) @ CHR ''}'' # b"
    using assms by (simp add: rb_CreateShmObjectName_def)
  then have "unat p = unat q \<and> a = b" by (simp add: dec_delimited_inj)
  then show ?thesis by (simp add: word_unat_eq_iff)
qed

section \<open>One producer and one consumer\<close>

text \<open>
  The producer is between calls, has loaded \<open>head\<close>, has seen a free slot, has made the counter odd,
  has filled the slot, or has stored \<open>head\<close>. The consumer is between calls, has loaded \<open>head\<close>, has
  seen that \<open>tail\<close> differs from it, has seen an even counter, has read the item, or has seen the
  counter unchanged.
\<close>

datatype sl_producer =
    SP_Idle
  | SP_Loaded u32 u64
  | SP_Checked u32 u64 u64
  | SP_Locked u32 u64 u64
  | SP_Filled u32 u64
  | SP_Stored

datatype sl_consumer =
    SC_Idle
  | SC_Head u64
  | SC_Nonempty u64
  | SC_Started u64 u64
  | SC_Read u64 u64 u32
  | SC_Stable u64 u32

record sl_sys =
  sls_data :: seqlock_data
  sls_prod :: sl_producer
  sls_cons :: sl_consumer
  sls_sent :: "u32 list"
  sls_received :: "u32 list"

inductive sl_step :: "u64 \<Rightarrow> sl_sys \<Rightarrow> sl_sys \<Rightarrow> bool" for m :: u64 where
  sl_enq_load_head: "sls_prod s = SP_Idle \<Longrightarrow>
     sl_step m s (s\<lparr>sls_prod := SP_Loaded x (sl_head (sls_data s))\<rparr>)"
| sl_enq_full: "sls_prod s = SP_Loaded x h \<Longrightarrow> (h + 1) AND m = sl_tail (sls_data s) \<Longrightarrow>
     sl_step m s (s\<lparr>sls_prod := SP_Idle\<rparr>)"
| sl_enq_room: "sls_prod s = SP_Loaded x h \<Longrightarrow> (h + 1) AND m \<noteq> sl_tail (sls_data s) \<Longrightarrow>
     sl_step m s (s\<lparr>sls_prod := SP_Checked x h ((h + 1) AND m)\<rparr>)"
| sl_enq_lock: "sls_prod s = SP_Checked x h nh \<Longrightarrow>
     sl_step m s (s\<lparr>sls_prod := SP_Locked x h nh, sls_data := (sls_data s)\<lparr>sl_seq := sl_seq (sls_data s) + 1\<rparr>\<rparr>)"
| sl_enq_write: "sls_prod s = SP_Locked x h nh \<Longrightarrow> arr_write (sl_buffer (sls_data s)) (unat h) x = Some b \<Longrightarrow>
     sl_step m s (s\<lparr>sls_prod := SP_Filled x nh, sls_data := (sls_data s)\<lparr>sl_buffer := b\<rparr>\<rparr>)"
| sl_enq_store_head: "sls_prod s = SP_Filled x nh \<Longrightarrow>
     sl_step m s (s\<lparr>sls_prod := SP_Stored, sls_data := (sls_data s)\<lparr>sl_head := nh\<rparr>, sls_sent := sls_sent s @ [x]\<rparr>)"
| sl_enq_unlock: "sls_prod s = SP_Stored \<Longrightarrow>
     sl_step m s (s\<lparr>sls_prod := SP_Idle, sls_data := (sls_data s)\<lparr>sl_seq := sl_seq (sls_data s) + 1\<rparr>\<rparr>)"
| sl_deq_load_head: "sls_cons s = SC_Idle \<Longrightarrow>
     sl_step m s (s\<lparr>sls_cons := SC_Head (sl_head (sls_data s))\<rparr>)"
| sl_deq_empty: "sls_cons s = SC_Head h \<Longrightarrow> sl_tail (sls_data s) = h \<Longrightarrow>
     sl_step m s (s\<lparr>sls_cons := SC_Idle\<rparr>)"
| sl_deq_some: "sls_cons s = SC_Head h \<Longrightarrow> sl_tail (sls_data s) \<noteq> h \<Longrightarrow>
     sl_step m s (s\<lparr>sls_cons := SC_Nonempty (sl_tail (sls_data s))\<rparr>)"
| sl_deq_odd: "sls_cons s = SC_Nonempty t \<Longrightarrow> sl_seq (sls_data s) mod 2 \<noteq> 0 \<Longrightarrow>
     sl_step m s (s\<lparr>sls_cons := SC_Idle\<rparr>)"
| sl_deq_even: "sls_cons s = SC_Nonempty t \<Longrightarrow> sl_seq (sls_data s) mod 2 = 0 \<Longrightarrow>
     sl_step m s (s\<lparr>sls_cons := SC_Started t (sl_seq (sls_data s))\<rparr>)"
| sl_deq_read: "sls_cons s = SC_Started t n \<Longrightarrow> arr_read (sl_buffer (sls_data s)) (unat t) = Some x \<Longrightarrow>
     sl_step m s (s\<lparr>sls_cons := SC_Read t n x\<rparr>)"
| sl_deq_changed: "sls_cons s = SC_Read t n x \<Longrightarrow> n \<noteq> sl_seq (sls_data s) \<Longrightarrow>
     sl_step m s (s\<lparr>sls_cons := SC_Idle\<rparr>)"
| sl_deq_same: "sls_cons s = SC_Read t n x \<Longrightarrow> n = sl_seq (sls_data s) \<Longrightarrow>
     sl_step m s (s\<lparr>sls_cons := SC_Stable t x\<rparr>)"
| sl_deq_store_tail: "sls_cons s = SC_Stable t x \<Longrightarrow>
     sl_step m s (s\<lparr>sls_cons := SC_Idle, sls_data := (sls_data s)\<lparr>sl_tail := (t + 1) AND m\<rparr>,
                   sls_received := sls_received s @ [x]\<rparr>)"

inductive_cases sl_stepE: "sl_step m s t"

definition sl_start :: "u64 \<Rightarrow> sl_sys \<Rightarrow> bool" where
  "sl_start capacity s \<longleftrightarrow> s = \<lparr>sls_data = sl_initial capacity, sls_prod = SP_Idle, sls_cons = SC_Idle,
     sls_sent = [], sls_received = []\<rparr>"

section \<open>Refinement to the ring buffer\<close>

text \<open>
  The ring buffer's state of a state of this queue. The consumer of the ring buffer is taken to start
  its \<open>Dequeue\<close> only when this queue's consumer has seen its counter unchanged: every attempt that
  gives up before corresponds to no access at all.
\<close>

fun sl_abs_prod :: "sl_producer \<Rightarrow> rb_producer" where
  "sl_abs_prod SP_Idle = RP_Idle"
| "sl_abs_prod (SP_Loaded x h) = RP_Loaded x h"
| "sl_abs_prod (SP_Checked x h nh) = RP_Checked x h nh"
| "sl_abs_prod (SP_Locked x h nh) = RP_Checked x h nh"
| "sl_abs_prod (SP_Filled x nh) = RP_Written x nh"
| "sl_abs_prod SP_Stored = RP_Idle"

fun sl_abs_cons :: "sl_consumer \<Rightarrow> rb_consumer" where
  "sl_abs_cons (SC_Stable t x) = RC_Read t x"
| "sl_abs_cons _ = RC_Idle"

definition sl_abs :: "sl_sys \<Rightarrow> rb_sys" where
  "sl_abs s = \<lparr>rbs_data = sl_ring (sls_data s), rbs_prod = sl_abs_prod (sls_prod s),
     rbs_cons = sl_abs_cons (sls_cons s), rbs_sent = sls_sent s, rbs_received = sls_received s\<rparr>"

text \<open>The counter is odd exactly while the producer is between its two increments.\<close>

fun sl_writing :: "sl_producer \<Rightarrow> bool" where
  "sl_writing (SP_Locked x h nh) = True"
| "sl_writing (SP_Filled x nh) = True"
| "sl_writing SP_Stored = True"
| "sl_writing _ = False"

text \<open>
  What an attempt of the consumer knows. The \<open>head\<close> it has loaded may be stale, but \<open>tail\<close> is its
  own, so a difference between the two still shows that the queue is not empty.
\<close>

fun sl_cons_ok :: "seqlock_data \<Rightarrow> sl_consumer \<Rightarrow> bool" where
  "sl_cons_ok q SC_Idle = True"
| "sl_cons_ok q (SC_Head h) = (sl_tail q \<noteq> h \<longrightarrow> sl_tail q \<noteq> sl_head q)"
| "sl_cons_ok q (SC_Nonempty t) = (t = sl_tail q \<and> t \<noteq> sl_head q)"
| "sl_cons_ok q (SC_Started t n) = (t = sl_tail q \<and> t \<noteq> sl_head q)"
| "sl_cons_ok q (SC_Read t n x) = (t = sl_tail q \<and> t \<noteq> sl_head q \<and> sl_buffer q ! unat t = x)"
| "sl_cons_ok q (SC_Stable t x) = (t = sl_tail q \<and> t \<noteq> sl_head q \<and> sl_buffer q ! unat t = x)"

definition sl_inv :: "u64 \<Rightarrow> sl_sys \<Rightarrow> bool" where
  "sl_inv m s \<longleftrightarrow> rb_inv m (sl_abs s) \<and> sl_cons_ok (sls_data s) (sls_cons s) \<and>
     (odd (sl_seq (sls_data s)) \<longleftrightarrow> sl_writing (sls_prod s))"

lemma sl_abs_simps [simp]:
  "rbs_data (sl_abs s) = sl_ring (sls_data s)" "rbs_prod (sl_abs s) = sl_abs_prod (sls_prod s)"
  "rbs_cons (sl_abs s) = sl_abs_cons (sls_cons s)" "rbs_sent (sl_abs s) = sls_sent s"
  "rbs_received (sl_abs s) = sls_received s"
  by (simp_all add: sl_abs_def)

lemma sl_same_abs: "sl_abs s = sl_abs t \<Longrightarrow> (rb_step m)\<^sup>*\<^sup>* (sl_abs s) (sl_abs t)"
  by simp

text \<open>When the consumer finds its counter unchanged, the ring buffer's consumer takes three steps.\<close>

lemma rb_dequeue_prefix:
  assumes "rbs_cons u = RC_Idle" "rb_tail (rbs_data u) \<noteq> rb_head (rbs_data u)"
    "unat (rb_tail (rbs_data u)) < length (rb_buffer (rbs_data u))"
  shows "(rb_step m)\<^sup>*\<^sup>* u (u\<lparr>rbs_cons := RC_Read (rb_tail (rbs_data u)) (rb_buffer (rbs_data u) ! unat (rb_tail (rbs_data u)))\<rparr>)"
proof -
  let ?t = "rb_tail (rbs_data u)"
  let ?u1 = "u\<lparr>rbs_cons := RC_Loaded ?t\<rparr>"
  let ?u2 = "?u1\<lparr>rbs_cons := RC_Checked ?t\<rparr>"
  let ?u3 = "?u2\<lparr>rbs_cons := RC_Read ?t (rb_buffer (rbs_data u) ! unat ?t)\<rparr>"
  have "rb_step m u ?u1" using assms(1) by (rule deq_load_tail)
  moreover have "rb_step m ?u1 ?u2" using assms(2) by (intro deq_some) simp_all
  moreover have "rb_step m ?u2 ?u3" using assms(3) by (intro deq_read) (simp_all add: mem_simps)
  ultimately have "(rb_step m)\<^sup>*\<^sup>* u ?u3" by (meson rtranclp.rtrancl_into_rtrancl two_steps)
  then show ?thesis by simp
qed

lemma sl_step_simulated:
  assumes "sl_inv m s" "sl_step m s t"
  shows "(rb_step m)\<^sup>*\<^sup>* (sl_abs s) (sl_abs t)"
  using assms(2)
proof cases
  case (sl_deq_same t' n x)
  have "sl_cons_ok (sls_data s) (SC_Read t' n x)" "rb_ok m (sl_ring (sls_data s))"
    using assms(1) sl_deq_same(2) by (auto simp: sl_inv_def rb_inv_def)
  then have "(rb_step m)\<^sup>*\<^sup>* (sl_abs s) ((sl_abs s)\<lparr>rbs_cons := RC_Read t' x\<rparr>)"
    using rb_dequeue_prefix [of "sl_abs s" m] sl_deq_same(2) by (auto simp: rb_ok_def)
  then show ?thesis using sl_deq_same(1) by (simp add: sl_abs_def)
next
  case (sl_enq_load_head x)
  then have "rb_step m (sl_abs s) ((sl_abs s)\<lparr>rbs_prod := RP_Loaded x (rb_head (rbs_data (sl_abs s)))\<rparr>)"
    by (intro rb_step.enq_load_head) simp
  then show ?thesis using sl_enq_load_head by (simp add: sl_abs_def r_into_rtranclp)
next
  case (sl_enq_full x h)
  then have "rb_step m (sl_abs s) ((sl_abs s)\<lparr>rbs_prod := RP_Idle\<rparr>)"
    by (intro rb_step.enq_full) simp_all
  then show ?thesis using sl_enq_full by (simp add: sl_abs_def r_into_rtranclp)
next
  case (sl_enq_room x h)
  then have "rb_step m (sl_abs s) ((sl_abs s)\<lparr>rbs_prod := RP_Checked x h ((h + 1) AND m)\<rparr>)"
    by (intro rb_step.enq_room) simp_all
  then show ?thesis using sl_enq_room by (simp add: sl_abs_def r_into_rtranclp)
next
  case (sl_enq_write x h nh b)
  then have "rb_step m (sl_abs s) ((sl_abs s)\<lparr>rbs_prod := RP_Written x nh,
      rbs_data := (rbs_data (sl_abs s))\<lparr>rb_buffer := b\<rparr>\<rparr>)"
    by (intro rb_step.enq_write [of _ x h nh]) simp_all
  then show ?thesis using sl_enq_write by (simp add: sl_abs_def r_into_rtranclp)
next
  case (sl_enq_store_head x nh)
  then have "rb_step m (sl_abs s) ((sl_abs s)\<lparr>rbs_prod := RP_Idle,
      rbs_data := (rbs_data (sl_abs s))\<lparr>rb_head := nh\<rparr>, rbs_sent := rbs_sent (sl_abs s) @ [x]\<rparr>)"
    by (intro rb_step.enq_store_head) simp_all
  then show ?thesis using sl_enq_store_head by (simp add: sl_abs_def r_into_rtranclp)
next
  case (sl_deq_store_tail t' x)
  then have "rb_step m (sl_abs s) ((sl_abs s)\<lparr>rbs_cons := RC_Idle,
      rbs_data := (rbs_data (sl_abs s))\<lparr>rb_tail := (t' + 1) AND m\<rparr>,
      rbs_received := rbs_received (sl_abs s) @ [x]\<rparr>)"
    by (intro rb_step.deq_store_tail) simp_all
  then show ?thesis using sl_deq_store_tail by (simp add: sl_abs_def r_into_rtranclp)
qed (auto intro!: sl_same_abs simp: sl_abs_def)

text \<open>What the refinement's invariant says of this queue's data and producer.\<close>

lemma sl_invD:
  assumes "sl_inv m s"
  shows "rb_ok m (sl_ring (sls_data s))" "rb_prod_ok m (sl_ring (sls_data s)) (sl_abs_prod (sls_prod s))"
    "sl_cons_ok (sls_data s) (sls_cons s)" "odd (sl_seq (sls_data s)) \<longleftrightarrow> sl_writing (sls_prod s)"
    "sls_sent s = sls_received s @ sl_elems (sls_data s)"
  using assms by (auto simp: sl_inv_def rb_inv_def sl_elems_def)

lemma sl_cons_keeps_write:
  assumes "sl_cons_ok q c" "h = sl_head q"
  shows "sl_cons_ok (q\<lparr>sl_buffer := (sl_buffer q)[unat h := x]\<rparr>) c"
  using assms by (cases c) (auto simp: word_unat_eq_iff nth_list_update)

lemma sl_cons_keeps_store:
  assumes "sl_cons_ok q c" "nh \<noteq> sl_tail q"
  shows "sl_cons_ok (q\<lparr>sl_head := nh\<rparr>) c"
  using assms by (cases c) auto

lemma sl_cons_keeps_seq: "sl_cons_ok (q\<lparr>sl_seq := n\<rparr>) c = sl_cons_ok q c"
  by (cases c) auto

lemma sl_step_cons_ok:
  assumes "sl_inv m s" "sl_step m s t"
  shows "sl_cons_ok (sls_data t) (sls_cons t)"
  using assms(2)
proof cases
  case (sl_enq_write x h nh b)
  then have "h = sl_head (sls_data s)" "b = (sl_buffer (sls_data s))[unat h := x]"
    using sl_invD(2) [OF assms(1)] by (simp_all add: arr_write_Some_iff)
  then show ?thesis
    using sl_enq_write(1) sl_cons_keeps_write [OF sl_invD(3) [OF assms(1)], of h x] by simp
next
  case (sl_enq_store_head x nh)
  then have "nh \<noteq> sl_tail (sls_data s)" using sl_invD(2) [OF assms(1)] by auto
  then show ?thesis
    using sl_enq_store_head(1) sl_cons_keeps_store [OF sl_invD(3) [OF assms(1)]] by simp
qed (use sl_invD(3) [OF assms(1)] in \<open>auto simp: sl_cons_keeps_seq arr_read_Some_iff\<close>)

lemma sl_step_parity:
  assumes "sl_inv m s" "sl_step m s t"
  shows "odd (sl_seq (sls_data t)) \<longleftrightarrow> sl_writing (sls_prod t)"
  using assms(2) sl_invD(4) [OF assms(1)] by cases simp_all

lemma sl_step_inv [inv_steps]:
  assumes "sl_inv m s" "sl_step m s t"
  shows "sl_inv m t"
proof -
  have "rb_inv m (sl_abs s)" using assms(1) by (simp add: sl_inv_def)
  then have "rb_inv m (sl_abs t)" by (rule rbc.reach_inv [OF sl_step_simulated [OF assms]])
  then show ?thesis
    unfolding sl_inv_def using sl_step_cons_ok [OF assms] sl_step_parity [OF assms] by (intro conjI)
qed

lemma sl_start_abs: "sl_start capacity s \<Longrightarrow> rb_start capacity (sl_abs s)"
  by (simp add: sl_start_def rb_start_def sl_abs_def sl_ring_initial)

lemma sl_start_inv:
  assumes "is_capacity (unat capacity) m" "sl_start capacity s"
  shows "sl_inv m s"
proof -
  have "rb_inv m (sl_abs s)" by (rule rb_start_inv [OF assms(1) sl_start_abs [OF assms(2)]])
  then show ?thesis using assms(2) by (simp add: sl_inv_def sl_start_def sl_initial_def)
qed

lemma sl_histories_grow:
  assumes "sl_step m s t"
  shows "prefix (sls_sent s) (sls_sent t)" "prefix (sls_received s) (sls_received t)"
  using assms by (cases, simp_all)+

interpretation slc: fifo_channel
  "\<lambda>s. \<exists>capacity. is_capacity (unat capacity) m \<and> sl_start capacity s" "sl_step m"
  sls_sent sls_received "\<lambda>s. sl_elems (sls_data s)" "sl_inv m" "unat m"
  for m :: u64
proof unfold_locales
  show "sl_inv m s" if "\<exists>capacity. is_capacity (unat capacity) m \<and> sl_start capacity s" for s
    using that sl_start_inv by blast
  show "sls_sent s = sls_received s @ sl_elems (sls_data s)" if "sl_inv m s" for s
    using sl_invD(5) [OF that] .
  show "length (sl_elems (sls_data s)) \<le> unat m" if "sl_inv m s" for s
    using rb_elems_bound [OF sl_invD(1) [OF that]] by (simp add: sl_elems_def)
qed (blast intro: sl_step_inv sl_histories_grow)+

text \<open>Whole runs refine, not only steps.\<close>

lemma sl_run_simulated:
  assumes "(sl_step m)\<^sup>*\<^sup>* s t" "sl_inv m s"
  shows "(rb_step m)\<^sup>*\<^sup>* (sl_abs s) (sl_abs t)"
  using assms
proof (induction rule: rtranclp_induct)
  case (step u v)
  have "sl_inv m u" by (rule slc.reach_inv [OF step.hyps(1) step.prems])
  with step show ?case using sl_step_simulated by (meson rtranclp_trans)
qed simp

section \<open>The interleaved operations are the sequential ones\<close>

lemma sl_enqueue_alone:
  assumes "sls_prod s = SP_Idle" "sl_Enqueue m x (sls_data s) = Some (b, q')"
  shows "(sl_step m)\<^sup>*\<^sup>* s (s\<lparr>sls_data := q', sls_sent := sls_sent s @ (if b then [x] else [])\<rparr>)"
proof -
  let ?h = "sl_head (sls_data s)" and ?n = "sl_seq (sls_data s)"
  let ?s1 = "s\<lparr>sls_prod := SP_Loaded x ?h\<rparr>"
  have s1: "sl_step m s ?s1" using assms(1) by (rule sl_enq_load_head)
  show ?thesis
  proof (cases "(?h + 1) AND m = sl_tail (sls_data s)")
    case True
    then have res: "b = False" "q' = sls_data s"
      using assms(2) by (simp_all add: sl_Enqueue_def Let_def)
    have "sl_step m ?s1 (?s1\<lparr>sls_prod := SP_Idle\<rparr>)" using True by (intro sl_enq_full) simp_all
    moreover have "?s1\<lparr>sls_prod := SP_Idle\<rparr> = s\<lparr>sls_data := q', sls_sent := sls_sent s @ (if b then [x] else [])\<rparr>"
      using assms(1) res by simp
    ultimately show ?thesis using two_steps [of "sl_step m", OF s1] by simp
  next
    case False
    let ?nh = "(?h + 1) AND m"
    obtain buf where buf: "arr_write (sl_buffer (sls_data s)) (unat ?h) x = Some buf"
      using assms(2) False by (auto simp: sl_Enqueue_def Let_def split: option.splits)
    have res: "b" "q' = (sls_data s)\<lparr>sl_buffer := buf, sl_head := ?nh, sl_seq := ?n + 1 + 1\<rparr>"
      using assms(2) False buf by (auto simp: sl_Enqueue_def Let_def)
    let ?s2 = "?s1\<lparr>sls_prod := SP_Checked x ?h ?nh\<rparr>"
    let ?s3 = "?s2\<lparr>sls_prod := SP_Locked x ?h ?nh, sls_data := (sls_data ?s2)\<lparr>sl_seq := sl_seq (sls_data ?s2) + 1\<rparr>\<rparr>"
    let ?s4 = "?s3\<lparr>sls_prod := SP_Filled x ?nh, sls_data := (sls_data ?s3)\<lparr>sl_buffer := buf\<rparr>\<rparr>"
    let ?s5 = "?s4\<lparr>sls_prod := SP_Stored, sls_data := (sls_data ?s4)\<lparr>sl_head := ?nh\<rparr>, sls_sent := sls_sent ?s4 @ [x]\<rparr>"
    let ?s6 = "?s5\<lparr>sls_prod := SP_Idle, sls_data := (sls_data ?s5)\<lparr>sl_seq := sl_seq (sls_data ?s5) + 1\<rparr>\<rparr>"
    have "sl_step m ?s1 ?s2" using False by (intro sl_enq_room) simp_all
    moreover have "sl_step m ?s2 ?s3" by (rule sl_enq_lock) simp
    moreover have "sl_step m ?s3 ?s4" using buf by (intro sl_enq_write [of _ x ?h ?nh]) simp_all
    moreover have "sl_step m ?s4 ?s5" by (rule sl_enq_store_head) simp
    moreover have "sl_step m ?s5 ?s6" by (rule sl_enq_unlock) simp
    ultimately have "(sl_step m)\<^sup>*\<^sup>* s ?s6"
      using s1 by (meson rtranclp.rtrancl_into_rtrancl two_steps)
    moreover have "?s6 = s\<lparr>sls_data := q', sls_sent := sls_sent s @ (if b then [x] else [])\<rparr>"
      using assms(1) res by simp
    ultimately show ?thesis by simp
  qed
qed

lemma sl_dequeue_alone:
  assumes "sls_cons s = SC_Idle" "sl_Dequeue m v (sls_data s) = Some (b, x, q')"
  shows "(sl_step m)\<^sup>*\<^sup>* s (s\<lparr>sls_data := q', sls_received := sls_received s @ (if b then [x] else [])\<rparr>)"
proof -
  let ?h = "sl_head (sls_data s)" and ?t = "sl_tail (sls_data s)" and ?n = "sl_seq (sls_data s)"
  let ?goal = "s\<lparr>sls_data := q', sls_received := sls_received s @ (if b then [x] else [])\<rparr>"
  let ?s1 = "s\<lparr>sls_cons := SC_Head ?h\<rparr>"
  let ?s2 = "?s1\<lparr>sls_cons := SC_Nonempty ?t\<rparr>"
  have s1: "sl_step m s ?s1" using assms(1) by (rule sl_deq_load_head)
  consider (Empty) "?t = ?h" | (Odd) "?t \<noteq> ?h" "?n mod 2 \<noteq> 0" | (Even) "?t \<noteq> ?h" "?n mod 2 = 0"
    by (cases "?t = ?h"; cases "?n mod 2 = 0")
  then show ?thesis
  proof cases
    case Empty
    then have "b = False" "q' = sls_data s" using assms(2) by (simp_all add: sl_Dequeue_def Let_def)
    then have "?s1\<lparr>sls_cons := SC_Idle\<rparr> = ?goal" using assms(1) by simp
    moreover have "sl_step m ?s1 (?s1\<lparr>sls_cons := SC_Idle\<rparr>)" using Empty by (intro sl_deq_empty) simp_all
    ultimately show ?thesis using two_steps [of "sl_step m", OF s1] by simp
  next
    case Odd
    then have "b = False" "q' = sls_data s" using assms(2) by (simp_all add: sl_Dequeue_def Let_def)
    then have "?s2\<lparr>sls_cons := SC_Idle\<rparr> = ?goal" using assms(1) by simp
    moreover have "sl_step m ?s1 ?s2" using Odd sl_deq_some [of ?s1 ?h m] by simp
    moreover have "sl_step m ?s2 (?s2\<lparr>sls_cons := SC_Idle\<rparr>)" using Odd by (intro sl_deq_odd) simp_all
    ultimately show ?thesis using s1 by (metis rtranclp.rtrancl_into_rtrancl two_steps)
  next
    case Even
    have rd: "arr_read (sl_buffer (sls_data s)) (unat ?t) = Some x"
      and res: "b" "q' = (sls_data s)\<lparr>sl_tail := (?t + 1) AND m\<rparr>"
      using assms(2) Even by (auto simp: sl_Dequeue_def Let_def split: option.splits)
    let ?s3 = "?s2\<lparr>sls_cons := SC_Started ?t (sl_seq (sls_data ?s2))\<rparr>"
    let ?s4 = "?s3\<lparr>sls_cons := SC_Read ?t ?n x\<rparr>"
    let ?s5 = "?s4\<lparr>sls_cons := SC_Stable ?t x\<rparr>"
    let ?s6 = "?s5\<lparr>sls_cons := SC_Idle, sls_data := (sls_data ?s5)\<lparr>sl_tail := (?t + 1) AND m\<rparr>,
                 sls_received := sls_received ?s5 @ [x]\<rparr>"
    have "sl_step m ?s1 ?s2" using Even sl_deq_some [of ?s1 ?h m] by simp
    moreover have "sl_step m ?s2 ?s3" using Even by (intro sl_deq_even) simp_all
    moreover have "sl_step m ?s3 ?s4" using rd by (intro sl_deq_read) simp_all
    moreover have "sl_step m ?s4 ?s5" by (rule sl_deq_same) simp_all
    moreover have "sl_step m ?s5 ?s6" by (rule sl_deq_store_tail) simp
    ultimately have "(sl_step m)\<^sup>*\<^sup>* s ?s6"
      using s1 by (meson rtranclp.rtrancl_into_rtrancl two_steps)
    moreover have "?s6 = ?goal" using assms(1) res by simp
    ultimately show ?thesis by simp
  qed
qed

section \<open>Properties\<close>

text \<open>Seen by one thread the sequence-locked queue is a bounded FIFO queue, with the
  answers of a list of at most \<open>m_CapacityMinusOne\<close> items, and it answers exactly as the ring buffer
  does on the same calls.\<close>

theorem sl_refines_list:
  assumes "sl_ok m q"
  shows "(\<exists>q'. fifo_run (sl_Enqueue m) (sl_Dequeue m) ops q =
      Some (fst (spec_run (unat m) ops (sl_elems q)), q') \<and>
    sl_ok m q' \<and> sl_elems q' = snd (spec_run (unat m) ops (sl_elems q))) \<and>
    map_option fst (fifo_run (sl_Enqueue m) (sl_Dequeue m) ops q) =
    map_option fst (fifo_run (rb_Enqueue m) (rb_Dequeue m) ops (sl_ring q))"
proof -
  have "rb_ok m (sl_ring q)" using assms by (simp add: sl_ok_def)
  from sl.run_refines [OF assms, of ops] rb.run_refines [OF this, of ops] show ?thesis
    by (auto simp: sl_elems_def)
qed

theorem sl_refines_list_witness:
  "map_option fst (fifo_run (sl_Enqueue 3) (sl_Dequeue 3) [Enq 5, Deq 0, Deq 9] (sl_initial 4)) =
     Some [EnqRes True, DeqRes True 5, DeqRes False 9]"
  using sl_refines_list [of 3 "sl_initial 4" "[Enq 5, Deq 0, Deq 9]", THEN conjunct1]
    sl_initial_ok [OF capacity_4(2)]
  by (auto simp del: fifo_run.simps)

text \<open>Property C14: with one producer and one consumer interleaving at every access, the
  sequence-locked queue delivers the items in order, without loss or duplication, and holds at most
  \<open>m_CapacityMinusOne\<close>; its runs are runs of the lock-free ring buffer once the counter is dropped,
  so neither the stale \<open>head\<close> of the consumer nor a torn attempt shows.\<close>

theorem sl_fifo_concurrent:
  assumes "is_capacity (unat capacity) m" "sl_start capacity s" "(sl_step m)\<^sup>*\<^sup>* s t"
  shows "sls_sent t = sls_received t @ sl_elems (sls_data t) \<and> length (sl_elems (sls_data t)) \<le> unat m \<and>
    rb_start capacity (sl_abs s) \<and> (rb_step m)\<^sup>*\<^sup>* (sl_abs s) (sl_abs t)"
  using slc.fifo_order [of m s t] assms sl_start_abs sl_run_simulated sl_start_inv by blast

definition sl_demo_start :: sl_sys where
  "sl_demo_start = \<lparr>sls_data = sl_initial 4, sls_prod = SP_Idle, sls_cons = SC_Idle,
     sls_sent = [], sls_received = []\<rparr>"

theorem sl_fifo_concurrent_witness:
  "\<exists>t. (sl_step 3)\<^sup>*\<^sup>* sl_demo_start t \<and> sls_sent t = [9] \<and>
     sls_sent t = sls_received t @ sl_elems (sls_data t)"
proof -
  have "\<exists>q'. sl_Enqueue 3 9 (sls_data sl_demo_start) = Some (True, q')"
    by (simp add: sl_Enqueue_def sl_demo_start_def sl_initial_def arr_write_def)
  then obtain q' where "sl_Enqueue 3 9 (sls_data sl_demo_start) = Some (True, q')" by blast
  from sl_enqueue_alone [OF _ this]
  have "(sl_step 3)\<^sup>*\<^sup>* sl_demo_start (sl_demo_start\<lparr>sls_data := q', sls_sent := [9]\<rparr>)"
    by (simp add: sl_demo_start_def)
  moreover have "sl_start 4 sl_demo_start" by (simp add: sl_start_def sl_demo_start_def)
  ultimately show ?thesis
    using sl_fifo_concurrent [OF capacity_4(2), of sl_demo_start "sl_demo_start\<lparr>sls_data := q', sls_sent := [9]\<rparr>"]
    by (intro exI [of _ "sl_demo_start\<lparr>sls_data := q', sls_sent := [9]\<rparr>"]) simp
qed

text \<open>Memory safety and absence of torn reads: in every reachable state the slot about
  to be written and the slot about to be read exist and differ, and an item the consumer has read is
  still what its slot holds when it decides to keep it.\<close>

theorem sl_accesses_safe:
  assumes "is_capacity (unat capacity) m" "sl_start capacity s" "(sl_step m)\<^sup>*\<^sup>* s t"
  shows "(\<forall>x h nh. sls_prod t = SP_Locked x h nh \<longrightarrow> unat h < length (sl_buffer (sls_data t))) \<and>
    (\<forall>i n. sls_cons t = SC_Started i n \<longrightarrow> unat i < length (sl_buffer (sls_data t))) \<and>
    (\<forall>x h nh i n. sls_prod t = SP_Locked x h nh \<longrightarrow> sls_cons t = SC_Started i n \<longrightarrow> h \<noteq> i) \<and>
    (\<forall>i n x. sls_cons t = SC_Read i n x \<longrightarrow> sl_buffer (sls_data t) ! unat i = x)"
proof -
  have "sl_inv m t"
    by (rule slc.reach_inv [OF assms(3) sl_start_inv [OF assms(1,2)]])
  note inv = sl_invD [OF this]
  show ?thesis
  proof (intro conjI allI impI)
    show "unat h < length (sl_buffer (sls_data t))" if "sls_prod t = SP_Locked x h nh" for x h nh
      using inv(1,2) unfolding that by (simp add: rb_ok_def)
    show "unat i < length (sl_buffer (sls_data t))" if "sls_cons t = SC_Started i n" for i n
      using inv(1,3) unfolding that by (simp add: rb_ok_def)
    show "h \<noteq> i" if "sls_prod t = SP_Locked x h nh" "sls_cons t = SC_Started i n" for x h nh i n
      using inv(2,3) unfolding that by auto
    show "sl_buffer (sls_data t) ! unat i = x" if "sls_cons t = SC_Read i n x" for i n x
      using inv(3) unfolding that by auto
  qed
qed

theorem sl_accesses_safe_witness:
  "let t = sl_demo_start\<lparr>sls_prod := SP_Locked 9 0 1, sls_data := (sl_initial 4)\<lparr>sl_seq := 1\<rparr>\<rparr>
   in (sl_step 3)\<^sup>*\<^sup>* sl_demo_start t \<and> unat (0 :: u64) < length (sl_buffer (sls_data t))"
proof -
  let ?t = "sl_demo_start\<lparr>sls_prod := SP_Locked 9 0 1, sls_data := (sl_initial 4)\<lparr>sl_seq := 1\<rparr>\<rparr>"
  have start: "sl_start 4 sl_demo_start" by (simp add: sl_start_def sl_demo_start_def)
  let ?s1 = "sl_demo_start\<lparr>sls_prod := SP_Loaded 9 0\<rparr>"
  let ?s2 = "?s1\<lparr>sls_prod := SP_Checked 9 0 ((0 + 1) AND 3)\<rparr>"
  have "sl_step 3 sl_demo_start ?s1"
    using sl_enq_load_head [of sl_demo_start 3 9] by (simp add: sl_demo_start_def sl_initial_def)
  moreover have "sl_step 3 ?s1 ?s2"
    by (rule sl_enq_room) (simp_all add: sl_demo_start_def sl_initial_def)
  moreover have "sl_step 3 ?s2 ?t"
    using sl_enq_lock [of ?s2 9 0 1 3] by (simp add: sl_demo_start_def sl_initial_def)
  ultimately have run: "(sl_step 3)\<^sup>*\<^sup>* sl_demo_start ?t"
    by (meson rtranclp.rtrancl_into_rtrancl two_steps)
  have "unat (0 :: u64) < length (sl_buffer (sls_data ?t))"
    by (rule sl_accesses_safe [OF capacity_4(2) start run, THEN conjunct1, THEN spec, THEN spec, THEN spec,
          THEN mp, of 9 0 1]) simp
  with run show ?thesis unfolding Let_def by (rule conjI)
qed

text \<open>Why a \<open>Dequeue\<close> of a non-empty sequence-locked queue may still return false. The
  consumer's attempt ends without an item only when it had loaded \<open>head\<close> while the queue was empty,
  or when the producer is between its two increments, or when the producer has incremented the
  counter since the attempt read it.\<close>

theorem sl_failed_dequeue_cause:
  assumes "sl_inv m s" "sl_step m s t" "sls_cons s \<noteq> SC_Idle" "sls_cons t = SC_Idle"
    "sls_received t = sls_received s"
  shows "sls_cons s = SC_Head (sl_tail (sls_data s)) \<or> sl_writing (sls_prod s) \<or>
    (\<exists>i n x. sls_cons s = SC_Read i n x \<and> n \<noteq> sl_seq (sls_data s))"
  using assms(2)
proof cases
  case (sl_deq_odd i)
  then have "odd (sl_seq (sls_data s))" by (simp add: odd_iff_mod_2_eq_one)
  then show ?thesis using sl_invD(4) [OF assms(1)] by simp
qed (use assms(3,4,5) in auto)

theorem sl_failed_dequeue_cause_witness:
  "let s = sl_demo_start\<lparr>sls_cons := SC_Head 0\<rparr>; t = sl_demo_start
   in sl_step 3 s t \<and> (sls_cons s = SC_Head (sl_tail (sls_data s)) \<or> sl_writing (sls_prod s) \<or>
    (\<exists>i n x. sls_cons s = SC_Read i n x \<and> n \<noteq> sl_seq (sls_data s)))"
proof -
  let ?s = "sl_demo_start\<lparr>sls_cons := SC_Head 0\<rparr>"
  have "sl_inv 3 sl_demo_start"
    by (rule sl_start_inv [OF capacity_4(2)]) (simp add: sl_start_def sl_demo_start_def)
  moreover have "sl_step 3 sl_demo_start (sl_demo_start\<lparr>sls_cons := SC_Head (sl_head (sls_data sl_demo_start))\<rparr>)"
    by (rule sl_deq_load_head) (simp add: sl_demo_start_def)
  then have "sl_step 3 sl_demo_start ?s" by (simp add: sl_demo_start_def sl_initial_def)
  ultimately have inv: "sl_inv 3 ?s" by (rule sl_step_inv)
  have "sl_step 3 ?s (?s\<lparr>sls_cons := SC_Idle\<rparr>)"
    by (rule sl_deq_empty [of _ 0]) (simp_all add: sl_demo_start_def sl_initial_def)
  then have st: "sl_step 3 ?s sl_demo_start" by (simp add: sl_demo_start_def)
  from sl_failed_dequeue_cause [OF inv st] have "sls_cons ?s = SC_Head (sl_tail (sls_data ?s)) \<or>
      sl_writing (sls_prod ?s) \<or> (\<exists>i n x. sls_cons ?s = SC_Read i n x \<and> n \<noteq> sl_seq (sls_data ?s))"
    by (simp add: sl_demo_start_def)
  with st show ?thesis unfolding Let_def by (rule conjI)
qed

text \<open>An operation of the sequence-locked queue whose accesses are not interleaved is
  the sequential function.\<close>

theorem sl_operations_alone:
  "(sls_prod s = SP_Idle \<and> sl_Enqueue m x (sls_data s) = Some (b, q') \<longrightarrow>
     (sl_step m)\<^sup>*\<^sup>* s (s\<lparr>sls_data := q', sls_sent := sls_sent s @ (if b then [x] else [])\<rparr>)) \<and>
   (sls_cons s = SC_Idle \<and> sl_Dequeue m v (sls_data s) = Some (d, y, q'') \<longrightarrow>
     (sl_step m)\<^sup>*\<^sup>* s (s\<lparr>sls_data := q'', sls_received := sls_received s @ (if d then [y] else [])\<rparr>))"
  using sl_enqueue_alone sl_dequeue_alone by blast

theorem sl_operations_alone_witness:
  "(sl_step 3)\<^sup>*\<^sup>* sl_demo_start sl_demo_start"
proof -
  have "sl_Dequeue 3 7 (sls_data sl_demo_start) = Some (False, 7, sls_data sl_demo_start)"
    by (simp add: sl_Dequeue_def sl_demo_start_def sl_initial_def)
  with sl_operations_alone [of sl_demo_start 3 _ _ _ 7 False 7 "sls_data sl_demo_start"]
  show ?thesis by (simp add: sl_demo_start_def)
qed

end
