(* ===== verification/Futex_Signaller.thy ===== *)
theory Futex_Signaller
  imports Shared_Memory Memory_Utils
begin

text \<open>
  \<open>lib/futex/FutexSignaller\<close>: a one-bit signal in shared memory. \<open>Wait\<close> takes the bit or sleeps in
  \<open>FUTEX_WAIT\<close>, in a loop; \<open>Wake\<close> sets the bit and, when it was clear, wakes the sleepers. Any number
  of waiters and wakers interleave at every atomic access and every system call. The kernel's futex
  calls are a parameter; spurious returns of \<open>FUTEX_WAIT\<close> can happen at any time.
\<close>

section \<open>The kernel\<close>

text \<open>
  \<open>fk_blocks word val\<close>: whether \<open>FUTEX_WAIT\<close> with the expected value \<open>val\<close> puts the caller to sleep
  on a futex word of value \<open>word\<close>, instead of failing with \<open>EAGAIN\<close>. \<open>fk_wakes n sleepers\<close>: which of
  the sleeping threads \<open>FUTEX_WAKE\<close> with the limit \<open>n\<close> wakes.
\<close>

record futex_kernel =
  fk_blocks :: "u32 \<Rightarrow> u32 \<Rightarrow> bool"
  fk_wakes :: "nat \<Rightarrow> nat list \<Rightarrow> nat list"

definition INT_MAX :: nat where
  "INT_MAX = 2147483647"

text \<open>The documented behaviour (futex(2)) the class relies on.\<close>

definition futex_laws :: "futex_kernel \<Rightarrow> bool" where
  "futex_laws K \<longleftrightarrow> (\<forall>w v. fk_blocks K w v \<longrightarrow> w = v) \<and>
     (\<forall>n sleepers. set (fk_wakes K n sleepers) \<subseteq> set sleepers \<and>
        (length sleepers \<le> n \<longrightarrow> set (fk_wakes K n sleepers) = set sleepers))"

section \<open>Construction\<close>

datatype futex_role = Waker | Waiter

record futex_handle =
  fh_OwnerPid :: u32
  fh_Role :: futex_role
  fh_SharedMemory :: SharedMemory

definition futex_CreateShmObjectName :: "u32 \<Rightarrow> string \<Rightarrow> string" where
  "futex_CreateShmObjectName ownerPid nameSuffix = ''futex_uid{'' @ dec (unat ownerPid) @ ''}'' @ nameSuffix"

text \<open>Next to the handle, the value a waiter's constructor stores in the futex word.\<close>

definition futex_ctor ::
  "'k posix \<Rightarrow> file_system \<Rightarrow> u32 \<Rightarrow> futex_role \<Rightarrow> string \<Rightarrow> 'k \<Rightarrow> (shm_error + futex_handle \<times> u32 option) \<times> 'k" where
  "futex_ctor P fs ownerPid role nameSuffix k =
     (let ownership = (if role = Waiter then Owner else Borrower);
          bufferInitMode = (if role = Waiter then Init_Zero else Init_NoInit);
          shmObjectName = futex_CreateShmObjectName ownerPid nameSuffix;
          bufferSizeInBytes = GetCacheLineSize fs;
          bufferSizeInBytes = (if bufferSizeInBytes = 0 then 64 else bufferSizeInBytes)
      in case SharedMemory_ctor P bufferSizeInBytes shmObjectName ownership bufferInitMode k of
           (Inl e, k') \<Rightarrow> (Inl e, k')
         | (Inr sm, k') \<Rightarrow>
             (Inr (\<lparr>fh_OwnerPid = ownerPid, fh_Role = role, fh_SharedMemory = sm\<rparr>,
                   if role = Waiter then Some 0 else None), k'))"

section \<open>Waiters and wakers\<close>

text \<open>
  A waiter is outside \<open>Wait\<close>, about to try the compare-and-swap, about to call \<open>FUTEX_WAIT\<close>, or
  asleep in it. A waker is outside \<open>Wake\<close> or, having set the word, about to call \<open>FUTEX_WAKE\<close>.
\<close>

datatype waiter_pc = WT_Outside | WT_Try | WT_Call | WT_Asleep

datatype waker_pc = WK_Outside | WK_Call

text \<open>\<open>fx_signals\<close> counts the successful swaps of \<open>Wake\<close>, \<open>fx_returns\<close> the returns of \<open>Wait\<close>.\<close>

record futex_sys =
  fx_word :: u32
  fx_waiters :: "waiter_pc list"
  fx_wakers :: "waker_pc list"
  fx_signals :: nat
  fx_returns :: nat

definition IsWaiting :: "futex_sys \<Rightarrow> bool" where
  "IsWaiting s \<longleftrightarrow> fx_word s = 0"

definition sleepers :: "waiter_pc list \<Rightarrow> nat list" where
  "sleepers ws = filter (\<lambda>i. ws ! i = WT_Asleep) [0..<length ws]"

definition wake_up :: "nat list \<Rightarrow> waiter_pc list \<Rightarrow> waiter_pc list" where
  "wake_up woken ws = map (\<lambda>(i, w). if i \<in> set woken then WT_Try else w) (zip [0..<length ws] ws)"

inductive futex_step :: "futex_kernel \<Rightarrow> futex_sys \<Rightarrow> futex_sys \<Rightarrow> bool" for K :: futex_kernel where
  wait_enter: "i < length (fx_waiters s) \<Longrightarrow> fx_waiters s ! i = WT_Outside \<Longrightarrow>
     futex_step K s (s\<lparr>fx_waiters := (fx_waiters s)[i := WT_Try]\<rparr>)"
| wait_take: "i < length (fx_waiters s) \<Longrightarrow> fx_waiters s ! i = WT_Try \<Longrightarrow> fx_word s = 1 \<Longrightarrow>
     futex_step K s (s\<lparr>fx_word := 0, fx_waiters := (fx_waiters s)[i := WT_Outside], fx_returns := fx_returns s + 1\<rparr>)"
| wait_not_set: "i < length (fx_waiters s) \<Longrightarrow> fx_waiters s ! i = WT_Try \<Longrightarrow> fx_word s \<noteq> 1 \<Longrightarrow>
     futex_step K s (s\<lparr>fx_waiters := (fx_waiters s)[i := WT_Call]\<rparr>)"
| wait_again: "i < length (fx_waiters s) \<Longrightarrow> fx_waiters s ! i = WT_Call \<Longrightarrow> \<not> fk_blocks K (fx_word s) 0 \<Longrightarrow>
     futex_step K s (s\<lparr>fx_waiters := (fx_waiters s)[i := WT_Try]\<rparr>)"
| wait_sleep: "i < length (fx_waiters s) \<Longrightarrow> fx_waiters s ! i = WT_Call \<Longrightarrow> fk_blocks K (fx_word s) 0 \<Longrightarrow>
     futex_step K s (s\<lparr>fx_waiters := (fx_waiters s)[i := WT_Asleep]\<rparr>)"
| wake_set: "j < length (fx_wakers s) \<Longrightarrow> fx_wakers s ! j = WK_Outside \<Longrightarrow> fx_word s = 0 \<Longrightarrow>
     futex_step K s (s\<lparr>fx_word := 1, fx_wakers := (fx_wakers s)[j := WK_Call], fx_signals := fx_signals s + 1\<rparr>)"
| wake_pending: "j < length (fx_wakers s) \<Longrightarrow> fx_wakers s ! j = WK_Outside \<Longrightarrow> fx_word s \<noteq> 0 \<Longrightarrow>
     futex_step K s s"
| wake_call: "j < length (fx_wakers s) \<Longrightarrow> fx_wakers s ! j = WK_Call \<Longrightarrow>
     futex_step K s (s\<lparr>fx_wakers := (fx_wakers s)[j := WK_Outside],
       fx_waiters := wake_up (fk_wakes K INT_MAX (sleepers (fx_waiters s))) (fx_waiters s)\<rparr>)"

inductive_cases futex_stepE: "futex_step K s t"

text \<open>
  What can happen besides: \<open>FUTEX_WAIT\<close> returns without a wake-up, woken by a signal or failing, and
  the loop goes round.
\<close>

inductive futex_any :: "futex_kernel \<Rightarrow> futex_sys \<Rightarrow> futex_sys \<Rightarrow> bool" for K :: futex_kernel where
  any_step: "futex_step K s t \<Longrightarrow> futex_any K s t"
| any_spurious: "i < length (fx_waiters s) \<Longrightarrow> fx_waiters s ! i \<in> {WT_Call, WT_Asleep} \<Longrightarrow>
     futex_any K s (s\<lparr>fx_waiters := (fx_waiters s)[i := WT_Try]\<rparr>)"

definition futex_start :: "nat \<Rightarrow> nat \<Rightarrow> futex_sys" where
  "futex_start waiters wakers = \<lparr>fx_word = 0, fx_waiters = replicate waiters WT_Outside,
     fx_wakers = replicate wakers WK_Outside, fx_signals = 0, fx_returns = 0\<rparr>"

section \<open>The invariant\<close>

lemma set_sleepers [simp]: "set (sleepers ws) = {i. i < length ws \<and> ws ! i = WT_Asleep}"
  by (auto simp: sleepers_def)

lemma length_sleepers: "length (sleepers ws) \<le> length ws"
  unfolding sleepers_def by (rule order_trans [OF length_filter_le]) simp

lemma length_wake_up [simp]: "length (wake_up woken ws) = length ws"
  by (simp add: wake_up_def)

lemma nth_wake_up: "i < length ws \<Longrightarrow> wake_up woken ws ! i = (if i \<in> set woken then WT_Try else ws ! i)"
  by (simp add: wake_up_def)

text \<open>Nobody sleeps on a set word unless somebody is about to wake all sleepers.\<close>

definition futex_inv :: "futex_sys \<Rightarrow> bool" where
  "futex_inv s \<longleftrightarrow> fx_word s \<in> {0, 1} \<and> fx_signals s = fx_returns s + unat (fx_word s) \<and>
     length (fx_waiters s) \<le> INT_MAX \<and>
     (fx_word s = 1 \<longrightarrow> WT_Asleep \<in> set (fx_waiters s) \<longrightarrow> WK_Call \<in> set (fx_wakers s))"

lemma futex_start_inv: "waiters \<le> INT_MAX \<Longrightarrow> futex_inv (futex_start waiters wakers)"
  by (simp add: futex_inv_def futex_start_def)

lemma asleep_update: "w \<noteq> WT_Asleep \<Longrightarrow> WT_Asleep \<in> set (ws[i := w]) \<Longrightarrow> WT_Asleep \<in> set ws"
  using set_update_subset_insert [of ws i w] by auto

lemma call_stays: "WK_Call \<in> set (ks[j := WK_Call])" if "j < length ks"
  using that by (rule set_update_memI)

text \<open>A call of \<open>FUTEX_WAKE\<close> leaves no sleeper behind.\<close>

lemma wake_up_all:
  assumes "futex_laws K" "length ws \<le> INT_MAX"
  shows "WT_Asleep \<notin> set (wake_up (fk_wakes K INT_MAX (sleepers ws)) ws)"
proof -
  have "length (sleepers ws) \<le> INT_MAX" using length_sleepers assms(2) by (rule order_trans)
  then have woken: "set (fk_wakes K INT_MAX (sleepers ws)) = {i. i < length ws \<and> ws ! i = WT_Asleep}"
    using assms(1) by (simp add: futex_laws_def)
  show ?thesis
    by (auto simp: in_set_conv_nth nth_wake_up woken split: if_splits)
qed

lemma futex_step_inv [inv_steps]:
  assumes "futex_laws K" "futex_inv s" "futex_step K s t"
  shows "futex_inv t"
  using assms(3)
proof cases
  case (wait_sleep i)
  then have "fx_word s = 0" using assms(1) by (auto simp: futex_laws_def)
  then show ?thesis using assms(2) wait_sleep(1) by (simp add: futex_inv_def)
next
  case (wake_call j)
  then show ?thesis
    using assms(2) wake_up_all [OF assms(1), of "fx_waiters s"] by (simp add: futex_inv_def)
qed (use assms(2) in \<open>auto simp: futex_inv_def call_stays dest!: asleep_update [rotated]\<close>)

lemma futex_any_inv [inv_steps]:
  assumes "futex_laws K" "futex_inv s" "futex_any K s t"
  shows "futex_inv t"
  using assms(3)
proof cases
  case any_step
  then show ?thesis by (rule futex_step_inv [OF assms(1,2)])
next
  case (any_spurious i)
  then show ?thesis using assms(2) by (auto simp: futex_inv_def dest!: asleep_update [rotated])
qed

lemma futex_reach_inv:
  assumes "(futex_any K)\<^sup>*\<^sup>* s t" "futex_laws K" "futex_inv s"
  shows "futex_inv t"
  using assms by (induction rule: rtranclp_induct) (auto intro: futex_any_inv)

text \<open>A waiter that is about to try the swap on a set word returns with its next step.\<close>

lemma try_returns:
  assumes "i < length (fx_waiters s)" "fx_waiters s ! i = WT_Try" "fx_word s = 1"
  shows "\<exists>t. futex_step K s t \<and> fx_waiters t ! i = WT_Outside \<and> fx_returns t = fx_returns s + 1"
  using wait_take [OF assms, of K] assms(1)
  by (intro exI [of _ "s\<lparr>fx_word := 0, fx_waiters := (fx_waiters s)[i := WT_Outside], fx_returns := fx_returns s + 1\<rparr>"]) simp

lemma step_then_try:
  assumes "futex_step K s u" "i < length (fx_waiters u)" "fx_waiters u ! i = WT_Try" "fx_word u = 1"
    "fx_returns u = fx_returns s"
  shows "\<exists>n \<le> 2. \<exists>t. (futex_step K ^^ n) s t \<and> fx_waiters t ! i = WT_Outside \<and> fx_returns t = fx_returns s + 1"
proof -
  obtain t where "futex_step K u t" "fx_waiters t ! i = WT_Outside" "fx_returns t = fx_returns u + 1"
    using try_returns [OF assms(2-4)] by blast
  with assms(1,5) have "(futex_step K ^^ 2) s t \<and> fx_waiters t ! i = WT_Outside \<and> fx_returns t = fx_returns s + 1"
    by (auto simp: numeral_2_eq_2)
  then show ?thesis by blast
qed

text \<open>A kernel that blocks exactly when it may and wakes the first \<open>n\<close> sleepers.\<close>

definition fifo_kernel :: futex_kernel where
  "fifo_kernel = \<lparr>fk_blocks = (=), fk_wakes = take\<rparr>"

lemma fifo_kernel_laws: "futex_laws fifo_kernel"
  using set_take_subset by (fastforce simp: futex_laws_def fifo_kernel_def)

section \<open>Properties\<close>

text \<open>Property C30: signals are conserved. Each return of \<open>Wait\<close> consumes exactly one successful
  \<open>Wake\<close>, at most one signal is pending (a \<open>Wake\<close> on a pending signal is dropped), and the word is
  never anything but 0 or 1.\<close>

theorem futex_signals_conserved:
  assumes "futex_laws K" "waiters \<le> INT_MAX" "(futex_any K)\<^sup>*\<^sup>* (futex_start waiters wakers) t"
  shows "fx_signals t = fx_returns t + (if IsWaiting t then 0 else 1) \<and> fx_word t \<in> {0, 1}"
  using futex_reach_inv [OF assms(3,1) futex_start_inv [OF assms(2)]]
  by (auto simp: futex_inv_def IsWaiting_def)

theorem futex_signals_conserved_witness:
  "\<exists>t. (futex_any fifo_kernel)\<^sup>*\<^sup>* (futex_start 1 1) t \<and> fx_signals t = 1 \<and> fx_returns t = 0 \<and> fx_word t \<in> {0, 1}"
proof -
  let ?t = "(futex_start 1 1)\<lparr>fx_word := 1, fx_wakers := [WK_Call], fx_signals := 1\<rparr>"
  have "futex_step fifo_kernel (futex_start 1 1) ?t"
    using wake_set [of 0 "futex_start 1 1" fifo_kernel] by (simp add: futex_start_def)
  then have run: "(futex_any fifo_kernel)\<^sup>*\<^sup>* (futex_start 1 1) ?t"
    by (intro r_into_rtranclp any_step)
  from futex_signals_conserved [OF fifo_kernel_laws _ run] run show ?thesis
    by (intro exI [of _ ?t]) (simp add: INT_MAX_def futex_start_def)
qed

text \<open>Property C13: no wake-up is lost. Whenever the word is set while a waiter sleeps, a waker that has
  set it has yet to call \<open>FUTEX_WAKE\<close>; so once no waker is inside \<open>Wake\<close>, a set word has no sleeper.\<close>

theorem futex_no_lost_wakeup:
  assumes "futex_laws K" "waiters \<le> INT_MAX" "(futex_any K)\<^sup>*\<^sup>* (futex_start waiters wakers) t"
    "fx_word t = 1" "WK_Call \<notin> set (fx_wakers t)"
  shows "WT_Asleep \<notin> set (fx_waiters t)"
  using futex_reach_inv [OF assms(3,1) futex_start_inv [OF assms(2)]] assms(4,5)
  by (auto simp: futex_inv_def)

theorem futex_no_lost_wakeup_witness:
  "let t = (futex_start 1 1)\<lparr>fx_word := 1, fx_signals := 1\<rparr>
   in (futex_any fifo_kernel)\<^sup>*\<^sup>* (futex_start 1 1) t \<and> WT_Asleep \<notin> set (fx_waiters t)"
proof -
  let ?u = "(futex_start 1 1)\<lparr>fx_word := 1, fx_wakers := [WK_Call], fx_signals := 1\<rparr>"
  let ?t = "(futex_start 1 1)\<lparr>fx_word := 1, fx_signals := 1\<rparr>"
  have "futex_step fifo_kernel (futex_start 1 1) ?u"
    using wake_set [of 0 "futex_start 1 1" fifo_kernel] by (simp add: futex_start_def)
  moreover have "futex_step fifo_kernel ?u ?t"
    using wake_call [of 0 ?u fifo_kernel]
    by (simp add: futex_start_def sleepers_def fifo_kernel_def wake_up_def)
  ultimately have run: "(futex_any fifo_kernel)\<^sup>*\<^sup>* (futex_start 1 1) ?t"
    by (meson any_step converse_rtranclp_into_rtranclp r_into_rtranclp)
  have "WT_Asleep \<notin> set (fx_waiters ?t)"
    by (rule futex_no_lost_wakeup [OF fifo_kernel_laws _ run]) (simp_all add: INT_MAX_def futex_start_def)
  with run show ?thesis unfolding Let_def by (rule conjI)
qed

text \<open>Property C29: a signalled waiter returns. Whenever the word is set and a waiter is anywhere inside
  \<open>Wait\<close>, at most two steps take it out of \<open>Wait\<close>, none of them a spurious return of the kernel: the
  pending call of the waker that set the word, if the waiter sleeps, and then its own.\<close>

theorem futex_signalled_wait_returns:
  assumes "futex_laws K" "waiters \<le> INT_MAX" "(futex_any K)\<^sup>*\<^sup>* (futex_start waiters wakers) s"
    "fx_word s = 1" "i < length (fx_waiters s)" "fx_waiters s ! i \<noteq> WT_Outside"
  shows "\<exists>n \<le> 2. \<exists>t. (futex_step K ^^ n) s t \<and> fx_waiters t ! i = WT_Outside \<and> fx_returns t = fx_returns s + 1"
proof -
  have inv: "futex_inv s" by (rule futex_reach_inv [OF assms(3,1) futex_start_inv [OF assms(2)]])
  show ?thesis
  proof (cases "fx_waiters s ! i")
    case WT_Outside
    with assms(6) show ?thesis by simp
  next
    case WT_Try
    obtain t where t: "futex_step K s t" "fx_waiters t ! i = WT_Outside" "fx_returns t = fx_returns s + 1"
      using try_returns [OF assms(5) WT_Try assms(4)] by blast
    have "(futex_step K ^^ 1) s t" unfolding relpowp_1 by (rule t(1))
    with t(2,3) show ?thesis by (meson one_le_numeral)
  next
    case WT_Call
    have "\<not> fk_blocks K (fx_word s) 0"
      using assms(1,4) by (metis futex_laws_def zero_neq_one)
    from step_then_try [OF wait_again [OF assms(5) WT_Call this]] show ?thesis
      using assms(4,5) by simp
  next
    case WT_Asleep
    then have "WT_Asleep \<in> set (fx_waiters s)" using assms(5) by (metis nth_mem)
    then obtain j where j: "j < length (fx_wakers s)" "fx_wakers s ! j = WK_Call"
      using inv assms(4) by (auto simp: futex_inv_def in_set_conv_nth)
    have len: "length (fx_waiters s) \<le> INT_MAX" using inv by (simp add: futex_inv_def)
    have "length (sleepers (fx_waiters s)) \<le> INT_MAX" using length_sleepers len by (rule order_trans)
    then have "i \<in> set (fk_wakes K INT_MAX (sleepers (fx_waiters s)))"
      using assms(1,5) WT_Asleep by (simp add: futex_laws_def)
    with step_then_try [OF wake_call [OF j, of K], of i] show ?thesis
      using assms(4,5) by (simp add: nth_wake_up)
  qed
qed

theorem futex_signalled_wait_returns_witness:
  "let s = \<lparr>fx_word = 1, fx_waiters = [WT_Try], fx_wakers = [WK_Call], fx_signals = 1, fx_returns = 0\<rparr>
   in (futex_any fifo_kernel)\<^sup>*\<^sup>* (futex_start 1 1) s \<and>
      (\<exists>n \<le> 2. \<exists>t. (futex_step fifo_kernel ^^ n) s t \<and> fx_waiters t ! 0 = WT_Outside \<and> fx_returns t = 1)"
proof -
  let ?u = "\<lparr>fx_word = 0, fx_waiters = [WT_Try], fx_wakers = [WK_Outside], fx_signals = 0, fx_returns = 0\<rparr>"
  let ?s = "\<lparr>fx_word = 1, fx_waiters = [WT_Try], fx_wakers = [WK_Call], fx_signals = 1, fx_returns = 0\<rparr>"
  have "futex_step fifo_kernel (futex_start 1 1) ?u"
    using wait_enter [of 0 "futex_start 1 1" fifo_kernel] by (simp add: futex_start_def)
  moreover have "futex_step fifo_kernel ?u ?s"
    using wake_set [of 0 ?u fifo_kernel] by simp
  ultimately have run: "(futex_any fifo_kernel)\<^sup>*\<^sup>* (futex_start 1 1) ?s"
    by (meson any_step converse_rtranclp_into_rtranclp r_into_rtranclp)
  have "1 \<le> INT_MAX" by (simp add: INT_MAX_def)
  from futex_signalled_wait_returns [OF fifo_kernel_laws this run, of 0] run show ?thesis
    by (simp add: Let_def)
qed

text \<open>The waiter's side starts the object unsignalled, the waker's side opens it without touching the word.\<close>

lemma futex_roles:
  assumes "futex_ctor P fs pid role nameSuffix k = (Inr (h, w), k')"
  shows "w = (if role = Waiter then Some 0 else None)"
    "m_Ownership (fh_SharedMemory h) = (if role = Waiter then Owner else Borrower)"
    "shm_GetName (fh_SharedMemory h) = futex_CreateShmObjectName pid nameSuffix"
  using assms ctor_fields
  by (auto simp: futex_ctor_def Let_def shm_GetName_def split: prod.splits sum.splits if_splits)

lemma futex_name_inj:
  assumes "futex_CreateShmObjectName p a = futex_CreateShmObjectName q b"
  shows "p = q \<and> a = b"
  using assms by (simp add: futex_CreateShmObjectName_def dec_delimited_inj word_unat_eq_iff)

end
