(* ===== verification/Matrix_Buffer.thy ===== *)
theory Matrix_Buffer
  imports Shared_Memory
begin

text \<open>
  \<open>lib/matrix-buf/SharedMatrixBuffer\<close>: a matrix of \<open>2 ^ m\<close> by \<open>2 ^ n\<close> 64-bit elements in a shared
  memory object that the client owns and the server borrows. The dimensions are kept in 32 bits and
  multiplied in 32 bits, which is where the size can wrap.
\<close>

section \<open>The class\<close>

datatype Endpoint = Server | Client

datatype MatrixInitMode = Init_Random | Init_ZeroMatrix | Init_NoInitMatrix

record SharedMatrixBuffer =
  mb_OwnerPid :: u32
  mb_Endpoint :: Endpoint
  mb_NumRows :: u32
  mb_NumColumns :: u32
  mb_BufferIndex :: u32
  mb_SharedMemory :: "SharedMemory option"

text \<open>A shift by 64 or more is undefined behaviour; otherwise the constructor can fail like its memory.\<close>

datatype buffer_error = Shift_undefined | Buffer_memory shm_error

text \<open>\<open>1UL << m\<close>, stored in a \<open>uint32_t\<close>.\<close>

definition dimension :: "u32 \<Rightarrow> u32 option" where
  "dimension m = (if m < 64 then Some (ucast (push_bit (unat m) (1 :: u64))) else None)"

definition mb_CreateShmObjectName :: "u32 \<Rightarrow> u32 \<Rightarrow> string \<Rightarrow> string" where
  "mb_CreateShmObjectName ownerPid k nameSuffix =
     ''mat_buff_uid{'' @ dec (unat ownerPid) @ ''}_k{'' @ dec (unat k) @ ''}'' @ nameSuffix"

text \<open>\<open>m_NumRows * m_NumColumns * sizeof(uint64_t)\<close>: a 32-bit product, then a 64-bit one.\<close>

definition buffer_bytes :: "u32 \<Rightarrow> u32 \<Rightarrow> u64" where
  "buffer_bytes rows cols = ucast (rows * cols) * 8"

definition mb_ctor ::
  "'k posix \<Rightarrow> u32 \<Rightarrow> Endpoint \<Rightarrow> u32 \<Rightarrow> u32 \<Rightarrow> u32 \<Rightarrow> MatrixInitMode \<Rightarrow> string \<Rightarrow> 'k \<Rightarrow>
   (buffer_error + SharedMatrixBuffer) \<times> 'k" where
  "mb_ctor P ownerPid endpoint m n k initMode nameSuffix kern =
     (case (dimension m, dimension n) of
        (Some rows, Some cols) \<Rightarrow>
          (case SharedMemory_ctor P (buffer_bytes rows cols) (mb_CreateShmObjectName ownerPid k nameSuffix)
                  (if endpoint = Client then Owner else Borrower)
                  (if initMode = Init_ZeroMatrix then Init_Zero else Init_NoInit) kern of
             (Inl e, kern') \<Rightarrow> (Inl (Buffer_memory e), kern')
           | (Inr sm, kern') \<Rightarrow>
               (Inr \<lparr>mb_OwnerPid = ownerPid, mb_Endpoint = endpoint, mb_NumRows = rows, mb_NumColumns = cols,
                     mb_BufferIndex = k, mb_SharedMemory = Some sm\<rparr>, kern'))
      | _ \<Rightarrow> (Inl Shift_undefined, kern))"

definition mb_GetRawPointer :: "SharedMatrixBuffer \<Rightarrow> u64" where
  "mb_GetRawPointer b = (case mb_SharedMemory b of None \<Rightarrow> 0 | Some sm \<Rightarrow> shm_GetRawPointer sm)"

definition mb_RowCount :: "SharedMatrixBuffer \<Rightarrow> u32" where
  "mb_RowCount b = mb_NumRows b"

definition mb_ColumnCount :: "SharedMatrixBuffer \<Rightarrow> u32" where
  "mb_ColumnCount b = mb_NumColumns b"

definition mb_GetName :: "SharedMatrixBuffer \<Rightarrow> string" where
  "mb_GetName b = (case mb_SharedMemory b of None \<Rightarrow> [] | Some sm \<Rightarrow> shm_GetName sm)"

definition mb_GetElementCount :: "SharedMatrixBuffer \<Rightarrow> u32" where
  "mb_GetElementCount b = mb_NumRows b * mb_NumColumns b"

definition mb_GetBufferSizeInBytes :: "SharedMatrixBuffer \<Rightarrow> u64" where
  "mb_GetBufferSizeInBytes b = (case mb_SharedMemory b of None \<Rightarrow> 0 | Some sm \<Rightarrow> shm_GetBufferSizeInBytes sm)"

text \<open>
  \<open>FillWithRandom\<close> on the elements of the mapped region; \<open>dist\<close> is the stream of numbers the random
  engine delivers.
\<close>

definition mb_FillWithRandom :: "(nat \<Rightarrow> u64) \<Rightarrow> SharedMatrixBuffer \<Rightarrow> u64 list \<Rightarrow> u64 list option" where
  "mb_FillWithRandom dist b region =
     for_loop 0 (ucast (mb_GetElementCount b) :: u64) (\<lambda>i r. arr_write r (unat i) (dist (unat i))) region"

text \<open>What the constructor leaves in the region, given what was in it.\<close>

definition mb_initial_region ::
  "(nat \<Rightarrow> u64) \<Rightarrow> MatrixInitMode \<Rightarrow> SharedMatrixBuffer \<Rightarrow> u64 list \<Rightarrow> u64 list option" where
  "mb_initial_region dist initMode b region =
     (let region1 = (if initMode = Init_ZeroMatrix \<and> mb_Endpoint b = Client
                     then replicate (length region) 0 else region)
      in if initMode = Init_Random then mb_FillWithRandom dist b region1 else Some region1)"

section \<open>Geometry\<close>

lemma dimension_value:
  assumes "m < 64"
  shows "dimension m = Some (if m < 32 then 2 ^ unat m else 0)"
proof -
  have "ucast (push_bit (unat m) (1 :: u64)) = (if m < 32 then 2 ^ unat m else (0 :: u32))"
    by (rule bit_word_eqI)
      (auto simp: bit_ucast_iff bit_push_bit_iff bit_1_iff word_less_nat_alt bit_exp_iff)
  then show ?thesis using assms by (simp add: dimension_def)
qed

text \<open>The product of the two dimensions, in 32 bits.\<close>

lemma dimension_product:
  assumes "m < 64" "n < 64" "dimension m = Some rows" "dimension n = Some cols"
  shows "unat (rows * cols) = (if unat m + unat n < 32 then 2 ^ (unat m + unat n) else 0)"
proof (cases "m < 32 \<and> n < 32")
  case True
  then have eq: "rows * cols = 2 ^ (unat m + unat n)"
    using assms by (simp add: dimension_value power_add)
  show ?thesis
  proof (cases "unat m + unat n < 32")
    case True
    then show ?thesis unfolding eq by (simp add: unat_exp)
  next
    case False
    then have zero: "(2 :: u32) ^ (unat m + unat n) = 0" by (simp add: exp_eq_zero_iff)
    show ?thesis unfolding eq zero using False by simp
  qed
next
  case False
  then have "rows * cols = 0" using assms by (auto simp: dimension_value)
  moreover have "\<not> unat m + unat n < 32" using False by (auto simp: word_less_nat_alt)
  ultimately show ?thesis by simp
qed

lemma buffer_bytes_value:
  assumes "m < 64" "n < 64" "dimension m = Some rows" "dimension n = Some cols"
  shows "unat (buffer_bytes rows cols) = (if unat m + unat n < 32 then 8 * 2 ^ (unat m + unat n) else 0)"
proof -
  have u: "unat (ucast (rows * cols) :: u64) = unat (rows * cols)"
    by simp
  have "unat (rows * cols) < 2 ^ 32" using unsigned_less [of "rows * cols", where 'a = nat] by simp
  then have "unat (ucast (rows * cols) * 8 :: u64) = unat (rows * cols) * 8"
    using u by (subst unat_mult_lem [THEN iffD1]) simp_all
  then show ?thesis
    unfolding buffer_bytes_def using dimension_product [OF assms] by simp
qed

lemma mb_ctor_fields:
  assumes "mb_ctor P pid endpoint m n k mode nameSuffix kern = (Inr b, kern')"
  shows "dimension m = Some (mb_NumRows b)" "dimension n = Some (mb_NumColumns b)"
    "mb_Endpoint b = endpoint" "mb_BufferIndex b = k"
    "mb_GetBufferSizeInBytes b = buffer_bytes (mb_NumRows b) (mb_NumColumns b)"
    "mb_GetName b = mb_CreateShmObjectName pid k nameSuffix"
    "\<exists>sm. mb_SharedMemory b = Some sm \<and> m_Ownership sm = (if endpoint = Client then Owner else Borrower)"
  using assms ctor_fields
  by (auto simp: mb_ctor_def mb_GetBufferSizeInBytes_def mb_GetName_def shm_GetName_def
      shm_GetBufferSizeInBytes_def split: option.splits prod.splits sum.splits)

lemma mb_ctor_small:
  assumes "mb_ctor P pid endpoint m n k mode nameSuffix kern = (Inr b, kern')"
  shows "m < 64" "n < 64"
  using mb_ctor_fields(1,2) [OF assms] by (auto simp: dimension_def split: if_splits)

section \<open>Filling\<close>

lemma fill_random_region:
  assumes "unat (mb_GetElementCount b) \<le> length region"
  shows "\<exists>r. mb_FillWithRandom dist b region = Some r \<and>
    r = map dist [0..<unat (mb_GetElementCount b)] @ drop (unat (mb_GetElementCount b)) region"
proof -
  let ?c = "ucast (mb_GetElementCount b) :: u64"
  have c: "unat ?c = unat (mb_GetElementCount b)" by simp
  let ?Inv = "\<lambda>i r. r = map dist [0..<i] @ drop i region"
  have "\<exists>r. for_loop 0 ?c (\<lambda>i r. arr_write r (unat i) (dist (unat i))) region = Some r \<and> ?Inv (unat ?c) r"
  proof (rule for_loop_rule)
    fix j :: u64 and r
    assume "j < ?c" and r: "?Inv (unat j) r"
    then have j: "unat j < length region" using c assms by (simp add: word_less_nat_alt)
    have "r[unat j := dist (unat j)] = map dist [0..<Suc (unat j)] @ drop (Suc (unat j)) region"
      using r j by (simp add: list_update_append Cons_nth_drop_Suc [symmetric])
    then show "\<exists>s'. arr_write r (unat j) (dist (unat j)) = Some s' \<and> ?Inv (Suc (unat j)) s'"
      using j r by (simp add: mem_simps)
  qed simp_all
  then show ?thesis unfolding mb_FillWithRandom_def c by blast
qed

text \<open>The object behind a buffer, by name and size, and what the constructor makes of its arguments.\<close>

definition mb_object :: "SharedMatrixBuffer \<Rightarrow> string \<times> u64" where
  "mb_object b = (mb_GetName b, mb_GetBufferSizeInBytes b)"

definition object_spec :: "u32 \<Rightarrow> u32 \<Rightarrow> u32 \<Rightarrow> string \<Rightarrow> u32 \<Rightarrow> string \<times> u64" where
  "object_spec pid m n nameSuffix k =
     (mb_CreateShmObjectName pid k nameSuffix, buffer_bytes (the (dimension m)) (the (dimension n)))"

lemma mb_ctor_object:
  assumes "mb_ctor P pid endpoint m n k mode nameSuffix kern = (Inr b, kern')"
  shows "mb_object b = object_spec pid m n nameSuffix k"
  using mb_ctor_fields [OF assms] by (simp add: mb_object_def object_spec_def)

lemma buffer_name_inj:
  assumes "mb_CreateShmObjectName p k a = mb_CreateShmObjectName q l b"
  shows "p = q \<and> k = l \<and> a = b"
  using assms by (simp add: mb_CreateShmObjectName_def dec_delimited_inj word_unat_eq_iff)

section \<open>Properties\<close>

lemma mb_ctor_geometry:
  assumes "mb_ctor P pid endpoint m n k mode nameSuffix kern = (Inr b, kern')"
    "length region = unat (mb_GetBufferSizeInBytes b) div 8"
  shows "unat (mb_GetElementCount b) = (if unat m + unat n < 32 then 2 ^ unat m * 2 ^ unat n else 0)"
    "unat (mb_GetBufferSizeInBytes b) = 8 * unat (mb_GetElementCount b)"
    "unat m + unat n < 32 \<longrightarrow> unat (mb_RowCount b) = 2 ^ unat m \<and> unat (mb_ColumnCount b) = 2 ^ unat n"
    "mb_FillWithRandom dist b region = Some (map dist [0..<length region])"
proof -
  note dims = mb_ctor_small [OF assms(1)] mb_ctor_fields(1,2) [OF assms(1)]
  show count: "unat (mb_GetElementCount b) = (if unat m + unat n < 32 then 2 ^ unat m * 2 ^ unat n else 0)"
    using dimension_product [OF dims] by (simp add: mb_GetElementCount_def power_add)
  show bytes: "unat (mb_GetBufferSizeInBytes b) = 8 * unat (mb_GetElementCount b)"
    using buffer_bytes_value [OF dims] count mb_ctor_fields(5) [OF assms(1)] by (simp add: power_add)
  show "unat m + unat n < 32 \<longrightarrow> unat (mb_RowCount b) = 2 ^ unat m \<and> unat (mb_ColumnCount b) = 2 ^ unat n"
  proof
    assume small: "unat m + unat n < 32"
    then have "m < 32" "n < 32" by (simp_all add: word_less_nat_alt)
    then have "mb_NumRows b = 2 ^ unat m" "mb_NumColumns b = 2 ^ unat n"
      using dims(3,4) dimension_value [OF dims(1)] dimension_value [OF dims(2)] by simp_all
    then show "unat (mb_RowCount b) = 2 ^ unat m \<and> unat (mb_ColumnCount b) = 2 ^ unat n"
      using small by (simp add: mb_RowCount_def mb_ColumnCount_def unat_exp)
  qed
  have "unat (mb_GetElementCount b) = length region" using assms(2) bytes by simp
  then show "mb_FillWithRandom dist b region = Some (map dist [0..<length region])"
    using fill_random_region [of b region dist] by simp
qed

text \<open>A buffer the constructor has made for \<open>m + n < 32\<close> is an exact \<open>2 ^ m\<close> by \<open>2 ^ n\<close>
  matrix: the counts agree, the object has 8 bytes for every element, and \<open>FillWithRandom\<close> writes
  exactly the elements of the region. From \<open>m + n = 32\<close> on the 32-bit product wraps to 0: the object
  gets 0 bytes, and the buffer claims 0 elements.\<close>

theorem buffer_geometry:
  assumes "mb_ctor P pid endpoint m n k mode nameSuffix kern = (Inr b, kern')"
    "length region = unat (mb_GetBufferSizeInBytes b) div 8"
  shows "unat (mb_GetElementCount b) = (if unat m + unat n < 32 then 2 ^ unat m * 2 ^ unat n else 0) \<and>
    unat (mb_GetBufferSizeInBytes b) = 8 * unat (mb_GetElementCount b) \<and>
    (unat m + unat n < 32 \<longrightarrow> unat (mb_RowCount b) = 2 ^ unat m \<and> unat (mb_ColumnCount b) = 2 ^ unat n) \<and>
    mb_FillWithRandom dist b region = Some (map dist [0..<length region])"
  using mb_ctor_geometry [OF assms] by blast

theorem buffer_geometry_witness:
  "case mb_ctor (list_kernel 4096) 7 Client 1 2 0 Init_Random [] [] of
     (Inr b, kern') \<Rightarrow> unat (mb_GetElementCount b) = 8 \<and>
       mb_FillWithRandom of_nat b (replicate 8 0) = Some (map of_nat [0..<8])
   | (Inl e, kern') \<Rightarrow> False"
proof -
  obtain b kern' where c: "mb_ctor (list_kernel 4096) 7 Client 1 2 0 Init_Random [] [] = (Inr b, kern')"
    by (simp add: mb_ctor_def dimension_value SharedMemory_ctor_def list_kernel_def map_object_def Let_def
        MAP_FAILED_def)
  have "unat (mb_GetBufferSizeInBytes b) = 64"
    using buffer_bytes_value [OF mb_ctor_small [OF c] mb_ctor_fields(1,2) [OF c]] mb_ctor_fields(5) [OF c]
    by simp
  then have "length (replicate 8 (0 :: u64)) = unat (mb_GetBufferSizeInBytes b) div 8" by simp
  note geo = buffer_geometry [OF c this, of of_nat]
  have "unat (mb_GetElementCount b) = 8" using geo [THEN conjunct1] by simp
  moreover have "mb_FillWithRandom of_nat b (replicate 8 0) = Some (map of_nat [0..<8])"
    using geo by (simp only: length_replicate)
  ultimately show ?thesis unfolding c by (simp only: prod.case sum.case simp_thms)
qed

end
