(* ===== verification/Client_Stats.thy ===== *)
theory Client_Stats
  imports Prelude
begin

text \<open>
  \<open>lib/stats/ClientStats\<close>: the request timer of the client and of the server. Time points are the
  nanosecond counts of the clock; the totals are 64-bit and wrap.
\<close>

record ClientStats =
  st_startTime :: int
  st_endTime :: int
  st_TotalElapsedTimeUs :: u64
  st_TotalRequests :: u64

definition new_stats :: ClientStats where
  "new_stats = \<lparr>st_startTime = 0, st_endTime = 0, st_TotalElapsedTimeUs = 0, st_TotalRequests = 0\<rparr>"

text \<open>\<open>now\<close> is what \<open>Clock::now()\<close> returns.\<close>

definition StartTimer :: "int \<Rightarrow> ClientStats \<Rightarrow> ClientStats" where
  "StartTimer now s = s\<lparr>st_startTime := now\<rparr>"

definition StopTimer :: "int \<Rightarrow> ClientStats \<Rightarrow> ClientStats" where
  "StopTimer now s =
     s\<lparr>st_endTime := now, st_TotalRequests := st_TotalRequests s + 1,
       st_TotalElapsedTimeUs := st_TotalElapsedTimeUs s + word_of_int (now - st_startTime s)\<rparr>"

definition GetTotalRequests :: "ClientStats \<Rightarrow> u64" where
  "GetTotalRequests s = st_TotalRequests s"

definition GetAverageElapsedTimeUs :: "ClientStats \<Rightarrow> u64" where
  "GetAverageElapsedTimeUs s =
     (if st_TotalRequests s = 0 then 0 else st_TotalElapsedTimeUs s div st_TotalRequests s)"

text \<open>A run of timed requests, each given by the clock at its start and at its end.\<close>

fun timed_requests :: "(int \<times> int) list \<Rightarrow> ClientStats \<Rightarrow> ClientStats" where
  "timed_requests [] s = s"
| "timed_requests ((t0, t1) # ts) s = timed_requests ts (StopTimer t1 (StartTimer t0 s))"

lemma timed_totals:
  "st_TotalElapsedTimeUs (timed_requests ts s) = st_TotalElapsedTimeUs s + word_of_int (\<Sum>(t0, t1) \<leftarrow> ts. t1 - t0)"
  "st_TotalRequests (timed_requests ts s) = st_TotalRequests s + of_nat (length ts)"
  by (induction ts s rule: timed_requests.induct) (simp_all add: StopTimer_def StartTimer_def algebra_simps)

text \<open>After any number of timed requests the statistics report that number and the
  truncated mean of their durations in nanoseconds, as long as the sum of the durations fits 64 bits.\<close>

theorem stats_average:
  assumes "\<forall>(t0, t1) \<in> set ts. t0 \<le> t1" "(\<Sum>(t0, t1) \<leftarrow> ts. t1 - t0) < 2 ^ 64" "length ts < 2 ^ 64"
  shows "unat (GetTotalRequests (timed_requests ts new_stats)) = length ts"
    "uint (GetAverageElapsedTimeUs (timed_requests ts new_stats)) =
       (if ts = [] then 0 else (\<Sum>(t0, t1) \<leftarrow> ts. t1 - t0) div int (length ts))"
proof -
  let ?sum = "\<Sum>(t0, t1) \<leftarrow> ts. t1 - t0"
  have pos: "0 \<le> ?sum" using assms(1) by (intro sum_list_nonneg) auto
  have n: "unat (of_nat (length ts) :: u64) = length ts"
    using assms(3) by (simp add: unsigned_of_nat take_bit_nat_eq_self)
  have total: "uint (word_of_int ?sum :: u64) = ?sum"
    using pos assms(2) by (simp add: unsigned_of_int take_bit_int_eq_self)
  show "unat (GetTotalRequests (timed_requests ts new_stats)) = length ts"
    by (simp add: GetTotalRequests_def timed_totals new_stats_def n)
  have n': "uint (of_nat (length ts) :: u64) = int (length ts)"
    using assms(3) by (simp add: unsigned_of_nat take_bit_nat_eq_self)
  have zero: "(of_nat (length ts) :: u64) = 0 \<longleftrightarrow> ts = []"
    unfolding word_uint_eq_iff n' by simp
  have avg: "GetAverageElapsedTimeUs (timed_requests ts new_stats) =
      (if ts = [] then 0 else word_of_int ?sum div of_nat (length ts))"
    by (simp add: GetAverageElapsedTimeUs_def timed_totals new_stats_def zero)
  show "uint (GetAverageElapsedTimeUs (timed_requests ts new_stats)) =
      (if ts = [] then 0 else ?sum div int (length ts))"
    unfolding avg by (simp add: uint_div total n')
qed

theorem stats_average_witness:
  "uint (GetAverageElapsedTimeUs (timed_requests [(10, 15), (20, 40)] new_stats)) = 12"
  using stats_average(2) [of "[(10, 15), (20, 40)]"] by simp

end
