(* ===== verification/Table.thy ===== *)
theory Table
  imports Prelude
begin

text \<open>
  \<open>lib/presentation/Table.h\<close>: a text table. Cells are strings; \<open>render\<close> first widens every column to
  its longest cell, then prints header and rows between ruled lines.
\<close>

record table =
  tb_title :: string
  tb_footer :: string
  tb_headers :: "string list"
  tb_rows :: "string list list"
  tb_columnWidths :: "nat list"
  tb_maxRows :: nat

definition new_table :: "string \<Rightarrow> string list \<Rightarrow> nat \<Rightarrow> string \<Rightarrow> table" where
  "new_table title headers maxRows footer =
     \<lparr>tb_title = title, tb_footer = footer, tb_headers = headers, tb_rows = [], tb_columnWidths = [],
      tb_maxRows = maxRows\<rparr>"

text \<open>A full table drops the row (and prints an error).\<close>

definition addRow :: "string list \<Rightarrow> table \<Rightarrow> table" where
  "addRow row t = (if length (tb_rows t) < tb_maxRows t then t\<lparr>tb_rows := tb_rows t @ [row]\<rparr> else t)"

definition clear :: "table \<Rightarrow> table" where
  "clear t = t\<lparr>tb_rows := []\<rparr>"

definition column_width :: "string list list \<Rightarrow> string \<Rightarrow> nat \<Rightarrow> nat" where
  "column_width rows header i =
     fold (\<lambda>row w. if i < length row then max w (length (row ! i)) else w) rows (length header)"

definition calculateColumnWidths :: "table \<Rightarrow> table" where
  "calculateColumnWidths t =
     t\<lparr>tb_columnWidths :=
        map (\<lambda>i. column_width (tb_rows t) (tb_headers t ! i) i) [0..<length (tb_headers t)]\<rparr>"

fun line_cells :: "char \<Rightarrow> char \<Rightarrow> nat list \<Rightarrow> string" where
  "line_cells fill middle [] = []"
| "line_cells fill middle [w] = replicate (w + 2) fill"
| "line_cells fill middle (w # w' # ws) = replicate (w + 2) fill @ middle # line_cells fill middle (w' # ws)"

definition createLine :: "char \<Rightarrow> char \<Rightarrow> char \<Rightarrow> char \<Rightarrow> table \<Rightarrow> string" where
  "createLine left fill middle right t = left # line_cells fill middle (tb_columnWidths t) @ [right]"

text \<open>\<open>std::setw(w) << std::left\<close> pads on the right and never cuts.\<close>

definition padded :: "nat \<Rightarrow> string \<Rightarrow> string" where
  "padded w s = s @ replicate (w - length s) CHR '' ''"

definition createRow :: "string list \<Rightarrow> table \<Rightarrow> string" where
  "createRow row t =
     ''|'' @ concat (map (\<lambda>i. '' '' @ padded (tb_columnWidths t ! i) (if i < length row then row ! i else []) @ '' |'')
       [0..<length (tb_columnWidths t)])"

text \<open>The lines \<open>render\<close> prints between title and footer, and the whole output.\<close>

definition ruled_lines :: "table \<Rightarrow> string list" where
  "ruled_lines t =
     (let rule = createLine CHR ''+'' CHR ''-'' CHR ''+'' CHR ''+'' t
      in rule # createRow (tb_headers t) t # rule # map (\<lambda>row. createRow row t) (tb_rows t) @ [rule])"

definition render :: "table \<Rightarrow> string \<times> table" where
  "render t =
     (let t = calculateColumnWidths t;
          output = tb_title t @ [CHR 0x0A] @ concat (map (\<lambda>l. l @ [CHR 0x0A]) (ruled_lines t));
          output = (if tb_footer t \<noteq> [] then output @ tb_footer t @ [CHR 0x0A] else output)
      in (output, t))"

lemma column_width_header: "length header \<le> column_width rows header i"
proof -
  have "w \<le> fold (\<lambda>row w. if i < length row then max w (length (row ! i)) else w) rows w" for w
    by (induction rows arbitrary: w) (auto intro: order_trans max.cobounded1)
  then show ?thesis by (simp add: column_width_def)
qed

lemma column_width_row:
  assumes "row \<in> set rows" "i < length row"
  shows "length (row ! i) \<le> column_width rows header i"
proof -
  let ?f = "\<lambda>row w. if i < length row then max w (length (row ! i)) else w"
  have mono: "w \<le> fold ?f rs w" for rs w
    by (induction rs arbitrary: w) (auto intro: order_trans max.cobounded1)
  have "length (row ! i) \<le> fold ?f rows w" for w
    using assms(1)
  proof (induction rows arbitrary: w)
    case (Cons r rs)
    then show ?case
      using assms(2) mono [of "max w (length (row ! i))" rs] by (cases "row = r") auto
  qed simp
  then show ?thesis by (simp add: column_width_def)
qed

lemma length_line_cells: "ws \<noteq> [] \<Longrightarrow> length (line_cells fill middle ws) + 1 = (\<Sum>w \<leftarrow> ws. w + 3)"
  by (induction fill middle ws rule: line_cells.induct) simp_all

lemma length_createLine:
  "tb_columnWidths t \<noteq> [] \<Longrightarrow> length (createLine a b c d t) = 1 + (\<Sum>w \<leftarrow> tb_columnWidths t. w + 3)"
  using length_line_cells [of "tb_columnWidths t" b c] by (simp add: createLine_def)

lemma length_createRow:
  assumes "\<forall>i < length (tb_columnWidths t). i < length row \<longrightarrow> length (row ! i) \<le> tb_columnWidths t ! i"
  shows "length (createRow row t) = 1 + (\<Sum>w \<leftarrow> tb_columnWidths t. w + 3)"
proof -
  let ?ws = "tb_columnWidths t"
  have "length (createRow row t) =
      1 + (\<Sum>i \<leftarrow> [0..<length ?ws]. 3 + length (padded (?ws ! i) (if i < length row then row ! i else [])))"
    by (simp add: createRow_def length_concat comp_def numeral_3_eq_3)
  also have "(\<Sum>i \<leftarrow> [0..<length ?ws]. 3 + length (padded (?ws ! i) (if i < length row then row ! i else []))) =
      (\<Sum>i \<leftarrow> [0..<length ?ws]. ?ws ! i + 3)"
    using assms by (intro arg_cong [where f = sum_list] map_cong) (auto simp: padded_def)
  also have "\<dots> = (\<Sum>w \<leftarrow> ?ws. w + 3)"
    by (intro arg_cong [where f = sum_list] nth_equalityI) simp_all
  finally show ?thesis .
qed

text \<open>A rendered table with at least one column is rectangular: the three rules, the
  header and every row, whatever their cells and however many of them a row has, are equally long.\<close>

theorem table_rectangular:
  assumes "tb_headers t \<noteq> []" "l \<in> set (ruled_lines (snd (render t)))" "l' \<in> set (ruled_lines (snd (render t)))"
  shows "length l = length l'"
proof -
  let ?t = "calculateColumnWidths t"
  have t: "snd (render t) = ?t" by (simp add: render_def Let_def)
  have ne: "tb_columnWidths ?t \<noteq> []" using assms(1) by (simp add: calculateColumnWidths_def)
  have "length l = 1 + (\<Sum>w \<leftarrow> tb_columnWidths ?t. w + 3)" if mem: "l \<in> set (ruled_lines ?t)" for l
  proof -
    consider "l = createLine CHR ''+'' CHR ''-'' CHR ''+'' CHR ''+'' ?t" | "l = createRow (tb_headers ?t) ?t"
      | row where "row \<in> set (tb_rows ?t)" "l = createRow row ?t"
      using mem by (auto simp: ruled_lines_def Let_def)
    then show ?thesis
    proof cases
      case 1
      then show ?thesis using length_createLine [OF ne] by simp
    next
      case 2
      have "length (createRow (tb_headers ?t) ?t) = 1 + (\<Sum>w \<leftarrow> tb_columnWidths ?t. w + 3)"
        by (rule length_createRow) (simp add: calculateColumnWidths_def column_width_header)
      then show ?thesis using 2 by simp
    next
      case 3
      have "length (createRow row ?t) = 1 + (\<Sum>w \<leftarrow> tb_columnWidths ?t. w + 3)"
        using 3(1) by (intro length_createRow) (simp add: calculateColumnWidths_def column_width_row)
      then show ?thesis using 3(2) by simp
    qed
  qed
  with assms(2,3) show ?thesis unfolding t by simp
qed

theorem table_rectangular_witness:
  "length (createRow [''longer''] (calculateColumnWidths (addRow [''longer''] (new_table ''t'' [''a''] 1 [])))) =
   length (createRow [''a''] (calculateColumnWidths (addRow [''longer''] (new_table ''t'' [''a''] 1 []))))"
  by (rule table_rectangular [of "addRow [''longer''] (new_table ''t'' [''a''] 1 [])"])
    (simp_all add: render_def Let_def ruled_lines_def addRow_def new_table_def calculateColumnWidths_def)

text \<open>The row limit holds whatever is added.\<close>

lemma addRow_limit: "length (tb_rows t) \<le> tb_maxRows t \<Longrightarrow> length (tb_rows (addRow r t)) \<le> tb_maxRows (addRow r t)"
  by (simp add: addRow_def)

end
