(* ===== verification/Unix_Sock_Ipc.thy ===== *)
theory Unix_Sock_Ipc
  imports Prelude
begin

text \<open>
  \<open>lib/unix-socks\<close>: the templates \<open>UnixSockIpcBase\<close>, \<open>UnixSockIpcServer\<close> and \<open>UnixSockIpcClient\<close>.
  The socket and epoll calls are a parameter over a kernel state; the message type \<open>T\<close> is a parameter
  given by its size and its object representation (locale \<open>message_codec\<close>). One definition handles one
  epoll event, as the body of the event loop does, with every call that changes state.
\<close>

section \<open>Sockets\<close>

datatype recv_result = Got "u8 list" | Again | Failed

record 'k sock =
  sk_socket :: "'k \<Rightarrow> int \<times> 'k"
  sk_remove :: "string \<Rightarrow> 'k \<Rightarrow> 'k"
  sk_bind :: "int \<Rightarrow> string \<Rightarrow> 'k \<Rightarrow> int \<times> 'k"
  sk_listen :: "int \<Rightarrow> int \<Rightarrow> 'k \<Rightarrow> int \<times> 'k"
  sk_connect :: "int \<Rightarrow> string \<Rightarrow> 'k \<Rightarrow> int \<times> 'k"
  sk_accept :: "int \<Rightarrow> 'k \<Rightarrow> int \<times> 'k"
  sk_epoll_create :: "'k \<Rightarrow> int \<times> 'k"
  sk_epoll_add :: "int \<Rightarrow> int \<Rightarrow> 'k \<Rightarrow> int \<times> 'k"
  sk_epoll_del :: "int \<Rightarrow> int \<Rightarrow> 'k \<Rightarrow> 'k"
  sk_close :: "int \<Rightarrow> 'k \<Rightarrow> 'k"
  sk_recv :: "int \<Rightarrow> nat \<Rightarrow> 'k \<Rightarrow> recv_result \<times> 'k"
  sk_send :: "int \<Rightarrow> u8 list \<Rightarrow> 'k \<Rightarrow> int \<times> 'k"

text \<open>An entry of the array \<open>epoll_wait\<close> fills: \<open>ev_hup\<close> is \<open>events & (EPOLLHUP | EPOLLERR | EPOLLRDHUP)\<close>.\<close>

record epoll_entry =
  ev_fd :: int
  ev_hup :: bool
  ev_in :: bool

text \<open>
  What the code relies on (socket(2), accept(2), close(2)): a call that makes a descriptor returns a
  fresh one, \<open>close\<close> frees it, the other calls open and close nothing.
\<close>

definition opens_fd :: "('k \<Rightarrow> int set) \<Rightarrow> ('k \<Rightarrow> int \<times> 'k) \<Rightarrow> bool" where
  "opens_fd fds f \<longleftrightarrow> (\<forall>k r k'. f k = (r, k') \<longrightarrow>
     (if r < 0 then fds k' = fds k else r \<notin> fds k \<and> fds k' = insert r (fds k)))"

definition keeps_fds :: "('k \<Rightarrow> int set) \<Rightarrow> ('k \<Rightarrow> 'r \<times> 'k) \<Rightarrow> bool" where
  "keeps_fds fds f \<longleftrightarrow> (\<forall>k r k'. f k = (r, k') \<longrightarrow> fds k' = fds k)"

definition fd_laws :: "'k sock \<Rightarrow> ('k \<Rightarrow> int set) \<Rightarrow> bool" where
  "fd_laws S fds \<longleftrightarrow>
     opens_fd fds (sk_socket S) \<and> opens_fd fds (sk_epoll_create S) \<and> (\<forall>b. opens_fd fds (sk_accept S b)) \<and>
     (\<forall>fd a. keeps_fds fds (sk_bind S fd a)) \<and> (\<forall>fd a. keeps_fds fds (sk_connect S fd a)) \<and>
     (\<forall>fd n. keeps_fds fds (sk_listen S fd n)) \<and> (\<forall>e fd. keeps_fds fds (sk_epoll_add S e fd)) \<and>
     (\<forall>fd bs. keeps_fds fds (sk_send S fd bs)) \<and> (\<forall>fd n. keeps_fds fds (sk_recv S fd n)) \<and>
     (\<forall>e fd k. fds (sk_epoll_del S e fd k) = fds k) \<and> (\<forall>a k. fds (sk_remove S a k) = fds k) \<and>
     (\<forall>fd k. fds (sk_close S fd k) = fds k - {fd})"

text \<open>
  \<open>arrived k fd\<close> is the byte stream that has arrived on \<open>fd\<close> and is not yet read. \<open>recv\<close> without
  blocking hands out a non-empty piece of it, of at most the requested length, whenever there is one
  (recv(2)).
\<close>

definition recv_laws :: "'k sock \<Rightarrow> ('k \<Rightarrow> int \<Rightarrow> u8 list) \<Rightarrow> bool" where
  "recv_laws S arrived \<longleftrightarrow>
     (\<forall>fd n k. 0 < n \<longrightarrow> arrived k fd \<noteq> [] \<longrightarrow>
        (\<exists>bs k'. sk_recv S fd n k = (Got bs, k') \<and> bs \<noteq> [] \<and> length bs \<le> n \<and> arrived k fd = bs @ arrived k' fd))"

section \<open>UnixSockIpcBase\<close>

text \<open>The errors the constructors throw, in the order of their checks.\<close>

datatype sock_error =
    Address_too_long
  | Socket_failed
  | Bind_failed
  | Listen_failed
  | Connect_failed
  | Epoll_create_failed
  | Epoll_add_failed

definition SUN_PATH_SIZE :: nat where
  "SUN_PATH_SIZE = 108"

text \<open>The constructor; next to the socket it returns the path \<open>strncpy\<close> leaves in the zeroed \<open>sun_path\<close>.\<close>

definition base_ctor :: "'k sock \<Rightarrow> string \<Rightarrow> bool \<Rightarrow> 'k \<Rightarrow> (sock_error + int \<times> string) \<times> 'k" where
  "base_ctor S address instanceIsServer k =
     (if length address \<ge> SUN_PATH_SIZE - 1 then (Inl Address_too_long, k)
      else (case sk_socket S k of (fd, k1) \<Rightarrow>
              if fd < 0 then (Inl Socket_failed, k1)
              else (Inr (fd, takeWhile (\<lambda>c. c \<noteq> CHR 0x00) (take (SUN_PATH_SIZE - 1) address)),
                    if instanceIsServer then sk_remove S address k1 else k1)))"

section \<open>UnixSockIpcServer\<close>

text \<open>
  The server: its descriptors, the connection counter, the receive buffer of its thread, the kernel,
  the application state the message handler works on, and the handler calls made so far.
\<close>

record ('k, 'm, 'h) server =
  sv_BaseSocketFd :: int
  sv_epollFd :: int
  sv_ConnectionCount :: u32
  sv_buffer :: "u8 list"
  sv_kernel :: 'k
  sv_app :: 'h
  sv_calls :: "(int \<times> 'm) list"

definition server_ctor :: "'k sock \<Rightarrow> string \<Rightarrow> 'k \<Rightarrow> (sock_error + int \<times> int) \<times> 'k" where
  "server_ctor S address k =
     (case base_ctor S address True k of
        (Inl e, k1) \<Rightarrow> (Inl e, k1)
      | (Inr (fd, path), k1) \<Rightarrow>
          (case sk_bind S fd path k1 of (r, k2) \<Rightarrow>
             if r < 0 then (Inl Bind_failed, sk_close S fd k2)
             else (case sk_listen S fd 16 k2 of (r, k3) \<Rightarrow>
               if r < 0 then (Inl Listen_failed, sk_close S fd k3)
               else (case sk_epoll_create S k3 of (ep, k4) \<Rightarrow>
                 if ep < 0 then (Inl Epoll_create_failed, sk_close S fd k4)
                 else (case sk_epoll_add S ep fd k4 of (r, k5) \<Rightarrow>
                   if r < 0 then (Inl Epoll_add_failed, sk_close S fd k5)
                   else (Inr (fd, ep), k5))))))"

definition server_dtor :: "'k sock \<Rightarrow> string \<Rightarrow> int \<Rightarrow> int \<Rightarrow> 'k \<Rightarrow> 'k" where
  "server_dtor S address fd ep k = sk_remove S address (sk_close S fd (sk_close S ep k))"

definition server_Send :: "'k sock \<Rightarrow> ('m \<Rightarrow> u8 list) \<Rightarrow> bool \<Rightarrow> int \<Rightarrow> 'm \<Rightarrow> 'k \<Rightarrow> 'k" where
  "server_Send S encode running fd message k =
     (if \<not> running then k else snd (sk_send S fd (encode message) k))"

definition put_bytes :: "u8 list \<Rightarrow> nat \<Rightarrow> u8 list \<Rightarrow> u8 list" where
  "put_bytes buffer i bs = take i buffer @ bs @ drop (i + length bs) buffer"

datatype recv_end = Recv_done | Recv_failed

text \<open>
  The receive loop, shared by server and client. \<open>running i\<close> is what the test of \<open>m_Running\<close> reads
  when \<open>i\<close> iterations are left; without fuel the loop has not returned.
\<close>

fun recv_loop ::
  "'k sock \<Rightarrow> int \<Rightarrow> nat \<Rightarrow> (nat \<Rightarrow> bool) \<Rightarrow> nat \<Rightarrow> nat \<Rightarrow> u8 list \<Rightarrow> 'k \<Rightarrow> (recv_end \<times> u8 list \<times> 'k) option" where
  "recv_loop S fd sizeT running 0 totalRead buffer k = None"
| "recv_loop S fd sizeT running (Suc fuel) totalRead buffer k =
     (if totalRead < sizeT \<and> running fuel then
        (case sk_recv S fd (sizeT - totalRead) k of
           (Again, k') \<Rightarrow> recv_loop S fd sizeT running fuel totalRead buffer k'
         | (Failed, k') \<Rightarrow> Some (Recv_failed, buffer, k')
         | (Got bs, k') \<Rightarrow>
             recv_loop S fd sizeT running fuel (totalRead + length bs) (put_bytes buffer totalRead bs) k')
      else Some (Recv_done, buffer, k))"

text \<open>The call of the message handler on the buffer, after the receive loop.\<close>

definition call_handler ::
  "(u8 list \<Rightarrow> 'm) \<Rightarrow> (int \<Rightarrow> 'm \<Rightarrow> 'k \<times> 'h \<Rightarrow> 'k \<times> 'h) \<Rightarrow> int \<Rightarrow> ('k, 'm, 'h) server \<Rightarrow> ('k, 'm, 'h) server" where
  "call_handler decode handler fd s =
     (case handler fd (decode (sv_buffer s)) (sv_kernel s, sv_app s) of (k, h) \<Rightarrow>
        s\<lparr>sv_kernel := k, sv_app := h, sv_calls := sv_calls s @ [(fd, decode (sv_buffer s))]\<rparr>)"

text \<open>Dropping a client: \<open>epoll_ctl(EPOLL_CTL_DEL)\<close>, \<open>close\<close>, and the counter.\<close>

definition drop_client :: "'k sock \<Rightarrow> int \<Rightarrow> ('k, 'm, 'h) server \<Rightarrow> ('k, 'm, 'h) server" where
  "drop_client S fd s =
     s\<lparr>sv_kernel := sk_close S fd (sk_epoll_del S (sv_epollFd s) fd (sv_kernel s)),
       sv_ConnectionCount := sv_ConnectionCount s - 1\<rparr>"

text \<open>
  One event of the server's loop. After a failed \<open>recv\<close> the \<open>break\<close> leaves the receive loop only, so
  the handler is called on whatever the buffer holds.
\<close>

definition server_event ::
  "'k sock \<Rightarrow> nat \<Rightarrow> (u8 list \<Rightarrow> 'm) \<Rightarrow> (int \<Rightarrow> 'm \<Rightarrow> 'k \<times> 'h \<Rightarrow> 'k \<times> 'h) \<Rightarrow> (nat \<Rightarrow> bool) \<Rightarrow> nat \<Rightarrow>
   epoll_entry \<Rightarrow> ('k, 'm, 'h) server \<Rightarrow> ('k, 'm, 'h) server option" where
  "server_event S sizeT decode handler running fuel ev s =
     (if ev_fd ev = sv_BaseSocketFd s then
        (case sk_accept S (sv_BaseSocketFd s) (sv_kernel s) of (clientSocket, k1) \<Rightarrow>
           if clientSocket < 0 then Some (s\<lparr>sv_kernel := k1\<rparr>)
           else Some (s\<lparr>sv_kernel := snd (sk_epoll_add S (sv_epollFd s) clientSocket k1),
                        sv_ConnectionCount := sv_ConnectionCount s + 1\<rparr>))
      else if ev_hup ev then Some (drop_client S (ev_fd ev) s)
      else if ev_in ev then
        (case recv_loop S (ev_fd ev) sizeT running fuel 0 (sv_buffer s) (sv_kernel s) of
           None \<Rightarrow> None
         | Some (Recv_done, buffer, k1) \<Rightarrow>
             Some (call_handler decode handler (ev_fd ev) (s\<lparr>sv_buffer := buffer, sv_kernel := k1\<rparr>))
         | Some (Recv_failed, buffer, k1) \<Rightarrow>
             Some (call_handler decode handler (ev_fd ev)
                     (drop_client S (ev_fd ev) (s\<lparr>sv_buffer := buffer, sv_kernel := k1\<rparr>))))
      else Some s)"

text \<open>The events of one \<open>epoll_wait\<close>, and the loop over what a sequence of its calls returns.\<close>

datatype wait_result = Wait_failed | Events "epoll_entry list"

fun server_loop ::
  "'k sock \<Rightarrow> nat \<Rightarrow> (u8 list \<Rightarrow> 'm) \<Rightarrow> (int \<Rightarrow> 'm \<Rightarrow> 'k \<times> 'h \<Rightarrow> 'k \<times> 'h) \<Rightarrow> (nat \<Rightarrow> bool) \<Rightarrow> nat \<Rightarrow>
   wait_result list \<Rightarrow> ('k, 'm, 'h) server \<Rightarrow> ('k, 'm, 'h) server option" where
  "server_loop S sizeT decode handler running fuel [] s = Some s"
| "server_loop S sizeT decode handler running fuel (Wait_failed # ws) s = Some s"
| "server_loop S sizeT decode handler running fuel (Events evs # ws) s =
     (case fold_opt (server_event S sizeT decode handler running fuel) evs s of
        None \<Rightarrow> None
      | Some s' \<Rightarrow> server_loop S sizeT decode handler running fuel ws s')"

definition GetConnectionCount :: "('k, 'm, 'h) server \<Rightarrow> u32" where
  "GetConnectionCount s = sv_ConnectionCount s"

text \<open>After the loop the thread closes the clients that still report events.\<close>

fun server_drain :: "'k sock \<Rightarrow> epoll_entry list list \<Rightarrow> ('k, 'm, 'h) server \<Rightarrow> ('k, 'm, 'h) server" where
  "server_drain S [] s = s"
| "server_drain S ([] # _) s = s"
| "server_drain S ((ev # evs) # bs) s =
     server_drain S bs
       (fold (\<lambda>ev s. if ev_fd ev \<noteq> sv_BaseSocketFd s
              then s\<lparr>sv_kernel := sk_close S (ev_fd ev) (sk_epoll_del S (sv_epollFd s) (ev_fd ev) (sv_kernel s))\<rparr>
              else s) (ev # evs) s)"

section \<open>UnixSockIpcClient\<close>

record ('k, 'm, 'h) client =
  cl_BaseSocketFd :: int
  cl_epollFd :: int
  cl_ConnectionCount :: u32
  cl_Running :: bool
  cl_buffer :: "u8 list"
  cl_kernel :: 'k
  cl_app :: 'h
  cl_calls :: "'m list"

text \<open>The accessors of the base class, for the client.\<close>

definition client_GetConnectionCount :: "('k, 'm, 'h) client \<Rightarrow> u32" where
  "client_GetConnectionCount c = cl_ConnectionCount c"

definition IsRunning :: "('k, 'm, 'h) client \<Rightarrow> bool" where
  "IsRunning c = cl_Running c"

definition client_ctor :: "'k sock \<Rightarrow> string \<Rightarrow> 'k \<Rightarrow> (sock_error + int \<times> int) \<times> 'k" where
  "client_ctor S address k =
     (case base_ctor S address False k of
        (Inl e, k1) \<Rightarrow> (Inl e, k1)
      | (Inr (fd, path), k1) \<Rightarrow>
          (case sk_connect S fd path k1 of (r, k2) \<Rightarrow>
             if r < 0 then (Inl Connect_failed, sk_close S fd k2)
             else (case sk_epoll_create S k2 of (ep, k3) \<Rightarrow>
               if ep < 0 then (Inl Epoll_create_failed, sk_close S fd k3)
               else (case sk_epoll_add S ep fd k3 of (r, k4) \<Rightarrow>
                 if r < 0 then (Inl Epoll_add_failed, sk_close S fd k4)
                 else (Inr (fd, ep), k4)))))"

definition client_dtor :: "'k sock \<Rightarrow> int \<Rightarrow> int \<Rightarrow> 'k \<Rightarrow> 'k" where
  "client_dtor S fd ep k = sk_close S fd (sk_close S ep k)"

text \<open>\<open>Send\<close> throws when the communicator is not running (\<open>None\<close>).\<close>

definition client_Send :: "'k sock \<Rightarrow> ('m \<Rightarrow> u8 list) \<Rightarrow> bool \<Rightarrow> int \<Rightarrow> 'm \<Rightarrow> 'k \<Rightarrow> 'k option" where
  "client_Send S encode running fd message k =
     (if \<not> running then None else Some (snd (sk_send S fd (encode message) k)))"

text \<open>A failed \<open>epoll_wait\<close>, a hang-up and a failed \<open>recv\<close> stop the client's thread.\<close>

definition client_stop :: "'k sock \<Rightarrow> int \<Rightarrow> ('k, 'm, 'h) client \<Rightarrow> ('k, 'm, 'h) client" where
  "client_stop S fd c =
     c\<lparr>cl_kernel := sk_epoll_del S (cl_epollFd c) fd (cl_kernel c),
       cl_ConnectionCount := cl_ConnectionCount c - 1, cl_Running := False\<rparr>"

definition client_event ::
  "'k sock \<Rightarrow> nat \<Rightarrow> (u8 list \<Rightarrow> 'm) \<Rightarrow> ('m \<Rightarrow> 'h \<Rightarrow> 'h) \<Rightarrow> (nat \<Rightarrow> bool) \<Rightarrow> nat \<Rightarrow>
   epoll_entry \<Rightarrow> ('k, 'm, 'h) client \<Rightarrow> ('k, 'm, 'h) client option" where
  "client_event S sizeT decode handler running fuel ev c =
     (if ev_hup ev then Some (client_stop S (ev_fd ev) c)
      else if ev_in ev then
        (case recv_loop S (ev_fd ev) sizeT running fuel 0 (cl_buffer c) (cl_kernel c) of
           None \<Rightarrow> None
         | Some (Recv_failed, buffer, k1) \<Rightarrow>
             Some (client_stop S (ev_fd ev) (c\<lparr>cl_buffer := buffer, cl_kernel := k1\<rparr>))
         | Some (Recv_done, buffer, k1) \<Rightarrow>
             Some (c\<lparr>cl_buffer := buffer, cl_kernel := k1, cl_app := handler (decode buffer) (cl_app c),
                     cl_calls := cl_calls c @ [decode buffer]\<rparr>))
      else Some c)"

text \<open>The client's loop over what \<open>epoll_wait\<close> returns: at most one event a call.\<close>

fun client_loop ::
  "'k sock \<Rightarrow> nat \<Rightarrow> (u8 list \<Rightarrow> 'm) \<Rightarrow> ('m \<Rightarrow> 'h \<Rightarrow> 'h) \<Rightarrow> (nat \<Rightarrow> bool) \<Rightarrow> nat \<Rightarrow>
   epoll_entry option option list \<Rightarrow> ('k, 'm, 'h) client \<Rightarrow> ('k, 'm, 'h) client option" where
  "client_loop S sizeT decode handler running fuel [] c = Some c"
| "client_loop S sizeT decode handler running fuel (w # ws) c =
     (if \<not> cl_Running c then Some c
      else (case w of
              None \<Rightarrow> Some (c\<lparr>cl_Running := False\<rparr>)
            | Some None \<Rightarrow> client_loop S sizeT decode handler running fuel ws c
            | Some (Some ev) \<Rightarrow>
                (case client_event S sizeT decode handler running fuel ev c of
                   None \<Rightarrow> None
                 | Some c' \<Rightarrow> client_loop S sizeT decode handler running fuel ws c')))"

section \<open>Receiving\<close>

lemma length_put_bytes: "i + length bs \<le> length buffer \<Longrightarrow> length (put_bytes buffer i bs) = length buffer"
  by (simp add: put_bytes_def)

lemma take_put_bytes:
  "i + length bs \<le> length buffer \<Longrightarrow> take (i + length bs) (put_bytes buffer i bs) = take i buffer @ bs"
  by (simp add: put_bytes_def)

text \<open>
  When the rest of a message has arrived, the loop returns with the message in the buffer, however
  \<open>recv\<close> cuts it into pieces, and it needs one iteration a byte at most.
\<close>

lemma recv_complete:
  assumes "recv_laws S arrived" "\<forall>i. running i"
  shows "length buffer = sizeT \<Longrightarrow> got \<le> sizeT \<Longrightarrow> sizeT - got \<le> length (arrived k fd) \<Longrightarrow>
    sizeT - got < fuel \<Longrightarrow>
    \<exists>k'. recv_loop S fd sizeT running fuel got buffer k =
        Some (Recv_done, take got buffer @ take (sizeT - got) (arrived k fd), k') \<and>
      arrived k' fd = drop (sizeT - got) (arrived k fd)"
proof (induction fuel arbitrary: got buffer k)
  case 0
  then show ?case by simp
next
  case (Suc fuel)
  show ?case
  proof (cases "got < sizeT")
    case False
    with Suc.prems show ?thesis by simp
  next
    case True
    then have "0 < sizeT - got" "arrived k fd \<noteq> []" using Suc.prems(3) by auto
    then obtain bs k' where bs: "sk_recv S fd (sizeT - got) k = (Got bs, k')" "bs \<noteq> []"
        "length bs \<le> sizeT - got" "arrived k fd = bs @ arrived k' fd"
      using assms(1) unfolding recv_laws_def by blast
    have fit: "got + length bs \<le> length buffer" using bs(3) True Suc.prems(1) by simp
    have pos: "0 < length bs" using bs(2) by simp
    have "\<exists>k''. recv_loop S fd sizeT running fuel (got + length bs) (put_bytes buffer got bs) k' =
        Some (Recv_done, take (got + length bs) (put_bytes buffer got bs) @
          take (sizeT - (got + length bs)) (arrived k' fd), k'') \<and>
        arrived k'' fd = drop (sizeT - (got + length bs)) (arrived k' fd)"
    proof (rule Suc.IH)
      show "length (put_bytes buffer got bs) = sizeT" "got + length bs \<le> sizeT"
        using fit Suc.prems(1) by (simp_all add: length_put_bytes)
      show "sizeT - (got + length bs) \<le> length (arrived k' fd)"
        using Suc.prems(3) unfolding bs(4) by simp
      show "sizeT - (got + length bs) < fuel"
        using Suc.prems(4) pos True by linarith
    qed
    moreover have "bs @ take (sizeT - (got + length bs)) (arrived k' fd) = take (sizeT - got) (arrived k fd)"
      "drop (sizeT - (got + length bs)) (arrived k' fd) = drop (sizeT - got) (arrived k fd)"
      using bs(3,4) by simp_all
    moreover have "running fuel" using assms(2) by blast
    ultimately show ?thesis
      using True bs(1) fit by (simp add: take_put_bytes)
  qed
qed

text \<open>A peer that is silent or has closed its end keeps the loop going.\<close>

lemma recv_spins:
  assumes "\<forall>n. sk_recv S fd n k \<in> {(Got [], k), (Again, k)}" "\<forall>i. running i" "got < sizeT"
  shows "recv_loop S fd sizeT running fuel got buffer k = None"
  using assms(3)
proof (induction fuel arbitrary: buffer)
  case (Suc fuel)
  have "put_bytes buffer got [] = buffer" by (simp add: put_bytes_def)
  with Suc assms(1,2) show ?case
    by (auto dest: spec [of _ "sizeT - got"])
qed simp

section \<open>Messages\<close>

text \<open>
  What the templates rely on for \<open>T\<close>: an object representation of \<open>sizeof(T)\<close> bytes that reading
  back gives the same value.
\<close>

locale message_codec =
  fixes encode :: "'m \<Rightarrow> u8 list"
    and decode :: "u8 list \<Rightarrow> 'm"
    and sizeT :: nat
  assumes encode_length: "length (encode msg) = sizeT"
    and decode_encode: "decode (encode msg) = msg"
    and sizeT_pos: "0 < sizeT"
begin

lemma event_delivers:
  assumes "recv_laws S arrived" "\<forall>i. running i" "sizeT < fuel"
    and keeps: "\<forall>fd msg k h. arrived (fst (handler fd msg (k, h))) = arrived k"
    and ev: "ev_fd ev \<noteq> sv_BaseSocketFd s" "\<not> ev_hup ev" "ev_in ev"
    and buf: "length (sv_buffer s) = sizeT"
    and arr: "arrived (sv_kernel s) (ev_fd ev) = encode msg @ rest"
  shows "\<exists>s'. server_event S sizeT decode handler running fuel ev s = Some s' \<and>
    sv_calls s' = sv_calls s @ [(ev_fd ev, msg)] \<and> arrived (sv_kernel s') (ev_fd ev) = rest \<and>
    length (sv_buffer s') = sizeT \<and> sv_BaseSocketFd s' = sv_BaseSocketFd s"
proof -
  have "sizeT - 0 \<le> length (arrived (sv_kernel s) (ev_fd ev))" using arr encode_length by simp
  from recv_complete [OF assms(1,2) buf _ this] assms(3)
  obtain k' where k': "recv_loop S (ev_fd ev) sizeT running fuel 0 (sv_buffer s) (sv_kernel s) =
      Some (Recv_done, encode msg, k')" "arrived k' (ev_fd ev) = rest"
    using arr encode_length by fastforce
  then have "server_event S sizeT decode handler running fuel ev s =
      Some (call_handler decode handler (ev_fd ev) (s\<lparr>sv_buffer := encode msg, sv_kernel := k'\<rparr>))"
    using ev by (simp add: server_event_def)
  moreover obtain k2 h2 where h: "handler (ev_fd ev) msg (k', sv_app s) = (k2, h2)" by force
  moreover have "arrived k2 (ev_fd ev) = rest" using keeps k'(2) h by (metis fst_conv)
  ultimately show ?thesis
    using encode_length decode_encode by (simp add: call_handler_def)
qed

text \<open>
  A stream of messages is delivered message by message, whatever pieces \<open>recv\<close> hands out.
\<close>

lemma stream_delivers:
  assumes "recv_laws S arrived" "\<forall>i. running i" "sizeT < fuel"
    and keeps: "\<forall>fd msg k h. arrived (fst (handler fd msg (k, h))) = arrived k"
    and ev: "ev_fd ev \<noteq> sv_BaseSocketFd s" "\<not> ev_hup ev" "ev_in ev"
    and buf: "length (sv_buffer s) = sizeT"
    and arr: "arrived (sv_kernel s) (ev_fd ev) = concat (map encode msgs) @ rest"
  shows "\<exists>s'. fold_opt (server_event S sizeT decode handler running fuel) (replicate (length msgs) ev) s = Some s' \<and>
    sv_calls s' = sv_calls s @ map (Pair (ev_fd ev)) msgs \<and> arrived (sv_kernel s') (ev_fd ev) = rest"
  using ev(1) buf arr
proof (induction msgs arbitrary: s)
  case (Cons msg msgs)
  have "arrived (sv_kernel s) (ev_fd ev) = encode msg @ concat (map encode msgs) @ rest"
    using Cons.prems(3) by simp
  from event_delivers [OF assms(1-3) keeps Cons.prems(1) ev(2,3) Cons.prems(2) this]
  obtain s1 where s1: "server_event S sizeT decode handler running fuel ev s = Some s1"
      "sv_calls s1 = sv_calls s @ [(ev_fd ev, msg)]"
      "arrived (sv_kernel s1) (ev_fd ev) = concat (map encode msgs) @ rest"
      "length (sv_buffer s1) = sizeT" "sv_BaseSocketFd s1 = sv_BaseSocketFd s"
    by blast
  with Cons.IH [of s1] Cons.prems(1) show ?case by auto
qed simp

end

section \<open>Descriptors\<close>

lemma fd_opens:
  assumes "fd_laws S fds"
  shows "sk_socket S k = (r, k') \<Longrightarrow> if r < 0 then fds k' = fds k else r \<notin> fds k \<and> fds k' = insert r (fds k)"
    and "sk_epoll_create S k = (r, k') \<Longrightarrow> if r < 0 then fds k' = fds k else r \<notin> fds k \<and> fds k' = insert r (fds k)"
    and "sk_accept S b k = (r, k') \<Longrightarrow> if r < 0 then fds k' = fds k else r \<notin> fds k \<and> fds k' = insert r (fds k)"
  using assms by (simp_all add: fd_laws_def opens_fd_def)

lemma fd_keeps:
  assumes "fd_laws S fds"
  shows "sk_bind S fd a k = (r, k') \<Longrightarrow> fds k' = fds k" "sk_connect S fd a k = (r, k') \<Longrightarrow> fds k' = fds k"
    "sk_listen S fd n k = (r, k') \<Longrightarrow> fds k' = fds k" "sk_epoll_add S e fd k = (r, k') \<Longrightarrow> fds k' = fds k"
    "sk_recv S fd m k = (rr, k') \<Longrightarrow> fds k' = fds k"
  using assms by (simp_all add: fd_laws_def keeps_fds_def)

lemma fd_frees:
  assumes "fd_laws S fds"
  shows "fds (sk_close S fd k) = fds k - {fd}" "fds (sk_epoll_del S e fd k) = fds k" "fds (sk_remove S a k) = fds k"
  using assms by (simp_all add: fd_laws_def)

lemma base_ctor_fds:
  assumes "fd_laws S fds" "base_ctor S address srv k = (r, k')"
  shows "case r of Inl e \<Rightarrow> fds k' = fds k \<and> e \<in> {Address_too_long, Socket_failed}
    | Inr (fd, path) \<Rightarrow> fd \<notin> fds k \<and> fds k' = insert fd (fds k)"
proof -
  obtain fd k1 where so: "sk_socket S k = (fd, k1)" by force
  show ?thesis
    using assms(2) so fd_opens(1) [OF assms(1) so] fd_frees(3) [OF assms(1)]
    by (auto simp: base_ctor_def split: if_splits)
qed

lemma recv_loop_fds:
  assumes "fd_laws S fds"
  shows "recv_loop S fd sizeT running fuel got buffer k = Some (e, buffer', k') \<Longrightarrow> fds k' = fds k"
proof (induction fuel arbitrary: got buffer k)
  case (Suc fuel)
  obtain r k1 where rv: "sk_recv S fd (sizeT - got) k = (r, k1)" by force
  have "fds k1 = fds k" by (rule fd_keeps(5) [OF assms rv])
  with Suc rv show ?case by (auto split: if_splits recv_result.splits)
qed simp

text \<open>The invariant of the connection counter: it counts the clients' open descriptors, \<open>B\<close> being the others.\<close>

definition connections_ok :: "('k \<Rightarrow> int set) \<Rightarrow> int set \<Rightarrow> ('k, 'm, 'h) server \<Rightarrow> bool" where
  "connections_ok fds B s \<longleftrightarrow> finite (fds (sv_kernel s)) \<and> B \<subseteq> fds (sv_kernel s) \<and> sv_BaseSocketFd s \<in> B \<and>
     sv_ConnectionCount s = of_nat (card (fds (sv_kernel s) - B))"

lemma drop_client_ok:
  assumes "fd_laws S fds" "connections_ok fds B s" "fd \<in> fds (sv_kernel s) - B"
  shows "connections_ok fds B (drop_client S fd s)"
proof -
  let ?F = "fds (sv_kernel s)" and ?t = "drop_client S fd s"
  have fin: "finite ?F" and sub: "B \<subseteq> ?F" and base: "sv_BaseSocketFd s \<in> B"
    and cnt: "sv_ConnectionCount s = of_nat (card (?F - B))"
    using assms(2) by (simp_all add: connections_ok_def)
  have F: "fds (sv_kernel ?t) = ?F - {fd}"
    using fd_frees(1,2) [OF assms(1)] by (simp add: drop_client_def)
  have "card (?F - B) = Suc (card (?F - B - {fd}))"
    using fin assms(3) by (intro card.remove) simp_all
  moreover have "?F - {fd} - B = ?F - B - {fd}" by blast
  ultimately have "sv_ConnectionCount ?t = of_nat (card (?F - {fd} - B))"
    using cnt by (simp add: drop_client_def)
  moreover have "B \<subseteq> ?F - {fd}" using sub assms(3) by blast
  ultimately show ?thesis
    unfolding connections_ok_def F using fin base by (simp add: drop_client_def)
qed

lemma call_handler_ok:
  assumes "\<forall>fd msg k h. fds (fst (handler fd msg (k, h))) = fds k" "connections_ok fds B s"
  shows "connections_ok fds B (call_handler decode handler fd s)"
proof -
  obtain k h where kh: "handler fd (decode (sv_buffer s)) (sv_kernel s, sv_app s) = (k, h)" by force
  then have "fds k = fds (sv_kernel s)" using assms(1) by (metis fst_conv)
  with assms(2) kh show ?thesis by (simp add: connections_ok_def call_handler_def)
qed

lemma server_event_ok:
  assumes "fd_laws S fds" "\<forall>fd msg k h. fds (fst (handler fd msg (k, h))) = fds k" "connections_ok fds B s"
    "ev_fd ev = sv_BaseSocketFd s \<or> ev_fd ev \<in> fds (sv_kernel s) - B"
    "server_event S sizeT decode handler running fuel ev s = Some t"
  shows "connections_ok fds B t"
proof (cases "ev_fd ev = sv_BaseSocketFd s")
  case True
  obtain c k1 where ac: "sk_accept S (sv_BaseSocketFd s) (sv_kernel s) = (c, k1)" by force
  obtain r k2 where ad: "sk_epoll_add S (sv_epollFd s) c k1 = (r, k2)" by force
  note k1 = fd_opens(3) [OF assms(1) ac] and k2 = fd_keeps(4) [OF assms(1) ad]
  show ?thesis
  proof (cases "c < 0")
    case True
    then show ?thesis
      using assms(3,5) \<open>ev_fd ev = sv_BaseSocketFd s\<close> ac k1 by (auto simp: server_event_def connections_ok_def)
  next
    case False
    then have new: "c \<notin> fds (sv_kernel s)" "fds k2 = insert c (fds (sv_kernel s))" using k1 k2 by auto
    have t: "t = s\<lparr>sv_kernel := k2, sv_ConnectionCount := sv_ConnectionCount s + 1\<rparr>"
      using assms(5) True ac ad False by (simp add: server_event_def)
    have "fds k2 - B = insert c (fds (sv_kernel s) - B)" using new assms(3) by (auto simp: connections_ok_def)
    moreover have "c \<notin> fds (sv_kernel s) - B" using new(1) by blast
    ultimately have "card (fds k2 - B) = Suc (card (fds (sv_kernel s) - B))"
      using assms(3) by (simp add: connections_ok_def)
    then show ?thesis using assms(3) new unfolding t by (auto simp: connections_ok_def)
  qed
next
  case False
  then have cl: "ev_fd ev \<in> fds (sv_kernel s) - B" using assms(4) by blast
  have rl: "connections_ok fds B (s\<lparr>sv_buffer := buffer, sv_kernel := k1\<rparr>)" "fds k1 = fds (sv_kernel s)"
    if "recv_loop S (ev_fd ev) sizeT running fuel 0 (sv_buffer s) (sv_kernel s) = Some (e, buffer, k1)"
    for e buffer k1
    using assms(3) recv_loop_fds [OF assms(1) that] by (simp_all add: connections_ok_def)
  show ?thesis
    using assms(5) False cl rl drop_client_ok [OF assms(1,3)] drop_client_ok [OF assms(1) rl(1)]
      call_handler_ok [OF assms(2)] assms(3)
    by (auto simp: server_event_def split: if_splits option.splits recv_end.splits prod.splits)
qed

text \<open>
  One reaction of the server's thread: the kernel has moved on in the meantime without touching the
  descriptors, and \<open>epoll_wait\<close> reports the listening socket or an open client (epoll_wait(2)).
\<close>

inductive server_reacts ::
  "'k sock \<Rightarrow> ('k \<Rightarrow> int set) \<Rightarrow> int set \<Rightarrow> nat \<Rightarrow> (u8 list \<Rightarrow> 'm) \<Rightarrow> (int \<Rightarrow> 'm \<Rightarrow> 'k \<times> 'h \<Rightarrow> 'k \<times> 'h) \<Rightarrow>
   ('k, 'm, 'h) server \<Rightarrow> ('k, 'm, 'h) server \<Rightarrow> bool"
  for S fds B sizeT decode handler where
  "fds k = fds (sv_kernel s) \<Longrightarrow> ev_fd ev = sv_BaseSocketFd s \<or> ev_fd ev \<in> fds (sv_kernel s) - B \<Longrightarrow>
   server_event S sizeT decode handler running fuel ev (s\<lparr>sv_kernel := k\<rparr>) = Some t \<Longrightarrow>
   server_reacts S fds B sizeT decode handler s t"

definition server_start :: "int \<Rightarrow> int \<Rightarrow> u8 list \<Rightarrow> 'k \<Rightarrow> 'h \<Rightarrow> ('k, 'm, 'h) server" where
  "server_start fd ep buffer k app =
     \<lparr>sv_BaseSocketFd = fd, sv_epollFd = ep, sv_ConnectionCount = 0, sv_buffer = buffer, sv_kernel = k,
      sv_app = app, sv_calls = []\<rparr>"

lemma server_reacts_ok:
  assumes "fd_laws S fds" "\<forall>fd msg k h. fds (fst (handler fd msg (k, h))) = fds k"
    "connections_ok fds B s" "server_reacts S fds B sizeT decode handler s t"
  shows "connections_ok fds B t"
  using assms(4)
proof cases
  case (1 k ev running fuel)
  have "connections_ok fds B (s\<lparr>sv_kernel := k\<rparr>)" using assms(3) 1(1) by (simp add: connections_ok_def)
  from server_event_ok [OF assms(1,2) this _ 1(3)] 1(1,2) show ?thesis by simp
qed

lemma server_ctor_fds:
  assumes "fd_laws S fds" "server_ctor S address k = (r, k')"
  shows "case r of
      Inr (fd, ep) \<Rightarrow> fd \<notin> fds k \<and> ep \<notin> fds k \<and> fd \<noteq> ep \<and> fds k' = {fd, ep} \<union> fds k \<and>
        fds (server_dtor S address fd ep k') = fds k
    | Inl e \<Rightarrow> if e = Epoll_add_failed then \<exists>ep. ep \<notin> fds k \<and> fds k' = insert ep (fds k) else fds k' = fds k"
proof -
  obtain r0 k1 where b: "base_ctor S address True k = (r0, k1)" by force
  note fb = base_ctor_fds [OF assms(1) b]
  show ?thesis
  proof (cases r0)
    case (Inl e)
    then show ?thesis using assms(2) b fb by (auto simp: server_ctor_def)
  next
    case (Inr p)
    obtain fd path where p: "p = (fd, path)" by force
    have fd: "fd \<notin> fds k" "fds k1 = insert fd (fds k)" using fb Inr p by auto
    obtain rb k2 where bi: "sk_bind S fd path k1 = (rb, k2)" by force
    obtain rl k3 where li: "sk_listen S fd 16 k2 = (rl, k3)" by force
    obtain ep k4 where ec: "sk_epoll_create S k3 = (ep, k4)" by force
    obtain ra k5 where ea: "sk_epoll_add S ep fd k4 = (ra, k5)" by force
    have k3: "fds k2 = fds k1" "fds k3 = fds k1"
      using fd_keeps(1) [OF assms(1) bi] fd_keeps(3) [OF assms(1) li] by simp_all
    have k4: "if ep < 0 then fds k4 = fds k3 else ep \<notin> fds k3 \<and> fds k4 = insert ep (fds k3)"
      by (rule fd_opens(2) [OF assms(1) ec])
    have k5: "fds k5 = fds k4" by (rule fd_keeps(4) [OF assms(1) ea])
    show ?thesis
      using assms(2) b Inr p bi li ec ea fd k3 k4 k5 fd_frees(1,3) [OF assms(1)]
      by (auto simp: server_ctor_def server_dtor_def split: if_splits)
  qed
qed

lemma server_ctor_base:
  assumes "fd_laws S fds" "server_ctor S address k = (Inr (fd, ep), k')"
  shows "fd \<in> fds k'" "finite (fds k) \<Longrightarrow> finite (fds k')"
  using server_ctor_fds [OF assms] by auto

section \<open>A kernel for the witnesses\<close>

text \<open>
  The open descriptors and the bytes that have arrived; \<open>recv\<close> hands out at most three bytes at a time,
  and \<open>peerClosed\<close> says whether an empty stream reads as the end of file.
\<close>

definition open_new :: "int list \<times> u8 list \<Rightarrow> int \<times> int list \<times> u8 list" where
  "open_new k = (let fd = fold max (fst k) 2 + 1 in (fd, fd # fst k, snd k))"

definition demo_sock :: "bool \<Rightarrow> (int list \<times> u8 list) sock" where
  "demo_sock peerClosed =
     \<lparr>sk_socket = open_new, sk_remove = (\<lambda>a k. k), sk_bind = (\<lambda>fd a k. (0, k)), sk_listen = (\<lambda>fd n k. (0, k)),
      sk_connect = (\<lambda>fd a k. (0, k)), sk_accept = (\<lambda>b. open_new), sk_epoll_create = open_new,
      sk_epoll_add = (\<lambda>e fd k. (0, k)), sk_epoll_del = (\<lambda>e fd k. k),
      sk_close = (\<lambda>fd (l, bs). (removeAll fd l, bs)),
      sk_recv = (\<lambda>fd n (l, bs). if bs = [] then ((if peerClosed then Got [] else Again), (l, bs))
        else (Got (take (min 3 n) bs), (l, drop (min 3 n) bs))),
      sk_send = (\<lambda>fd bs k. (0, k))\<rparr>"

definition demo_fds :: "int list \<times> u8 list \<Rightarrow> int set" where
  "demo_fds k = set (fst k)"

definition demo_arrived :: "int list \<times> u8 list \<Rightarrow> int \<Rightarrow> u8 list" where
  "demo_arrived k fd = snd k"

lemma fold_max_ge: "(a :: int) \<le> fold max l a \<and> (\<forall>x \<in> set l. x \<le> fold max l a)"
  by (induction l arbitrary: a) (auto, (meson max.bounded_iff order_trans)+)

lemma open_new_opens: "opens_fd demo_fds open_new"
proof -
  have "fold max l 2 + 1 \<notin> set l \<and> \<not> fold max l (2 :: int) + 1 < 0" for l
    using fold_max_ge [of 2 l] by force
  then show ?thesis by (auto simp: opens_fd_def open_new_def demo_fds_def Let_def)
qed

lemma demo_fd_laws: "fd_laws (demo_sock b) demo_fds"
  by (auto simp: fd_laws_def demo_sock_def open_new_opens keeps_fds_def demo_fds_def split: if_splits prod.splits)

lemma demo_recv_laws: "recv_laws (demo_sock b) demo_arrived"
  by (auto simp: recv_laws_def demo_sock_def demo_arrived_def split: prod.splits)

section \<open>Properties\<close>

text \<open>The server's constructor leaks no socket. On success exactly its socket and its epoll
  descriptor are open in addition, and the destructor closes both; on failure everything is as before,
  except that a failed \<open>epoll_ctl\<close> leaves the epoll descriptor open.\<close>

theorem server_ctor_descriptors:
  assumes "fd_laws S fds" "server_ctor S address k = (r, k')"
  shows "case r of
      Inr (fd, ep) \<Rightarrow> fd \<notin> fds k \<and> ep \<notin> fds k \<and> fd \<noteq> ep \<and> fds k' = {fd, ep} \<union> fds k \<and>
        fds (server_dtor S address fd ep k') = fds k
    | Inl e \<Rightarrow> if e = Epoll_add_failed then \<exists>ep. ep \<notin> fds k \<and> fds k' = insert ep (fds k) else fds k' = fds k"
  by (rule server_ctor_fds [OF assms])

theorem server_ctor_descriptors_witness:
  "case server_ctor (demo_sock False) ''/tmp/s'' ([3], []) of (Inr (fd, ep), k') \<Rightarrow>
      demo_fds k' = {fd, ep} \<union> {3} \<and> demo_fds (server_dtor (demo_sock False) ''/tmp/s'' fd ep k') = {3}
    | (Inl e, k') \<Rightarrow> False"
proof -
  obtain fd ep k' where c: "server_ctor (demo_sock False) ''/tmp/s'' ([3], []) = (Inr (fd, ep), k')"
    by (simp add: server_ctor_def base_ctor_def demo_sock_def open_new_def SUN_PATH_SIZE_def Let_def)
  from server_ctor_descriptors [OF demo_fd_laws c] show ?thesis by (simp add: c) (auto simp: demo_fds_def)
qed

text \<open>An address is accepted exactly when it has fewer than 107 characters (and a socket
  can be made), and the path the server binds is then the whole address, not a truncation of it.\<close>

theorem address_never_truncated:
  assumes "CHR 0x00 \<notin> set address" "base_ctor S address isServer k = (r, k')"
  shows "case r of Inr (fd, path) \<Rightarrow> path = address \<and> length address < 107
    | Inl e \<Rightarrow> (e = Address_too_long \<longleftrightarrow> 107 \<le> length address) \<and> (e = Address_too_long \<longrightarrow> k' = k)"
  using assms
  by (auto simp: base_ctor_def SUN_PATH_SIZE_def takeWhile_eq_all_conv split: if_splits prod.splits dest: in_set_takeD)

theorem address_never_truncated_witness:
  "case base_ctor (demo_sock False) ''/tmp/s'' True ([], []) of (Inr (fd, path), k') \<Rightarrow> path = ''/tmp/s''
    | (Inl e, k') \<Rightarrow> e = Address_too_long \<longleftrightarrow> False"
proof -
  obtain r k' where c: "base_ctor (demo_sock False) ''/tmp/s'' True ([], []) = (r, k')"
    by (rule prod.exhaust)
  from address_never_truncated [OF _ c] show ?thesis by (auto simp: c split: sum.splits)
qed

text \<open>The connection counter is right. From the constructor on, through every sequence of
  events, accepted, dropped and failing connections alike, the server's counter is the number of client
  descriptors it has open (modulo \<open>2 ^ 32\<close>).\<close>

theorem connection_count_correct:
  assumes "fd_laws S fds" "\<forall>fd msg k h. fds (fst (handler fd msg (k, h))) = fds k" "finite (fds k)"
    "server_ctor S address k = (Inr (fd, ep), k')"
    "(server_reacts S fds (fds k') sizeT decode handler)\<^sup>*\<^sup>* (server_start fd ep buffer k' app) t"
  shows "GetConnectionCount t = of_nat (card (fds (sv_kernel t) - fds k'))"
proof -
  have "connections_ok fds (fds k') (server_start fd ep buffer k' app)"
    using server_ctor_base [OF assms(1,4)] assms(3) by (simp add: connections_ok_def server_start_def)
  with assms(5) have "connections_ok fds (fds k') t"
    by (induction rule: rtranclp_induct) (auto intro: server_reacts_ok [OF assms(1,2)])
  then show ?thesis by (simp add: connections_ok_def GetConnectionCount_def)
qed

theorem connection_count_correct_witness:
  "\<exists>t. (server_reacts (demo_sock False) demo_fds {3, 4} 1 hd (\<lambda>fd msg. id))\<^sup>*\<^sup>* (server_start 3 4 [0] ([4, 3], []) ()) t \<and>
     GetConnectionCount t = of_nat (card (demo_fds (sv_kernel t) - {3, 4})) \<and> GetConnectionCount t = 1"
proof -
  let ?s = "server_start 3 4 [0] ([4, 3], []) ()"
  let ?ev = "\<lparr>ev_fd = 3, ev_hup = False, ev_in = True\<rparr>"
  obtain t where t: "server_event (demo_sock False) 1 hd (\<lambda>fd msg. id) (\<lambda>i. True) 5 ?ev (?s\<lparr>sv_kernel := ([4, 3], [])\<rparr>) = Some t"
      "sv_ConnectionCount t = 1"
    by (simp add: server_event_def demo_sock_def open_new_def server_start_def Let_def)
  have fds: "demo_fds ([4, 3], []) = {3, 4}" by (auto simp: demo_fds_def)
  have run: "(server_reacts (demo_sock False) demo_fds (demo_fds ([4, 3], [])) 1 hd (\<lambda>fd msg. id))\<^sup>*\<^sup>* ?s t"
    by (rule r_into_rtranclp, rule server_reacts.intros [OF _ _ t(1)]) (simp_all add: server_start_def)
  have ctor: "server_ctor (demo_sock False) ''/tmp/s'' ([], []) = (Inr (3, 4), ([4, 3], []))"
    by (simp add: server_ctor_def base_ctor_def demo_sock_def open_new_def SUN_PATH_SIZE_def)
  have fin: "finite (demo_fds ([], []))" by (simp add: demo_fds_def)
  have "GetConnectionCount t = of_nat (card (demo_fds (sv_kernel t) - demo_fds ([4, 3], [])))"
    by (rule connection_count_correct [OF demo_fd_laws _ fin ctor run]) simp
  moreover have "GetConnectionCount t = 1" using t(2) by (simp add: GetConnectionCount_def)
  ultimately show ?thesis using run unfolding fds by blast
qed

text \<open>A client that closes its connection, or stops sending, in the middle of a message
  hangs the server's thread: the receive loop never returns, and the event is never finished.\<close>

theorem half_message_hangs:
  assumes "\<forall>n. sk_recv S (ev_fd ev) n (sv_kernel s) \<in> {(Got [], sv_kernel s), (Again, sv_kernel s)}"
    "\<forall>i. running i" "0 < sizeT" "ev_fd ev \<noteq> sv_BaseSocketFd s" "\<not> ev_hup ev" "ev_in ev"
  shows "server_event S sizeT decode handler running fuel ev s = None"
  using recv_spins [OF assms(1-3)] assms(4-6) by (simp add: server_event_def)

theorem half_message_hangs_witness:
  "\<forall>fuel. server_event (demo_sock True) 20 hd (\<lambda>fd msg. id) (\<lambda>i. True) fuel \<lparr>ev_fd = 5, ev_hup = False, ev_in = True\<rparr>
     \<lparr>sv_BaseSocketFd = 3, sv_epollFd = 4, sv_ConnectionCount = 1, sv_buffer = replicate 20 0,
      sv_kernel = ([5, 4, 3], []), sv_app = (), sv_calls = []\<rparr> = None"
  by (intro allI, rule half_message_hangs) (simp_all add: demo_sock_def)

text \<open>
  A failed \<open>recv\<close> does not stop the handler: it runs on what the buffer held before, for a descriptor
  that has just been closed.
\<close>

theorem failed_recv_still_handled:
  assumes "sk_recv S (ev_fd ev) sizeT (sv_kernel s) = (Failed, k1)" "running fuel" "0 < sizeT"
    "ev_fd ev \<noteq> sv_BaseSocketFd s" "\<not> ev_hup ev" "ev_in ev"
  shows "\<exists>t. server_event S sizeT decode handler running (Suc fuel) ev s = Some t \<and>
    sv_calls t = sv_calls s @ [(ev_fd ev, decode (sv_buffer s))] \<and>
    sv_ConnectionCount t = sv_ConnectionCount s - 1"
  using assms by (simp add: server_event_def call_handler_def drop_client_def split: prod.split)

text \<open>The client never increments its counter, so the loss of its only connection wraps it.\<close>

theorem client_count_wraps:
  assumes "ev_hup ev" "client_GetConnectionCount c = 0"
  shows "\<exists>d. client_event S sizeT decode handler running fuel ev c = Some d \<and>
    unat (client_GetConnectionCount d) = 2 ^ 32 - 1 \<and> \<not> IsRunning d"
  using assms by (simp add: client_GetConnectionCount_def IsRunning_def client_event_def client_stop_def unsigned_minus_1_eq_mask mask_eq_exp_minus_1)

end
