(* ===== verification/Client_Server_Message.thy ===== *)
theory Client_Server_Message
  imports Unix_Sock_Ipc Text_IO
begin

text \<open>
  \<open>transposer_demo/common/ClientServerMessage.h\<close>: the packed message of client and server, its makers
  and readers, its text, and its 20-byte object representation (little-endian, as on the machines the
  program's \<open>futex\<close> and \<open>epoll\<close> code runs on). The enumeration has the underlying type
  \<open>uint32_t\<close>, and a message read from a socket can hold any value of it.
\<close>

section \<open>The message\<close>

type_synonym MessageType = u32

definition MT_Subscribe :: MessageType where "MT_Subscribe = 0"
definition MT_Unsubscribe :: MessageType where "MT_Unsubscribe = 1"
definition MT_SubscribeResponse :: MessageType where "MT_SubscribeResponse = 2"

lemmas message_types = MT_Subscribe_def MT_Unsubscribe_def MT_SubscribeResponse_def

record ClientServerMessage =
  msg_type :: MessageType
  senderId :: u32
  param1 :: u32
  param2 :: u32
  param3 :: u32

text \<open>The readers return the output parameters, \<open>None\<close> for \<open>false\<close>.\<close>

definition ProcessSubscribeMessage :: "ClientServerMessage \<Rightarrow> (u32 \<times> u32 \<times> u32 \<times> u32) option" where
  "ProcessSubscribeMessage message =
     (if msg_type message \<noteq> MT_Subscribe then None
      else Some (senderId message, param1 message, param2 message, param3 message))"

definition ProcessUnsubscribeMessage :: "ClientServerMessage \<Rightarrow> u32 option" where
  "ProcessUnsubscribeMessage message =
     (if msg_type message \<noteq> MT_Unsubscribe then None else Some (senderId message))"

definition ProcessSubscribeResponseMessage :: "ClientServerMessage \<Rightarrow> (u32 \<times> u32 \<times> u32 \<times> u32) option" where
  "ProcessSubscribeResponseMessage message =
     (if msg_type message \<noteq> MT_SubscribeResponse then None
      else Some (senderId message, param1 message, param2 message, param3 message))"

text \<open>The makers overwrite the given message; an unsubscription leaves its parameters as they were.\<close>

definition GenerateSubscribeMessage ::
  "ClientServerMessage \<Rightarrow> u32 \<Rightarrow> u32 \<Rightarrow> u32 \<Rightarrow> u32 \<Rightarrow> ClientServerMessage" where
  "GenerateSubscribeMessage message clientId m n k =
     message\<lparr>msg_type := MT_Subscribe, senderId := clientId, param1 := m, param2 := n, param3 := k\<rparr>"

definition GenerateUnsubscribeMessage :: "ClientServerMessage \<Rightarrow> u32 \<Rightarrow> ClientServerMessage" where
  "GenerateUnsubscribeMessage message clientId = message\<lparr>msg_type := MT_Unsubscribe, senderId := clientId\<rparr>"

definition GenerateSubscribeResponseMessage ::
  "ClientServerMessage \<Rightarrow> u32 \<Rightarrow> u32 \<Rightarrow> u32 \<Rightarrow> u32 \<Rightarrow> ClientServerMessage" where
  "GenerateSubscribeResponseMessage message serverId serverSideClientId serverCapacity serverClientCount =
     message\<lparr>msg_type := MT_SubscribeResponse, senderId := serverId, param1 := serverSideClientId,
             param2 := serverCapacity, param3 := serverClientCount\<rparr>"

definition TypeToString :: "MessageType \<Rightarrow> string" where
  "TypeToString t =
     (if t = MT_Subscribe then ''Subscribe''
      else if t = MT_Unsubscribe then ''Unsubscribe''
      else ''UNKNOWN'')"

definition ToString :: "ClientServerMessage \<Rightarrow> string" where
  "ToString message =
     (let s = dec (unat (senderId message)); p1 = dec (unat (param1 message));
          p2 = dec (unat (param2 message)); p3 = dec (unat (param3 message))
      in if msg_type message = MT_Subscribe then
           ''Subscribe: { clientPid: '' @ s @ '', m: '' @ p1 @ '', n: '' @ p2 @ '', k: '' @ p3 @ '' }''
         else if msg_type message = MT_Unsubscribe then
           ''Unsubscribe: { clientPid: '' @ s @ '' }''
         else if msg_type message = MT_SubscribeResponse then
           ''SubscribeResponse: { serverPid: '' @ s @ '', serverSideClientId: '' @ p1 @
             '', serverCapacity: '' @ p2 @ '', serverClientCount: '' @ p3 @ '' }''
         else ''UNKNOWN'')"

section \<open>Object representation\<close>

text \<open>
  The code has no serialisation: \<open>Send\<close> passes the address of the message, and the communicators read a buffer as a
  message. The bytes are those the declaration of the structure fixes: it is packed, with five members of the type
  \<open>uint32_t\<close> in this order, so 20 bytes without padding, each member with its least significant byte first.
\<close>

definition le_bytes :: "u32 \<Rightarrow> u8 list" where
  "le_bytes w = [ucast w, ucast (drop_bit 8 w), ucast (drop_bit 16 w), ucast (drop_bit 24 w)]"

definition le_word :: "u8 list \<Rightarrow> u32" where
  "le_word bs = ucast (bs ! 0) OR push_bit 8 (ucast (bs ! 1)) OR push_bit 16 (ucast (bs ! 2)) OR
     push_bit 24 (ucast (bs ! 3))"

definition message_size :: nat where
  "message_size = 20"

definition encode_message :: "ClientServerMessage \<Rightarrow> u8 list" where
  "encode_message message =
     le_bytes (msg_type message) @ le_bytes (senderId message) @ le_bytes (param1 message) @
     le_bytes (param2 message) @ le_bytes (param3 message)"

definition decode_message :: "u8 list \<Rightarrow> ClientServerMessage" where
  "decode_message bs =
     \<lparr>msg_type = le_word bs, senderId = le_word (drop 4 bs), param1 = le_word (drop 8 bs),
      param2 = le_word (drop 12 bs), param3 = le_word (drop 16 bs)\<rparr>"

lemma length_le_bytes [simp]: "length (le_bytes w) = 4"
  by (simp add: le_bytes_def)

lemma le_word_le_bytes [simp]: "le_word (le_bytes w @ rest) = w"
proof (rule bit_word_eqI)
  fix i assume "i < LENGTH(32)"
  then have "i < 8 \<or> 8 \<le> i \<and> i < 16 \<or> 16 \<le> i \<and> i < 24 \<or> 24 \<le> i \<and> i < 32" by auto
  then show "bit (le_word (le_bytes w @ rest)) i \<longleftrightarrow> bit w i"
    by (auto simp: le_word_def le_bytes_def bit_or_iff bit_ucast_iff bit_push_bit_iff bit_drop_bit_eq)
qed

lemma decode_encode_message: "decode_message (encode_message msg) = msg"
  using le_word_le_bytes [of "param3 msg" "[]"] by (simp add: decode_message_def encode_message_def)

interpretation csm: message_codec encode_message decode_message message_size
proof unfold_locales
  show "decode_message (encode_message msg) = msg" for msg by (rule decode_encode_message)
qed (simp_all add: encode_message_def message_size_def)

section \<open>Properties\<close>

text \<open>Property C28: messages are delivered one by one, in order and unchanged. Whatever pieces the kernel
  hands out, a client whose bytes so far are the messages \<open>msgs\<close> (and perhaps the beginning of
  another) has the server's handler called on exactly these messages by as many events, and the rest
  stays for the next event.\<close>

theorem messages_delivered:
  assumes "recv_laws S arrived" "\<forall>i. running i" "message_size < fuel"
    "\<forall>fd msg k h. arrived (fst (handler fd msg (k, h))) = arrived k"
    "ev_fd ev \<noteq> sv_BaseSocketFd s" "\<not> ev_hup ev" "ev_in ev" "length (sv_buffer s) = message_size"
    "arrived (sv_kernel s) (ev_fd ev) = concat (map encode_message msgs) @ rest"
  shows "\<exists>s'. fold_opt (server_event S message_size decode_message handler running fuel) (replicate (length msgs) ev) s =
      Some s' \<and> sv_calls s' = sv_calls s @ map (Pair (ev_fd ev)) msgs \<and> arrived (sv_kernel s') (ev_fd ev) = rest"
  using assms by (rule csm.stream_delivers)

theorem messages_delivered_witness:
  "let m = \<lparr>msg_type = 0, senderId = 7, param1 = 6, param2 = 6, param3 = 1\<rparr>;
     s = \<lparr>sv_BaseSocketFd = 3, sv_epollFd = 4, sv_ConnectionCount = 1, sv_buffer = replicate 20 0,
      sv_kernel = ([5, 4, 3], encode_message m @ encode_message m), sv_app = (), sv_calls = []\<rparr>
   in \<exists>s'. fold_opt (server_event (demo_sock False) message_size decode_message (\<lambda>fd msg. id) (\<lambda>i. True) 21)
        (replicate 2 \<lparr>ev_fd = 5, ev_hup = False, ev_in = True\<rparr>) s = Some s' \<and> sv_calls s' = [(5, m), (5, m)]"
proof -
  let ?m = "\<lparr>msg_type = 0, senderId = 7, param1 = 6, param2 = 6, param3 = 1\<rparr>"
  let ?s = "\<lparr>sv_BaseSocketFd = 3, sv_epollFd = 4, sv_ConnectionCount = 1, sv_buffer = replicate 20 0,
      sv_kernel = ([5, 4, 3], encode_message ?m @ encode_message ?m), sv_app = (), sv_calls = []\<rparr>"
  let ?ev = "\<lparr>ev_fd = 5, ev_hup = False, ev_in = True\<rparr>"
  have "demo_arrived (sv_kernel ?s) (ev_fd ?ev) = concat (map encode_message [?m, ?m]) @ []"
    by (simp add: demo_arrived_def)
  from messages_delivered [OF demo_recv_laws _ _ _ _ _ _ _ this, of "\<lambda>i. True" 21 "\<lambda>fd msg. id" False]
  show ?thesis by (auto simp: Let_def message_size_def numeral_2_eq_2 simp del: fold_opt.simps)
qed

text \<open>Each reader accepts exactly its own type of message and gets back what the maker was
  given; a message is accepted by at most one reader.\<close>

theorem readers_invert_makers:
  "ProcessSubscribeMessage (GenerateSubscribeMessage msg c m n k) = Some (c, m, n, k)"
  "ProcessUnsubscribeMessage (GenerateUnsubscribeMessage msg c) = Some c"
  "ProcessSubscribeResponseMessage (GenerateSubscribeResponseMessage msg c m n k) = Some (c, m, n, k)"
  "length (filter id [ProcessSubscribeMessage msg \<noteq> None, ProcessUnsubscribeMessage msg \<noteq> None,
     ProcessSubscribeResponseMessage msg \<noteq> None]) \<le> 1"
  by (auto simp: ProcessSubscribeMessage_def GenerateSubscribeMessage_def ProcessUnsubscribeMessage_def
      GenerateUnsubscribeMessage_def ProcessSubscribeResponseMessage_def GenerateSubscribeResponseMessage_def
      message_types)

text \<open>The response's own name is lost in the missing return of its case.\<close>

theorem response_type_unknown: "TypeToString MT_SubscribeResponse = ''UNKNOWN''"
  by (simp add: TypeToString_def message_types)

end
