(* ===== verification/Demo_Common.thy ===== *)
theory Demo_Common
  imports Prelude
begin

text \<open>
  \<open>transposer_demo/common\<close>: the constants both programs share and the dimensions of a client's
  matrices.
\<close>

definition SERVER_SOCKET_ADDRESS :: string where "SERVER_SOCKET_ADDRESS = ''/tmp/transpose_server.sock''"
definition MATRIX_BUF_NAME_SUFFIX :: string where "MATRIX_BUF_NAME_SUFFIX = []"
definition TR_MATRIX_BUF_NAME_SUFFIX :: string where "TR_MATRIX_BUF_NAME_SUFFIX = ''_tr''"
definition TR_GOLDEN_MATRIX_BUF_NAME_SUFFIX :: string where "TR_GOLDEN_MATRIX_BUF_NAME_SUFFIX = ''_tr_gold''"
definition REQ_QUEUE_NAME_SUFFIX :: string where "REQ_QUEUE_NAME_SUFFIX = ''_req''"
definition REQ_QUEUE_CAPACITY :: u64 where "REQ_QUEUE_CAPACITY = 16"
definition MAX_CLIENTS :: nat where "MAX_CLIENTS = 64"
definition TRANSPOSE_TILE_SIZE :: u32 where "TRANSPOSE_TILE_SIZE = 64"

record BufferDimensions =
  bd_m :: u32
  bd_n :: u32
  bd_k :: u32
  bd_numRows :: u32
  bd_numColumns :: u32

text \<open>\<open>1 << m\<close> on an \<open>int\<close>, stored in a \<open>uint32_t\<close>: undefined from 32 on.\<close>

definition shift_one :: "u32 \<Rightarrow> u32 option" where
  "shift_one m = (if m < 32 then Some (push_bit (unat m) 1) else None)"

lemma shift_one_value: "m < 32 \<Longrightarrow> shift_one m = Some (2 ^ unat m)"
  by (simp add: shift_one_def push_bit_eq_mult)

end
