(* ===== verification/Transpose_Server.thy ===== *)
theory Transpose_Server
  imports Demo_Common Text_IO Unix_Sock_Ipc Spsc_SeqLock Futex_Signaller Matrix_Buffer Client_Stats Client_Server_Message Mat_Transpose
begin

text \<open>
  \<open>transposer_demo/transpose_server\<close>: the bank of clients, the message handler that runs on the
  communicator thread, the dispatcher thread, and the handshake over \<open>clientBankUpdateAvailable\<close>
  between the two. The two threads interleave at every access of the shared flag, the shared bit set
  and the slots of the bank.
\<close>

section \<open>Bit sets\<close>

definition setBit :: "u64 \<Rightarrow> nat \<Rightarrow> bool \<Rightarrow> u64" where
  "setBit number position value =
     (if value then number OR push_bit position 1 else number AND NOT (push_bit position 1))"

definition getBit :: "u64 \<Rightarrow> nat \<Rightarrow> bool" where
  "getBit number position \<longleftrightarrow> number AND push_bit position 1 \<noteq> 0"

lemma getBit_bit: "getBit number p \<longleftrightarrow> bit number p"
proof -
  have "number AND push_bit p 1 = (if bit number p then push_bit p 1 else 0)"
    by (rule bit_word_eqI) (auto simp: bit_and_iff push_bit_eq_mult bit_exp_iff)
  moreover have "push_bit p (1 :: u64) \<noteq> 0" if "bit number p"
    using bit_imp_le_length [OF that] by (simp add: push_bit_eq_mult exp_eq_zero_iff)
  ultimately show ?thesis by (simp add: getBit_def)
qed

lemma getBit_setBit:
  assumes "p < 64"
  shows "getBit (setBit number p v) q \<longleftrightarrow> (if q = p then v else getBit number q)"
  using assms
  by (auto simp: getBit_bit setBit_def bit_or_iff bit_and_iff bit_not_iff push_bit_eq_mult bit_exp_iff
      dest: bit_imp_le_length)

lemma getBit_0 [simp]: "\<not> getBit 0 p"
  by (simp add: getBit_def)

section \<open>The workspace\<close>

record ClientContext =
  cx_subscribed :: bool
  cx_id :: u32
  cx_matrixSize :: BufferDimensions
  cx_stats :: ClientStats
  cx_socket :: int
  cx_matrixBuffers :: "SharedMatrixBuffer list"
  cx_matrixBuffersTr :: "SharedMatrixBuffer list"
  cx_pRequestQueue :: "sl_handle option"
  cx_pTransposeReadyFutex :: "futex_handle option"

text \<open>\<open>ClientContext()\<close> is value-initialised.\<close>

definition new_context :: ClientContext where
  "new_context = \<lparr>cx_subscribed = False, cx_id = 0,
     cx_matrixSize = \<lparr>bd_m = 0, bd_n = 0, bd_k = 0, bd_numRows = 0, bd_numColumns = 0\<rparr>,
     cx_stats = new_stats, cx_socket = 0, cx_matrixBuffers = [], cx_matrixBuffersTr = [],
     cx_pRequestQueue = None, cx_pTransposeReadyFutex = None\<rparr>"

record workspace =
  ws_running :: bool
  ws_numWorkerThreads :: u32
  ws_serverPid :: u32
  ws_clientBank :: "ClientContext list"
  ws_updateAvailable :: bool
  ws_validClientsBitSet :: u64

text \<open>
  \<open>main\<close> up to the start of the dispatcher: the number of threads from the argument (\<open>atoi\<close>, undefined
  beyond \<open>int\<close>) or the hardware, its power-of-two test, the empty bank, and the socket server. \<open>None\<close>
  is the exit with status 1.
\<close>

definition server_main ::
  "'n sock \<Rightarrow> u32 \<Rightarrow> string list \<Rightarrow> u32 \<Rightarrow> 'n \<Rightarrow> (cpp_error + ((int \<times> int) \<times> workspace) option) \<times> 'n" where
  "server_main S hardware_concurrency argv pid net =
     (case (if length argv > 1 then map_sum id word_of_int (atoi (argv ! 1)) else Inr hardware_concurrency) of
        Inl e \<Rightarrow> (Inl e, net)
      | Inr numWorkerThreads \<Rightarrow>
          if numWorkerThreads AND (numWorkerThreads - 1) \<noteq> 0 then (Inr None, net)
          else
            (let ws = \<lparr>ws_running = True, ws_numWorkerThreads = numWorkerThreads, ws_serverPid = pid,
                   ws_clientBank = replicate MAX_CLIENTS new_context, ws_updateAvailable = False,
                   ws_validClientsBitSet = 0\<rparr>
             in case server_ctor S SERVER_SOCKET_ADDRESS net of
                  (Inl e, net1) \<Rightarrow> (Inr None, net1)
                | (Inr ipc, net1) \<Rightarrow> (Inr (Some (ipc, ws)), net1)))"

definition ClientExists :: "workspace \<Rightarrow> u32 \<Rightarrow> nat option" where
  "ClientExists ws clientId =
     find (\<lambda>i. cx_subscribed (ws_clientBank ws ! i) \<and> cx_id (ws_clientBank ws ! i) = clientId) [0..<MAX_CLIENTS]"

section \<open>Adding a client\<close>

text \<open>The first free slot; without one \<open>indexToAdd\<close> stays uninitialised.\<close>

definition indexToAdd :: "workspace \<Rightarrow> nat option" where
  "indexToAdd ws = find (\<lambda>i. \<not> getBit (ws_validClientsBitSet ws) i) [0..<MAX_CLIENTS]"

text \<open>
  What the set-up needs of its surroundings: the system calls, sysfs, the atomics, and whether
  \<open>reserve\<close> finds memory for that many pointers.
\<close>

record 'k server_env =
  se_posix :: "'k posix"
  se_fs :: file_system
  se_lockFree :: bool
  se_reserve :: "u32 \<Rightarrow> bool"

definition drop_buffer :: "'k posix \<Rightarrow> SharedMatrixBuffer \<Rightarrow> 'k \<Rightarrow> 'k" where
  "drop_buffer P b k = (case mb_SharedMemory b of None \<Rightarrow> k | Some sm \<Rightarrow> snd (SharedMemory_dtor P sm k))"

text \<open>Assigning a new context to a slot destroys what the slot owned.\<close>

definition destroy_context :: "'k posix \<Rightarrow> ClientContext \<Rightarrow> 'k \<Rightarrow> 'k" where
  "destroy_context P c k =
     (let k1 = fold (drop_buffer P) (cx_matrixBuffers c) k;
          k2 = fold (drop_buffer P) (cx_matrixBuffersTr c) k1;
          k3 = (case cx_pRequestQueue c of None \<Rightarrow> k2 | Some q \<Rightarrow> snd (SharedMemory_dtor P (sl_SharedMemory q) k2))
      in case cx_pTransposeReadyFutex c of None \<Rightarrow> k3 | Some f \<Rightarrow> snd (SharedMemory_dtor P (fh_SharedMemory f) k3))"

text \<open>The loop over the buffers; an exception leaves the context as far as it is built.\<close>

fun add_buffers ::
  "'k posix \<Rightarrow> u32 \<Rightarrow> u32 \<Rightarrow> u32 \<Rightarrow> u32 list \<Rightarrow> ClientContext \<Rightarrow> 'k \<Rightarrow> bool \<times> ClientContext \<times> 'k" where
  "add_buffers P clientId m n [] c k = (True, c, k)"
| "add_buffers P clientId m n (bufferIndex # bs) c k =
     (case mb_ctor P clientId Server m n bufferIndex Init_NoInitMatrix MATRIX_BUF_NAME_SUFFIX k of
        (Inl e, k1) \<Rightarrow> (False, c, k1)
      | (Inr b, k1) \<Rightarrow>
          (let c1 = c\<lparr>cx_matrixBuffers := cx_matrixBuffers c @ [b]\<rparr>
           in case mb_ctor P clientId Server m n bufferIndex Init_NoInitMatrix TR_MATRIX_BUF_NAME_SUFFIX k1 of
                (Inl e, k2) \<Rightarrow> (False, c1, k2)
              | (Inr t, k2) \<Rightarrow>
                  add_buffers P clientId m n bs (c1\<lparr>cx_matrixBuffersTr := cx_matrixBuffersTr c1 @ [t]\<rparr>) k2))"

text \<open>
  The set-up of the slot, from the assignment of the new context to \<open>subscribed = true\<close> or to the
  exception. \<open>None\<close> is the undefined shift. The result says whether the set-up succeeded.
\<close>

definition setup_context ::
  "'k server_env \<Rightarrow> u32 \<Rightarrow> u32 \<Rightarrow> u32 \<Rightarrow> u32 \<Rightarrow> int \<Rightarrow> ClientContext \<Rightarrow> 'k \<Rightarrow> (bool \<times> ClientContext \<times> 'k) option" where
  "setup_context E clientId m n k socket old kern =
     (let kern0 = destroy_context (se_posix E) old kern
      in case (shift_one m, shift_one n) of
           (Some rows, Some cols) \<Rightarrow>
             (let c0 = new_context\<lparr>cx_id := clientId, cx_socket := socket,
                     cx_matrixSize := \<lparr>bd_m = m, bd_n = n, bd_k = k, bd_numRows = rows, bd_numColumns = cols\<rparr>\<rparr>
              in if \<not> se_reserve E k then Some (False, c0, kern0)
                 else (case futex_ctor (se_posix E) (se_fs E) clientId Waker [] kern0 of
                   (Inl e, kern1) \<Rightarrow> Some (False, c0, kern1)
                 | (Inr (f, w), kern1) \<Rightarrow>
                     (let c1 = c0\<lparr>cx_pTransposeReadyFutex := Some f\<rparr>
                      in case sl_ctor (se_posix E) (se_fs E) (se_lockFree E) clientId SL_Consumer
                                REQ_QUEUE_CAPACITY REQ_QUEUE_NAME_SUFFIX kern1 of
                           (Inl e, kern2) \<Rightarrow> Some (False, c1, kern2)
                         | (Inr (q, d), kern2) \<Rightarrow>
                             (case add_buffers (se_posix E) clientId m n (word_range 0 k)
                                     (c1\<lparr>cx_pRequestQueue := Some q\<rparr>) kern2 of
                                (True, c2, kern3) \<Rightarrow> Some (True, c2\<lparr>cx_subscribed := True\<rparr>, kern3)
                              | (False, c2, kern3) \<Rightarrow> Some (False, c2, kern3)))))
         | _ \<Rightarrow> None)"

text \<open>\<open>RemoveClient\<close> looks for the id alone, and takes slot 0 when it finds none.\<close>

definition indexToRemove :: "workspace \<Rightarrow> u32 \<Rightarrow> nat" where
  "indexToRemove ws clientId =
     (case find (\<lambda>i. cx_id (ws_clientBank ws ! i) = clientId) [0..<length (ws_clientBank ws)] of
        None \<Rightarrow> 0 | Some i \<Rightarrow> i)"

section \<open>The two threads\<close>

text \<open>
  The handler's points, in the order of \<open>MessageHandler\<close>, \<open>AddClient\<close> and \<open>RemoveClient\<close>: between
  messages; writing the chosen slot; waiting for the flag; about to set the bit; about to raise the
  flag; about to respond; and for a removal: waiting for the flag; about to clear the bit; about to raise
  the flag; waiting for the dispatcher to take it; about to mark the slot. \<open>H_Undefined\<close> is undefined
  behaviour.
\<close>

datatype handler_pc =
    H_Idle
  | H_Add_Write int u32 u32 u32 u32 nat
  | H_Add_Wait int u32 nat
  | H_Add_Set int u32 nat
  | H_Add_Publish int u32 nat
  | H_Add_Respond int u32
  | H_Rem_Wait nat
  | H_Rem_Clear nat
  | H_Rem_Publish nat
  | H_Rem_Ack nat
  | H_Rem_Done nat
  | H_Undefined

datatype dispatcher_pc = D_Top | D_Load | D_Clear | D_Scan nat | D_Serve nat | D_Stopped

record 'k srv =
  sr_ws :: workspace
  sr_kernel :: 'k
  sr_local :: u64
  sr_handler :: handler_pc
  sr_dispatcher :: dispatcher_pc
  sr_sent :: "(int \<times> ClientServerMessage) list"

definition subscribe_response :: "workspace \<Rightarrow> ClientServerMessage \<Rightarrow> u32 \<Rightarrow> ClientServerMessage" where
  "subscribe_response ws message clientId =
     GenerateSubscribeResponseMessage message (ws_serverPid ws) clientId (of_nat MAX_CLIENTS)
       (of_nat (length (ws_clientBank ws)))"

text \<open>
  The dispatcher's loop. Serving a slot, from \<open>Dequeue\<close> to \<open>StopTimer\<close>, is here only what it does to the
  bank: nothing when \<open>Dequeue\<close> fails, and otherwise the timing of a request. That it can also fault or not
  come to an end is not seen here: \<open>serve_step\<close> of \<open>Transpose_Service\<close> has its steps, and replaces the rules
  \<open>d_empty\<close> and \<open>d_served\<close> in everything that is said of progress.
\<close>

inductive dispatcher_step :: "'k srv \<Rightarrow> 'k srv \<Rightarrow> bool" where
  d_stop: "sr_dispatcher s = D_Top \<Longrightarrow> \<not> ws_running (sr_ws s) \<Longrightarrow>
     dispatcher_step s (s\<lparr>sr_dispatcher := D_Stopped\<rparr>)"
| d_update: "sr_dispatcher s = D_Top \<Longrightarrow> ws_running (sr_ws s) \<Longrightarrow> ws_updateAvailable (sr_ws s) \<Longrightarrow>
     dispatcher_step s (s\<lparr>sr_dispatcher := D_Load\<rparr>)"
| d_no_update: "sr_dispatcher s = D_Top \<Longrightarrow> ws_running (sr_ws s) \<Longrightarrow> \<not> ws_updateAvailable (sr_ws s) \<Longrightarrow>
     dispatcher_step s (s\<lparr>sr_dispatcher := D_Scan 0\<rparr>)"
| d_load: "sr_dispatcher s = D_Load \<Longrightarrow>
     dispatcher_step s (s\<lparr>sr_dispatcher := D_Clear, sr_local := ws_validClientsBitSet (sr_ws s)\<rparr>)"
| d_clear: "sr_dispatcher s = D_Clear \<Longrightarrow>
     dispatcher_step s (s\<lparr>sr_dispatcher := D_Scan 0, sr_ws := (sr_ws s)\<lparr>ws_updateAvailable := False\<rparr>\<rparr>)"
| d_skip: "sr_dispatcher s = D_Scan i \<Longrightarrow> i < MAX_CLIENTS \<Longrightarrow> \<not> getBit (sr_local s) i \<Longrightarrow>
     dispatcher_step s (s\<lparr>sr_dispatcher := D_Scan (i + 1)\<rparr>)"
| d_serve: "sr_dispatcher s = D_Scan i \<Longrightarrow> i < MAX_CLIENTS \<Longrightarrow> getBit (sr_local s) i \<Longrightarrow>
     dispatcher_step s (s\<lparr>sr_dispatcher := D_Serve i\<rparr>)"
| d_empty: "sr_dispatcher s = D_Serve i \<Longrightarrow>
     dispatcher_step s (s\<lparr>sr_dispatcher := D_Scan (i + 1)\<rparr>)"
| d_served: "sr_dispatcher s = D_Serve i \<Longrightarrow> ctx = ws_clientBank (sr_ws s) ! i \<Longrightarrow>
     dispatcher_step s (s\<lparr>sr_dispatcher := D_Scan (i + 1),
       sr_ws := (sr_ws s)\<lparr>ws_clientBank :=
         (ws_clientBank (sr_ws s))[i := ctx\<lparr>cx_stats := StopTimer t1 (StartTimer t0 (cx_stats ctx))\<rparr>]\<rparr>\<rparr>)"
| d_round: "sr_dispatcher s = D_Scan i \<Longrightarrow> MAX_CLIENTS \<le> i \<Longrightarrow>
     dispatcher_step s (s\<lparr>sr_dispatcher := D_Top\<rparr>)"

text \<open>
  The switch of \<open>MessageHandler\<close>: the point to which a message from a socket takes the handler, up to the
  first thing it does to the bank. \<open>H_Idle\<close> is the return without an effect.
\<close>

definition MessageHandler :: "workspace \<Rightarrow> int \<Rightarrow> ClientServerMessage \<Rightarrow> handler_pc" where
  "MessageHandler ws socket message =
     (case ProcessSubscribeMessage message of
        Some (clientId, m, n, k) \<Rightarrow>
          (case ClientExists ws clientId of
             Some bankIndex \<Rightarrow> H_Idle
           | None \<Rightarrow> (case indexToAdd ws of None \<Rightarrow> H_Undefined | Some i \<Rightarrow> H_Add_Write socket clientId m n k i))
      | None \<Rightarrow>
          (case ProcessUnsubscribeMessage message of
             Some clientId \<Rightarrow>
               (case ClientExists ws clientId of
                  None \<Rightarrow> H_Idle
                | Some bankIndex \<Rightarrow> H_Rem_Wait (indexToRemove ws clientId))
           | None \<Rightarrow> H_Idle))"

text \<open>
  What the handler writes to \<open>clog\<close>: when it looks at a message, and when a set-up has failed. The line for
  an unsubscription is written before the slot is given up.
\<close>

definition slot_log :: "ClientContext \<Rightarrow> string" where
  "slot_log ctx =
     ''client: '' @ dec (unat (cx_id ctx)) @ '', m: '' @ dec (unat (bd_m (cx_matrixSize ctx))) @
     '', n: '' @ dec (unat (bd_n (cx_matrixSize ctx))) @ '', k: '' @ dec (unat (bd_k (cx_matrixSize ctx))) @
     '', totalReqs: '' @ dec (unat (GetTotalRequests (cx_stats ctx))) @
     '', avgTime: '' @ dec (unat (GetAverageElapsedTimeUs (cx_stats ctx))) @ '' (ns)'' @ [CHR 0x0A]"

definition message_log :: "workspace \<Rightarrow> ClientServerMessage \<Rightarrow> string list" where
  "message_log ws message =
     (case ProcessSubscribeMessage message of
        Some (clientId, m, n, k) \<Rightarrow>
          (if ClientExists ws clientId = None then [''New client: '' @ dec (unat clientId) @ [CHR 0x0A]]
           else [''Client PID: '' @ dec (unat clientId) @ '' already exists'' @ [CHR 0x0A]])
      | None \<Rightarrow>
          (case ProcessUnsubscribeMessage message of
             Some clientId \<Rightarrow>
               (case ClientExists ws clientId of None \<Rightarrow> [] | Some bankIndex \<Rightarrow> [slot_log (ws_clientBank ws ! bankIndex)])
           | None \<Rightarrow> []))"

fun outcome_log :: "handler_pc \<Rightarrow> handler_pc \<Rightarrow> string list" where
  "outcome_log (H_Add_Write socket clientId m n k i) H_Idle =
     [''Failed to add client PID: '' @ dec (unat clientId) @ [CHR 0x0A]]"
| "outcome_log _ _ = []"

text \<open>The message handler; the messages come in any number and order from any socket.\<close>

inductive handler_step :: "'k server_env \<Rightarrow> 'k srv \<Rightarrow> 'k srv \<Rightarrow> bool" for E :: "'k server_env" where
  h_ignored: "sr_handler s = H_Idle \<Longrightarrow> msg_type (msg :: ClientServerMessage) \<notin> {MT_Subscribe, MT_Unsubscribe} \<Longrightarrow> handler_step E s s"
| h_known: "sr_handler s = H_Idle \<Longrightarrow> ProcessSubscribeMessage msg = Some (c, m, n, k) \<Longrightarrow>
     ClientExists (sr_ws s) c = Some i \<Longrightarrow> handler_step E s s"
| h_subscribe: "sr_handler s = H_Idle \<Longrightarrow> ProcessSubscribeMessage msg = Some (c, m, n, k) \<Longrightarrow>
     ClientExists (sr_ws s) c = None \<Longrightarrow> indexToAdd (sr_ws s) = Some i \<Longrightarrow>
     handler_step E s (s\<lparr>sr_handler := H_Add_Write socket c m n k i\<rparr>)"
| h_full: "sr_handler s = H_Idle \<Longrightarrow> ProcessSubscribeMessage msg = Some (c, m, n, k) \<Longrightarrow>
     ClientExists (sr_ws s) c = None \<Longrightarrow> indexToAdd (sr_ws s) = None \<Longrightarrow>
     handler_step E s (s\<lparr>sr_handler := H_Undefined\<rparr>)"
| h_written: "sr_handler s = H_Add_Write socket c m n k i \<Longrightarrow>
     setup_context E c m n k socket (ws_clientBank (sr_ws s) ! i) (sr_kernel s) = Some (True, ctx, kern) \<Longrightarrow>
     handler_step E s (s\<lparr>sr_handler := H_Add_Wait socket c i, sr_kernel := kern,
       sr_ws := (sr_ws s)\<lparr>ws_clientBank := (ws_clientBank (sr_ws s))[i := ctx]\<rparr>\<rparr>)"
| h_failed: "sr_handler s = H_Add_Write socket c m n k i \<Longrightarrow>
     setup_context E c m n k socket (ws_clientBank (sr_ws s) ! i) (sr_kernel s) = Some (False, ctx, kern) \<Longrightarrow>
     handler_step E s (s\<lparr>sr_handler := H_Idle, sr_kernel := kern,
       sr_ws := (sr_ws s)\<lparr>ws_clientBank := (ws_clientBank (sr_ws s))[i := ctx]\<rparr>\<rparr>)"
| h_shift: "sr_handler s = H_Add_Write socket c m n k i \<Longrightarrow>
     setup_context E c m n k socket (ws_clientBank (sr_ws s) ! i) (sr_kernel s) = None \<Longrightarrow>
     handler_step E s (s\<lparr>sr_handler := H_Undefined\<rparr>)"
| h_add_go: "sr_handler s = H_Add_Wait socket c i \<Longrightarrow> \<not> ws_updateAvailable (sr_ws s) \<Longrightarrow>
     handler_step E s (s\<lparr>sr_handler := H_Add_Set socket c i\<rparr>)"
| h_add_set: "sr_handler s = H_Add_Set socket c i \<Longrightarrow>
     handler_step E s (s\<lparr>sr_handler := H_Add_Publish socket c i,
       sr_ws := (sr_ws s)\<lparr>ws_validClientsBitSet := setBit (ws_validClientsBitSet (sr_ws s)) i True\<rparr>\<rparr>)"
| h_add_publish: "sr_handler s = H_Add_Publish socket c i \<Longrightarrow>
     handler_step E s (s\<lparr>sr_handler := H_Add_Respond socket c, sr_ws := (sr_ws s)\<lparr>ws_updateAvailable := True\<rparr>\<rparr>)"
| h_respond: "sr_handler s = H_Add_Respond socket c \<Longrightarrow>
     handler_step E s (s\<lparr>sr_handler := H_Idle,
       sr_sent := sr_sent s @ [(socket, subscribe_response (sr_ws s) msg c)]\<rparr>)"
| h_unknown: "sr_handler s = H_Idle \<Longrightarrow> ProcessUnsubscribeMessage msg = Some c \<Longrightarrow>
     ClientExists (sr_ws s) c = None \<Longrightarrow> handler_step E s s"
| h_unsubscribe: "sr_handler s = H_Idle \<Longrightarrow> ProcessUnsubscribeMessage msg = Some c \<Longrightarrow>
     ClientExists (sr_ws s) c = Some j \<Longrightarrow>
     handler_step E s (s\<lparr>sr_handler := H_Rem_Wait (indexToRemove (sr_ws s) c)\<rparr>)"
| h_rem_go: "sr_handler s = H_Rem_Wait i \<Longrightarrow> \<not> ws_updateAvailable (sr_ws s) \<Longrightarrow>
     handler_step E s (s\<lparr>sr_handler := H_Rem_Clear i\<rparr>)"
| h_rem_clear: "sr_handler s = H_Rem_Clear i \<Longrightarrow>
     handler_step E s (s\<lparr>sr_handler := H_Rem_Publish i,
       sr_ws := (sr_ws s)\<lparr>ws_validClientsBitSet := setBit (ws_validClientsBitSet (sr_ws s)) i False\<rparr>\<rparr>)"
| h_rem_publish: "sr_handler s = H_Rem_Publish i \<Longrightarrow>
     handler_step E s (s\<lparr>sr_handler := H_Rem_Ack i, sr_ws := (sr_ws s)\<lparr>ws_updateAvailable := True\<rparr>\<rparr>)"
| h_rem_ack: "sr_handler s = H_Rem_Ack i \<Longrightarrow> \<not> ws_updateAvailable (sr_ws s) \<Longrightarrow>
     handler_step E s (s\<lparr>sr_handler := H_Rem_Done i\<rparr>)"
| h_rem_done: "sr_handler s = H_Rem_Done i \<Longrightarrow>
     handler_step E s (s\<lparr>sr_handler := H_Idle,
       sr_ws := (sr_ws s)\<lparr>ws_clientBank := (ws_clientBank (sr_ws s))[i := (ws_clientBank (sr_ws s) ! i)\<lparr>cx_subscribed := False\<rparr>]\<rparr>\<rparr>)"

lemma handler_receives:
  assumes "sr_handler s = H_Idle"
  shows "handler_step E s (s\<lparr>sr_handler := MessageHandler (sr_ws s) socket message\<rparr>)"
proof -
  have stays: "s\<lparr>sr_handler := H_Idle\<rparr> = s" using assms by simp
  show ?thesis
  proof (cases "ProcessSubscribeMessage message")
    case sub: (Some p)
    obtain c m n k where p: "p = (c, m, n, k)" using prod_cases4 by blast
    note msg = sub [unfolded p]
    show ?thesis
      using h_known [OF assms msg, of _ E] h_subscribe [OF assms msg, of _ E socket] h_full [OF assms msg, of E] stays
      by (simp add: MessageHandler_def msg split: option.split)
  next
    case None
    then have other: "msg_type message \<noteq> MT_Subscribe" by (auto simp: ProcessSubscribeMessage_def)
    show ?thesis
    proof (cases "ProcessUnsubscribeMessage message")
      case unsub: (Some c)
      show ?thesis
        using h_unknown [OF assms unsub, of E] h_unsubscribe [OF assms unsub, of _ E] stays
        by (simp add: MessageHandler_def None unsub split: option.split)
    next
      case unknown: None
      then have "msg_type message \<noteq> MT_Unsubscribe" by (auto simp: ProcessUnsubscribeMessage_def)
      then show ?thesis
        using h_ignored [OF assms, of message E] other stays by (simp add: MessageHandler_def None unknown)
    qed
  qed
qed

lemma busy_handler_adds:
  assumes "handler_step E r r'" "sr_handler r \<noteq> H_Idle"
  shows "sr_handler r' \<noteq> H_Add_Write socket c m n k i"
  using assms by (cases; simp)

text \<open>The rules for an idle handler are exactly this switch.\<close>

lemma idle_handler_step:
  assumes "handler_step E s t" "sr_handler s = H_Idle"
  shows "\<exists>socket message. t = s\<lparr>sr_handler := MessageHandler (sr_ws s) socket message\<rparr>"
proof -
  have stays: "s = s\<lparr>sr_handler := H_Idle\<rparr>" using assms(2) by simp
  from assms(1) show ?thesis
  proof cases
    case (h_ignored msg)
    then have "MessageHandler (sr_ws s) 0 msg = H_Idle"
      by (simp add: MessageHandler_def ProcessSubscribeMessage_def ProcessUnsubscribeMessage_def)
    with h_ignored(1) stays show ?thesis by metis
  next
    case (h_known msg c m n k i)
    then have "MessageHandler (sr_ws s) 0 msg = H_Idle" by (simp add: MessageHandler_def)
    with h_known(1) stays show ?thesis by metis
  next
    case (h_subscribe msg c m n k i socket)
    then have "MessageHandler (sr_ws s) socket msg = H_Add_Write socket c m n k i" by (simp add: MessageHandler_def)
    with h_subscribe(1) show ?thesis by metis
  next
    case (h_full msg c m n k)
    then have "MessageHandler (sr_ws s) 0 msg = H_Undefined" by (simp add: MessageHandler_def)
    with h_full(1) show ?thesis by metis
  next
    case (h_unknown msg c)
    moreover have "ProcessSubscribeMessage msg = None"
      using h_unknown by (auto simp: ProcessSubscribeMessage_def ProcessUnsubscribeMessage_def message_types split: if_splits)
    ultimately have "MessageHandler (sr_ws s) 0 msg = H_Idle" by (simp add: MessageHandler_def)
    with h_unknown(1) stays show ?thesis by metis
  next
    case (h_unsubscribe msg c j)
    moreover have "ProcessSubscribeMessage msg = None"
      using h_unsubscribe by (auto simp: ProcessSubscribeMessage_def ProcessUnsubscribeMessage_def message_types split: if_splits)
    ultimately have "MessageHandler (sr_ws s) 0 msg = H_Rem_Wait (indexToRemove (sr_ws s) c)" by (simp add: MessageHandler_def)
    with h_unsubscribe(1) show ?thesis by metis
  qed (use assms(2) in simp_all)
qed

text \<open>Both threads, and the main thread that stops the server.\<close>

inductive srv_step :: "'k server_env \<Rightarrow> 'k srv \<Rightarrow> 'k srv \<Rightarrow> bool" for E :: "'k server_env" where
  srv_dispatcher: "dispatcher_step s t \<Longrightarrow> srv_step E s t"
| srv_handler: "handler_step E s t \<Longrightarrow> srv_step E s t"
| srv_stop: "srv_step E s (s\<lparr>sr_ws := (sr_ws s)\<lparr>ws_running := False\<rparr>\<rparr>)"

definition srv_start :: "workspace \<Rightarrow> 'k \<Rightarrow> 'k srv" where
  "srv_start ws kern = \<lparr>sr_ws = ws, sr_kernel = kern, sr_local = 0, sr_handler = H_Idle, sr_dispatcher = D_Top, sr_sent = []\<rparr>"

section \<open>What a set-up leaves behind\<close>

definition context_complete :: "ClientContext \<Rightarrow> bool" where
  "context_complete c \<longleftrightarrow>
     length (cx_matrixBuffers c) = unat (bd_k (cx_matrixSize c)) \<and>
     length (cx_matrixBuffersTr c) = unat (bd_k (cx_matrixSize c)) \<and>
     shift_one (bd_m (cx_matrixSize c)) = Some (bd_numRows (cx_matrixSize c)) \<and>
     shift_one (bd_n (cx_matrixSize c)) = Some (bd_numColumns (cx_matrixSize c)) \<and>
     cx_pRequestQueue c \<noteq> None \<and> cx_pTransposeReadyFutex c \<noteq> None"

lemma add_buffers_keeps:
  "add_buffers P clientId m n bs c k = (b, c', k') \<Longrightarrow>
     cx_id c' = cx_id c \<and> cx_subscribed c' = cx_subscribed c \<and> cx_matrixSize c' = cx_matrixSize c \<and>
     cx_pRequestQueue c' = cx_pRequestQueue c \<and> cx_pTransposeReadyFutex c' = cx_pTransposeReadyFutex c \<and>
     (b \<longrightarrow> length (cx_matrixBuffers c') = length (cx_matrixBuffers c) + length bs \<and>
           length (cx_matrixBuffersTr c') = length (cx_matrixBuffersTr c) + length bs)"
proof (induction P clientId m n bs c k rule: add_buffers.induct)
  case (2 P clientId m n bufferIndex bs c k)
  then show ?case by (auto simp: Let_def split: prod.splits sum.splits)
qed simp

lemma setup_context_result:
  assumes "setup_context E clientId m n k socket old kern = Some (b, c, kern')"
  shows "cx_id c = clientId \<and> cx_subscribed c = b \<and> (b \<longrightarrow> context_complete c)"
  using assms
  by (auto simp: setup_context_def new_context_def context_complete_def Let_def
      split: option.splits prod.splits sum.splits if_splits bool.splits dest!: add_buffers_keeps)

lemma add_buffers_objects:
  "add_buffers P clientId m n bs c k = (True, c', k') \<Longrightarrow>
     map mb_object (cx_matrixBuffers c') = map mb_object (cx_matrixBuffers c) @
       map (object_spec clientId m n MATRIX_BUF_NAME_SUFFIX) bs \<and>
     map mb_object (cx_matrixBuffersTr c') = map mb_object (cx_matrixBuffersTr c) @
       map (object_spec clientId m n TR_MATRIX_BUF_NAME_SUFFIX) bs"
proof (induction P clientId m n bs c k rule: add_buffers.induct)
  case (2 P clientId m n bufferIndex bs c k)
  obtain b k1 where b: "mb_ctor P clientId Server m n bufferIndex Init_NoInitMatrix MATRIX_BUF_NAME_SUFFIX k = (Inr b, k1)"
    using "2.prems" by (auto split: prod.splits sum.splits)
  obtain t k2 where t: "mb_ctor P clientId Server m n bufferIndex Init_NoInitMatrix TR_MATRIX_BUF_NAME_SUFFIX k1 = (Inr t, k2)"
    using "2.prems" b by (auto simp: Let_def split: prod.splits sum.splits)
  from "2.IH" [OF b [symmetric] refl refl t [symmetric] refl] "2.prems" b t
  show ?case using mb_ctor_object [OF b] mb_ctor_object [OF t] by (simp add: Let_def)
qed simp

lemma setup_context_objects:
  assumes "setup_context E pid m n k socket old kern = Some (True, c, kern')"
  shows "map mb_object (cx_matrixBuffers c) = map (object_spec pid m n MATRIX_BUF_NAME_SUFFIX) (word_range 0 k)"
    "map mb_object (cx_matrixBuffersTr c) = map (object_spec pid m n TR_MATRIX_BUF_NAME_SUFFIX) (word_range 0 k)"
    "\<exists>q. cx_pRequestQueue c = Some q \<and> m_ShmObjectName (sl_SharedMemory q) = sl_CreateShmObjectName pid REQ_QUEUE_NAME_SUFFIX \<and>
       m_Ownership (sl_SharedMemory q) = Borrower \<and> sl_CapacityMinusOne q = REQ_QUEUE_CAPACITY - 1"
    "\<exists>f. cx_pTransposeReadyFutex c = Some f \<and> m_ShmObjectName (fh_SharedMemory f) = futex_CreateShmObjectName pid [] \<and>
       m_Ownership (fh_SharedMemory f) = Borrower"
    "shift_one m = Some (bd_numRows (cx_matrixSize c))" "shift_one n = Some (bd_numColumns (cx_matrixSize c))"
proof -
  let ?P = "se_posix E"
  obtain rows cols where dims: "shift_one m = Some rows" "shift_one n = Some cols"
    using assms by (auto simp: setup_context_def Let_def split: option.splits)
  let ?c0 = "new_context\<lparr>cx_id := pid, cx_socket := socket,
      cx_matrixSize := \<lparr>bd_m = m, bd_n = n, bd_k = k, bd_numRows = rows, bd_numColumns = cols\<rparr>\<rparr>"
  obtain f wd k1 where fx: "futex_ctor ?P (se_fs E) pid Waker [] (destroy_context ?P old kern) = (Inr (f, wd), k1)"
    using assms dims by (auto simp: setup_context_def Let_def split: prod.splits sum.splits if_splits)
  obtain q d k2 where qu: "sl_ctor ?P (se_fs E) (se_lockFree E) pid SL_Consumer REQ_QUEUE_CAPACITY REQ_QUEUE_NAME_SUFFIX k1 = (Inr (q, d), k2)"
    using assms dims fx by (auto simp: setup_context_def Let_def split: prod.splits sum.splits if_splits)
  obtain c2 k3 where bufs: "add_buffers ?P pid m n (word_range 0 k)
      (?c0\<lparr>cx_pTransposeReadyFutex := Some f, cx_pRequestQueue := Some q\<rparr>) k2 = (True, c2, k3)" "c = c2\<lparr>cx_subscribed := True\<rparr>"
    using assms dims fx qu by (auto simp: setup_context_def Let_def split: prod.splits if_splits bool.splits)
  note obj = add_buffers_objects [OF bufs(1)] add_buffers_keeps [OF bufs(1)]
  show "map mb_object (cx_matrixBuffers c) = map (object_spec pid m n MATRIX_BUF_NAME_SUFFIX) (word_range 0 k)"
    "map mb_object (cx_matrixBuffersTr c) = map (object_spec pid m n TR_MATRIX_BUF_NAME_SUFFIX) (word_range 0 k)"
    using obj bufs(2) by (simp_all add: new_context_def)
  show "\<exists>q. cx_pRequestQueue c = Some q \<and> m_ShmObjectName (sl_SharedMemory q) = sl_CreateShmObjectName pid REQ_QUEUE_NAME_SUFFIX \<and>
       m_Ownership (sl_SharedMemory q) = Borrower \<and> sl_CapacityMinusOne q = REQ_QUEUE_CAPACITY - 1"
    using obj bufs(2) sl_ctor_object [OF qu] by simp
  show "shift_one m = Some (bd_numRows (cx_matrixSize c))" "shift_one n = Some (bd_numColumns (cx_matrixSize c))"
    using obj bufs(2) dims by (simp_all add: new_context_def)
  show "\<exists>f. cx_pTransposeReadyFutex c = Some f \<and> m_ShmObjectName (fh_SharedMemory f) = futex_CreateShmObjectName pid [] \<and>
       m_Ownership (fh_SharedMemory f) = Borrower"
    using obj bufs(2) futex_roles [OF fx] by (simp add: shm_GetName_def)
qed

section \<open>The invariant of the handshake\<close>

text \<open>The valid slots, the slots the dispatcher knows, and the subscribed slots.\<close>

definition valid_slots :: "'k srv \<Rightarrow> nat set" where
  "valid_slots s = {i. i < MAX_CLIENTS \<and> getBit (ws_validClientsBitSet (sr_ws s)) i}"

definition known_slots :: "'k srv \<Rightarrow> nat set" where
  "known_slots s = {i. i < MAX_CLIENTS \<and> getBit (sr_local s) i}"

definition subscribed_slots :: "ClientContext list \<Rightarrow> nat set" where
  "subscribed_slots bank = {i. i < MAX_CLIENTS \<and> cx_subscribed (bank ! i)}"

text \<open>
  The handler's part. The dispatcher never knows a slot that is not valid, except the one slot whose
  removal the handler is publishing; and with the flag down it knows exactly the valid slots, unless
  the handler is between its change of the bit set and the flag.
\<close>

fun handler_ok :: "handler_pc \<Rightarrow> nat set \<Rightarrow> nat set \<Rightarrow> nat set \<Rightarrow> bool \<Rightarrow> bool" where
  "handler_ok (H_Add_Write sk c m n k i) V L U flag =
     (U = V \<and> L \<subseteq> V \<and> (\<not> flag \<longrightarrow> L = V) \<and> i < MAX_CLIENTS \<and> i \<notin> V \<and> {..<i} \<subseteq> V)"
| "handler_ok (H_Add_Wait sk c i) V L U flag =
     (U = insert i V \<and> L \<subseteq> V \<and> (\<not> flag \<longrightarrow> L = V) \<and> i < MAX_CLIENTS \<and> i \<notin> V)"
| "handler_ok (H_Add_Set sk c i) V L U flag =
     (U = insert i V \<and> L = V \<and> \<not> flag \<and> i < MAX_CLIENTS \<and> i \<notin> V)"
| "handler_ok (H_Add_Publish sk c i) V L U flag =
     (U = V \<and> L = V - {i} \<and> \<not> flag \<and> i < MAX_CLIENTS \<and> i \<in> V)"
| "handler_ok (H_Rem_Wait i) V L U flag = (U = V \<and> L \<subseteq> V \<and> (\<not> flag \<longrightarrow> L = V) \<and> i < MAX_CLIENTS \<and> i \<in> V)"
| "handler_ok (H_Rem_Clear i) V L U flag = (U = V \<and> L = V \<and> \<not> flag \<and> i < MAX_CLIENTS \<and> i \<in> V)"
| "handler_ok (H_Rem_Publish i) V L U flag =
     (U = insert i V \<and> L = insert i V \<and> \<not> flag \<and> i < MAX_CLIENTS \<and> i \<notin> V)"
| "handler_ok (H_Rem_Ack i) V L U flag =
     (U = insert i V \<and> V \<subseteq> L \<and> L \<subseteq> insert i V \<and> (\<not> flag \<longrightarrow> L = V) \<and> i < MAX_CLIENTS \<and> i \<notin> V)"
| "handler_ok (H_Rem_Done i) V L U flag =
     (U = insert i V \<and> L = V \<and> \<not> flag \<and> i < MAX_CLIENTS \<and> i \<notin> V)"
| "handler_ok _ V L U flag = (U = V \<and> L \<subseteq> V \<and> (\<not> flag \<longrightarrow> L = V))"

fun dispatcher_ok :: "dispatcher_pc \<Rightarrow> nat set \<Rightarrow> nat set \<Rightarrow> bool \<Rightarrow> bool" where
  "dispatcher_ok D_Load V L flag = flag"
| "dispatcher_ok D_Clear V L flag = (flag \<and> L = V)"
| "dispatcher_ok (D_Serve i) V L flag = (i \<in> L)"
| "dispatcher_ok _ V L flag = True"

text \<open>The bank: a subscribed slot is complete, and no lower slot has its id, not even a stale one.\<close>

definition bank_ok :: "ClientContext list \<Rightarrow> bool" where
  "bank_ok bank \<longleftrightarrow> length bank = MAX_CLIENTS \<and>
     (\<forall>j < MAX_CLIENTS. cx_subscribed (bank ! j) \<longrightarrow>
        context_complete (bank ! j) \<and> (\<forall>i < j. cx_id (bank ! i) \<noteq> cx_id (bank ! j)))"

fun new_id_ok :: "handler_pc \<Rightarrow> ClientContext list \<Rightarrow> bool" where
  "new_id_ok (H_Add_Write sk c m n k i) bank =
     (\<forall>j < MAX_CLIENTS. cx_subscribed (bank ! j) \<longrightarrow> cx_id (bank ! j) \<noteq> c)"
| "new_id_ok _ bank = True"

definition srv_inv :: "'k srv \<Rightarrow> bool" where
  "srv_inv s \<longleftrightarrow> bank_ok (ws_clientBank (sr_ws s)) \<and> new_id_ok (sr_handler s) (ws_clientBank (sr_ws s)) \<and>
     handler_ok (sr_handler s) (valid_slots s) (known_slots s) (subscribed_slots (ws_clientBank (sr_ws s)))
       (ws_updateAvailable (sr_ws s)) \<and>
     dispatcher_ok (sr_dispatcher s) (valid_slots s) (known_slots s) (ws_updateAvailable (sr_ws s))"

lemma ClientExists_Some:
  assumes "ClientExists ws c = Some i"
  shows "i < MAX_CLIENTS" "cx_subscribed (ws_clientBank ws ! i)" "cx_id (ws_clientBank ws ! i) = c"
  using assms by (auto simp: ClientExists_def find_Some_iff)

lemma ClientExists_None:
  assumes "ClientExists ws c = None" "j < MAX_CLIENTS" "cx_subscribed (ws_clientBank ws ! j)"
  shows "cx_id (ws_clientBank ws ! j) \<noteq> c"
  using assms by (auto simp: ClientExists_def find_None_iff)

lemma indexToAdd_Some:
  assumes "indexToAdd ws = Some i"
  shows "i < MAX_CLIENTS" "\<not> getBit (ws_validClientsBitSet ws) i" "\<forall>j < i. getBit (ws_validClientsBitSet ws) j"
  using assms by (auto simp: indexToAdd_def find_Some_iff)

lemma indexToAdd_None: "indexToAdd ws = None \<longleftrightarrow> (\<forall>i < MAX_CLIENTS. getBit (ws_validClientsBitSet ws) i)"
  by (auto simp: indexToAdd_def find_None_iff)

text \<open>The two searches agree: a removal hits the slot of the subscribed client.\<close>

lemma indexToRemove_ClientExists:
  assumes "bank_ok (ws_clientBank ws)" "ClientExists ws c = Some j"
  shows "indexToRemove ws c = j"
proof -
  let ?bank = "ws_clientBank ws"
  have len: "length ?bank = MAX_CLIENTS" using assms(1) by (simp add: bank_ok_def)
  note j = ClientExists_Some [OF assms(2)]
  have "find (\<lambda>i. cx_id (?bank ! i) = c) [0..<length ?bank] = Some j"
    unfolding find_Some_iff
  proof (intro exI [of _ j] conjI allI impI)
    show "j < length [0..<length ?bank]" using j(1) len by simp
    show "cx_id (?bank ! ([0..<length ?bank] ! j)) = c" "j = [0..<length ?bank] ! j" using j len by simp_all
    show "cx_id (?bank ! ([0..<length ?bank] ! i)) \<noteq> c" if "i < j" for i
      using that assms(1) j len by (auto simp: bank_ok_def)
  qed
  then show ?thesis by (simp add: indexToRemove_def)
qed

lemma subscribed_update:
  assumes "length bank = MAX_CLIENTS" "i < MAX_CLIENTS"
  shows "subscribed_slots (bank[i := c]) =
    (if cx_subscribed c then insert i (subscribed_slots bank) else subscribed_slots bank - {i})"
  using assms by (auto simp: subscribed_slots_def nth_list_update split: if_splits)

lemma valid_set_bit:
  assumes "i < MAX_CLIENTS"
  shows "{j. j < MAX_CLIENTS \<and> getBit (setBit bits i v) j} =
    (if v then insert i {j. j < MAX_CLIENTS \<and> getBit bits j} else {j. j < MAX_CLIENTS \<and> getBit bits j} - {i})"
proof -
  have "i < 64" using assms by (simp add: MAX_CLIENTS_def)
  from getBit_setBit [OF this] show ?thesis using assms by auto
qed

text \<open>The statistics of a slot are no part of the invariant.\<close>

lemma stats_update:
  assumes "length bank = MAX_CLIENTS" "i < MAX_CLIENTS"
  shows "bank_ok (bank[i := (bank ! i)\<lparr>cx_stats := st\<rparr>]) = bank_ok bank"
    "new_id_ok h (bank[i := (bank ! i)\<lparr>cx_stats := st\<rparr>]) = new_id_ok h bank"
    "subscribed_slots (bank[i := (bank ! i)\<lparr>cx_stats := st\<rparr>]) = subscribed_slots bank"
proof -
  let ?bank = "bank[i := (bank ! i)\<lparr>cx_stats := st\<rparr>]"
  have eq: "cx_subscribed (?bank ! j) = cx_subscribed (bank ! j)" "cx_id (?bank ! j) = cx_id (bank ! j)"
    "context_complete (?bank ! j) = context_complete (bank ! j)" for j
    using assms by (cases "i = j"; simp add: context_complete_def)+
  show "bank_ok ?bank = bank_ok bank" unfolding bank_ok_def eq by simp
  show "new_id_ok h ?bank = new_id_ok h bank" by (cases h) (simp_all add: eq)
  show "subscribed_slots ?bank = subscribed_slots bank" unfolding subscribed_slots_def eq by simp
qed

text \<open>Replacing the context of a free slot.\<close>

lemma bank_ok_fill:
  assumes "bank_ok bank" "i < MAX_CLIENTS" "cx_subscribed c \<longrightarrow> context_complete c"
    "\<forall>j < MAX_CLIENTS. cx_subscribed (bank ! j) \<longrightarrow> cx_id (bank ! j) \<noteq> cx_id c"
    "{..<i} \<subseteq> subscribed_slots bank"
  shows "bank_ok (bank[i := c])"
  unfolding bank_ok_def
proof (intro conjI allI impI)
  have len: "length bank = MAX_CLIENTS" using assms(1) by (simp add: bank_ok_def)
  then show "length (bank[i := c]) = MAX_CLIENTS" by simp
  fix j assume j: "j < MAX_CLIENTS" "cx_subscribed (bank[i := c] ! j)"
  show "context_complete (bank[i := c] ! j)"
    using j assms(1-3) len by (cases "i = j") (auto simp: bank_ok_def)
  fix l assume l: "l < j"
  show "cx_id (bank[i := c] ! l) \<noteq> cx_id (bank[i := c] ! j)"
  proof (cases "j = i")
    case True
    then have "l \<in> subscribed_slots bank" using l assms(5) by auto
    then show ?thesis using True l j assms(4) len by (auto simp: subscribed_slots_def)
  next
    case False
    then have "cx_subscribed (bank ! j)" using j by simp
    then show ?thesis
      using False j l assms(1,2,4) len by (cases "l = i") (auto simp: bank_ok_def)
  qed
qed

lemma bank_ok_unsubscribe:
  assumes "bank_ok bank" "i < MAX_CLIENTS"
  shows "bank_ok (bank[i := (bank ! i)\<lparr>cx_subscribed := False\<rparr>])"
proof -
  let ?bank = "bank[i := (bank ! i)\<lparr>cx_subscribed := False\<rparr>]"
  have len: "length bank = MAX_CLIENTS" using assms(1) by (simp add: bank_ok_def)
  have "cx_id (?bank ! j) = cx_id (bank ! j)" "context_complete (?bank ! j) = context_complete (bank ! j)"
    "cx_subscribed (?bank ! j) \<Longrightarrow> cx_subscribed (bank ! j)" for j
    using assms(2) len by (cases "i = j"; simp add: context_complete_def)+
  then show ?thesis using assms(1) unfolding bank_ok_def by auto
qed

lemma srv_invD:
  assumes "srv_inv s"
  shows "bank_ok (ws_clientBank (sr_ws s))" "length (ws_clientBank (sr_ws s)) = MAX_CLIENTS"
    "new_id_ok (sr_handler s) (ws_clientBank (sr_ws s))"
    "handler_ok (sr_handler s) (valid_slots s) (known_slots s) (subscribed_slots (ws_clientBank (sr_ws s)))
       (ws_updateAvailable (sr_ws s))"
    "dispatcher_ok (sr_dispatcher s) (valid_slots s) (known_slots s) (ws_updateAvailable (sr_ws s))"
  using assms by (simp_all add: srv_inv_def bank_ok_def)

lemma handler_ok_load: "handler_ok h V L U True \<Longrightarrow> handler_ok h V V U True"
  by (cases h) auto

lemma handler_ok_clear: "handler_ok h V V U True \<Longrightarrow> handler_ok h V V U False"
  by (cases h) auto

lemma dispatcher_step_inv [inv_steps]:
  assumes "srv_inv s" "dispatcher_step s t"
  shows "srv_inv t"
  using assms(2)
proof cases
  case d_load
  then have "ws_updateAvailable (sr_ws s)" using srv_invD(5) [OF assms(1)] by simp
  moreover have "known_slots t = valid_slots t" "valid_slots t = valid_slots s"
    using d_load(1) by (simp_all add: known_slots_def valid_slots_def)
  ultimately show ?thesis
    using srv_invD [OF assms(1)] d_load(1) handler_ok_load by (simp add: srv_inv_def)
next
  case d_clear
  then have "ws_updateAvailable (sr_ws s)" "known_slots s = valid_slots s"
    using srv_invD(5) [OF assms(1)] by simp_all
  moreover have "known_slots t = known_slots s" "valid_slots t = valid_slots s"
    using d_clear(1) by (simp_all add: known_slots_def valid_slots_def)
  ultimately show ?thesis
    using srv_invD [OF assms(1)] d_clear(1) handler_ok_clear by (simp add: srv_inv_def)
next
  case (d_served i ctx)
  then have i: "i < MAX_CLIENTS" using srv_invD(5) [OF assms(1)] by (simp add: known_slots_def)
  have "known_slots t = known_slots s" "valid_slots t = valid_slots s"
    using d_served(1) by (simp_all add: known_slots_def valid_slots_def)
  then show ?thesis
    using srv_invD [OF assms(1)] d_served(1,3) stats_update [OF srv_invD(2) [OF assms(1)] i]
    by (simp add: srv_inv_def)
qed (use srv_invD [OF assms(1)] in \<open>auto simp: srv_inv_def known_slots_def valid_slots_def\<close>)

lemma dispatcher_ok_flag_down: "dispatcher_ok d V L False \<Longrightarrow> dispatcher_ok d V' L flag"
  by (cases d) auto

lemma subscribed_slots_bound: "subscribed_slots bank \<subseteq> {..<MAX_CLIENTS}"
  by (auto simp: subscribed_slots_def)

lemma slots_simps [simp]:
  "valid_slots (s\<lparr>sr_handler := h\<rparr>) = valid_slots s" "known_slots (s\<lparr>sr_handler := h\<rparr>) = known_slots s"
  "valid_slots (s\<lparr>sr_sent := m\<rparr>) = valid_slots s" "known_slots (s\<lparr>sr_sent := m\<rparr>) = known_slots s"
  "valid_slots (s\<lparr>sr_kernel := k\<rparr>) = valid_slots s" "known_slots (s\<lparr>sr_kernel := k\<rparr>) = known_slots s"
  "known_slots (s\<lparr>sr_ws := w\<rparr>) = known_slots s"
  "valid_slots (s\<lparr>sr_ws := w\<lparr>ws_clientBank := b\<rparr>\<rparr>) = valid_slots (s\<lparr>sr_ws := w\<rparr>)"
  "valid_slots (s\<lparr>sr_ws := w\<lparr>ws_updateAvailable := f\<rparr>\<rparr>) = valid_slots (s\<lparr>sr_ws := w\<rparr>)"
  "valid_slots (s\<lparr>sr_ws := w\<lparr>ws_running := r\<rparr>\<rparr>) = valid_slots (s\<lparr>sr_ws := w\<rparr>)"
  "valid_slots (s\<lparr>sr_ws := sr_ws s\<rparr>) = valid_slots s"
  by (simp_all add: valid_slots_def known_slots_def)

lemma valid_slots_set_bit:
  assumes "i < MAX_CLIENTS" "ws_validClientsBitSet (sr_ws t) = setBit (ws_validClientsBitSet (sr_ws s)) i v"
  shows "valid_slots t = (if v then insert i (valid_slots s) else valid_slots s - {i})"
  using valid_set_bit [OF assms(1)] assms(2) by (simp add: valid_slots_def)

lemma handler_step_inv [inv_steps]:
  assumes "srv_inv s" "handler_step E s t"
  shows "srv_inv t"
  using assms(2)
proof cases
  note inv = srv_invD [OF assms(1)]
  {
    case (h_subscribe msg c m n k i socket)
    note i = indexToAdd_Some [OF h_subscribe(5)]
    have "{..<i} \<subseteq> valid_slots s" "i \<notin> valid_slots s" using i by (auto simp: valid_slots_def)
    moreover have "new_id_ok (H_Add_Write socket c m n k i) (ws_clientBank (sr_ws s))"
      using ClientExists_None [OF h_subscribe(4)] by simp
    ultimately show ?thesis using inv i(1) h_subscribe(1,2) by (simp add: srv_inv_def)
  next
    case (h_written socket c m n k i ctx kern)
    have res: "cx_id ctx = c" "cx_subscribed ctx" "context_complete ctx"
      using setup_context_result [OF h_written(3)] by simp_all
    have ok: "handler_ok (H_Add_Write socket c m n k i) (valid_slots s) (known_slots s)
        (subscribed_slots (ws_clientBank (sr_ws s))) (ws_updateAvailable (sr_ws s))"
      using inv(4) h_written(2) by simp
    then have i: "i < MAX_CLIENTS" by simp
    have "bank_ok ((ws_clientBank (sr_ws s))[i := ctx])"
      using inv(1,3) i ok res h_written(2) by (intro bank_ok_fill) simp_all
    then show ?thesis
      using inv(2,5) ok res h_written(1) subscribed_update [OF inv(2) i, of ctx] by (simp add: srv_inv_def)
  next
    case (h_failed socket c m n k i ctx kern)
    have res: "cx_id ctx = c" "\<not> cx_subscribed ctx"
      using setup_context_result [OF h_failed(3)] by simp_all
    have ok: "handler_ok (H_Add_Write socket c m n k i) (valid_slots s) (known_slots s)
        (subscribed_slots (ws_clientBank (sr_ws s))) (ws_updateAvailable (sr_ws s))"
      using inv(4) h_failed(2) by simp
    then have i: "i < MAX_CLIENTS" by simp
    have "bank_ok ((ws_clientBank (sr_ws s))[i := ctx])"
      using inv(1,3) i ok res h_failed(2) by (intro bank_ok_fill) simp_all
    then show ?thesis
      using inv(2,5) ok res h_failed(1) subscribed_update [OF inv(2) i, of ctx] by (simp add: srv_inv_def)
  next
    case (h_add_set socket c i)
    then have "i < MAX_CLIENTS" "\<not> ws_updateAvailable (sr_ws s)" using inv(4) by simp_all
    moreover from this have "valid_slots t = insert i (valid_slots s)"
      using valid_slots_set_bit [of i t s True] h_add_set(1) by simp
    ultimately show ?thesis
      using inv h_add_set(1,2) dispatcher_ok_flag_down by (auto simp: srv_inv_def)
  next
    case (h_rem_clear i)
    then have "i < MAX_CLIENTS" "\<not> ws_updateAvailable (sr_ws s)" using inv(4) by simp_all
    moreover from this have "valid_slots t = valid_slots s - {i}"
      using valid_slots_set_bit [of i t s False] h_rem_clear(1) by simp
    ultimately show ?thesis
      using inv h_rem_clear(1,2) dispatcher_ok_flag_down by (auto simp: srv_inv_def)
  next
    case (h_unsubscribe msg c j)
    note j = ClientExists_Some [OF h_unsubscribe(4)]
    have "indexToRemove (sr_ws s) c = j" by (rule indexToRemove_ClientExists [OF inv(1) h_unsubscribe(4)])
    moreover have "j \<in> valid_slots s" using inv(4) h_unsubscribe(2) j by (auto simp: subscribed_slots_def)
    ultimately show ?thesis using inv h_unsubscribe(1,2) j(1) by (simp add: srv_inv_def)
  next
    case (h_rem_done i)
    then have i: "i < MAX_CLIENTS" using inv(4) by simp
    show ?thesis
      using inv h_rem_done(1,2) bank_ok_unsubscribe [OF inv(1) i] subscribed_update [OF inv(2) i]
      by (auto simp: srv_inv_def)
  }
qed (use srv_invD [OF assms(1)] dispatcher_ok_flag_down in \<open>auto simp: srv_inv_def\<close>)

lemma srv_step_inv [inv_steps]:
  assumes "srv_inv s" "srv_step E s t"
  shows "srv_inv t"
  using assms(2)
proof cases
  case srv_stop
  then show ?thesis using assms(1) by (simp add: srv_inv_def)
qed (use assms(1) dispatcher_step_inv handler_step_inv in blast)+

lemma srv_reach_inv: "(srv_step E)\<^sup>*\<^sup>* s t \<Longrightarrow> srv_inv s \<Longrightarrow> srv_inv t"
  by (induction rule: rtranclp_induct) (auto intro: srv_step_inv)

lemma server_main_workspace:
  assumes "server_main S hardware argv pid net = (Inr (Some (ipc, ws)), net')"
  shows "ws_clientBank ws = replicate MAX_CLIENTS new_context" "ws_updateAvailable ws = False"
    "ws_validClientsBitSet ws = 0"
proof -
  obtain threads where "(if length argv > 1 then map_sum id word_of_int (atoi (argv ! 1)) else Inr hardware) = Inr threads"
    using assms by (cases "if length argv > 1 then map_sum id word_of_int (atoi (argv ! 1)) else Inr hardware")
      (simp_all add: server_main_def)
  with assms show "ws_clientBank ws = replicate MAX_CLIENTS new_context" "ws_updateAvailable ws = False"
    "ws_validClientsBitSet ws = 0"
    by (auto simp: server_main_def Let_def split: if_splits prod.splits sum.splits)
qed

lemma srv_start_inv:
  assumes "server_main S hardware argv pid net = (Inr (Some (ipc, ws)), net')"
  shows "srv_inv (srv_start ws kern)"
  using server_main_workspace [OF assms]
  by (auto simp: srv_start_def srv_inv_def bank_ok_def new_context_def subscribed_slots_def
      valid_slots_def known_slots_def)

lemma known_subscribed:
  assumes "srv_inv s"
  shows "known_slots s \<subseteq> subscribed_slots (ws_clientBank (sr_ws s))"
  using srv_invD(4) [OF assms] by (cases "sr_handler s") auto

section \<open>Properties\<close>

text \<open>A server with one worker on an empty name space, and its first client subscribing, for the witnesses.\<close>

definition demo_env :: "string list server_env" where
  "demo_env = \<lparr>se_posix = list_kernel 4096, se_fs = (\<lambda>_. None), se_lockFree = True, se_reserve = (\<lambda>_. True)\<rparr>"

definition demo_workspace :: workspace where
  "demo_workspace = \<lparr>ws_running = True, ws_numWorkerThreads = 1, ws_serverPid = 9,
     ws_clientBank = replicate MAX_CLIENTS new_context, ws_updateAvailable = False, ws_validClientsBitSet = 0\<rparr>"

lemma demo_server_ctor:
  "server_ctor (demo_sock False) SERVER_SOCKET_ADDRESS ([], []) = (Inr (3, 4), ([4, 3], []))"
  by (simp add: server_ctor_def base_ctor_def demo_sock_def open_new_def SERVER_SOCKET_ADDRESS_def SUN_PATH_SIZE_def)

lemma demo_main: "server_main (demo_sock False) 1 [''server''] 9 ([], []) = (Inr (Some ((3, 4), demo_workspace)), ([4, 3], []))"
  using demo_server_ctor by (simp add: server_main_def demo_workspace_def)

lemma demo_setup: "\<exists>ctx kern. setup_context demo_env 7 6 6 0 5 new_context [] = Some (True, ctx, kern)"
proof -
  have "shift_one 6 = Some 64" by (simp add: shift_one_def push_bit_eq_mult)
  moreover have "(16 :: u64) AND (16 - 1) = 0" by simp
  ultimately show ?thesis
    by (simp add: setup_context_def destroy_context_def new_context_def demo_env_def futex_ctor_def sl_ctor_def
        SharedMemory_ctor_def list_kernel_def map_object_def Let_def MAP_FAILED_def REQ_QUEUE_CAPACITY_def)
qed

text \<open>A client that subscribes at the start: the message is taken, and the handler adds it in slot 0.\<close>

lemma demo_received:
  assumes "ProcessSubscribeMessage msg = Some (7, 6, 6, k)"
  shows "MessageHandler demo_workspace 5 msg = H_Add_Write 5 7 6 6 k 0"
proof -
  have "ClientExists demo_workspace 7 = None"
    by (simp add: ClientExists_def demo_workspace_def find_None_iff new_context_def)
  moreover have "indexToAdd demo_workspace = Some 0"
  proof -
    have "[0..<MAX_CLIENTS] = 0 # [1..<MAX_CLIENTS]" by (simp add: MAX_CLIENTS_def upt_conv_Cons)
    then show ?thesis by (simp add: indexToAdd_def demo_workspace_def)
  qed
  ultimately show ?thesis using assms by (simp add: MessageHandler_def)
qed

lemma demo_adds:
  assumes "setup_context demo_env 7 6 6 k 5 new_context [] = Some (True, ctx, kern)"
  shows "\<exists>s. (\<lambda>s t. handler_step demo_env s t \<and> sr_handler s \<noteq> H_Idle)\<^sup>*\<^sup>*
      ((srv_start demo_workspace [])\<lparr>sr_handler := H_Add_Write 5 7 6 6 k 0\<rparr>) s \<and>
    sr_handler s = H_Add_Respond 5 7 \<and> sr_dispatcher s = D_Top \<and> sr_local s = 0 \<and> sr_sent s = [] \<and>
    sr_ws s = demo_workspace\<lparr>ws_clientBank := (replicate MAX_CLIENTS new_context)[0 := ctx], ws_updateAvailable := True,
      ws_validClientsBitSet := setBit 0 0 True\<rparr>"
proof -
  let ?R = "\<lambda>s t. handler_step demo_env s t \<and> sr_handler s \<noteq> H_Idle"
  let ?s1 = "(srv_start demo_workspace ([] :: string list))\<lparr>sr_handler := H_Add_Write 5 7 6 6 k 0\<rparr>"
  have "ws_clientBank (sr_ws ?s1) ! 0 = new_context" "sr_kernel ?s1 = []"
    by (simp_all add: srv_start_def demo_workspace_def MAX_CLIENTS_def)
  then have su: "setup_context demo_env 7 6 6 k 5 (ws_clientBank (sr_ws ?s1) ! 0) (sr_kernel ?s1) = Some (True, ctx, kern)"
    using assms by simp
  let ?s2 = "?s1\<lparr>sr_handler := H_Add_Wait 5 7 0, sr_kernel := kern,
       sr_ws := (sr_ws ?s1)\<lparr>ws_clientBank := (ws_clientBank (sr_ws ?s1))[0 := ctx]\<rparr>\<rparr>"
  have a2: "?R ?s1 ?s2" by (intro conjI h_written [OF _ su]) simp_all
  let ?s3 = "?s2\<lparr>sr_handler := H_Add_Set 5 7 0\<rparr>"
  have a3: "?R ?s2 ?s3"
    by (intro conjI h_add_go) (simp_all add: srv_start_def demo_workspace_def)
  let ?s4 = "?s3\<lparr>sr_handler := H_Add_Publish 5 7 0,
       sr_ws := (sr_ws ?s3)\<lparr>ws_validClientsBitSet := setBit (ws_validClientsBitSet (sr_ws ?s3)) 0 True\<rparr>\<rparr>"
  have a4: "?R ?s3 ?s4" by (intro conjI h_add_set) simp_all
  let ?s5 = "?s4\<lparr>sr_handler := H_Add_Respond 5 7, sr_ws := (sr_ws ?s4)\<lparr>ws_updateAvailable := True\<rparr>\<rparr>"
  have a5: "?R ?s4 ?s5" by (intro conjI h_add_publish) simp_all
  have "?R\<^sup>*\<^sup>* ?s1 ?s5"
    by (rule converse_rtranclp_into_rtranclp, rule a2,
        rule converse_rtranclp_into_rtranclp, rule a3, rule converse_rtranclp_into_rtranclp, rule a4, rule r_into_rtranclp, rule a5)
  then show ?thesis
    by (intro exI [of _ ?s5] conjI, assumption) (simp_all add: srv_start_def demo_workspace_def)
qed

lemma demo_subscribes:
  assumes "setup_context demo_env 7 6 6 k 5 new_context [] = Some (True, ctx, kern)"
  shows "\<exists>s. (\<lambda>s t. handler_step demo_env s t \<and> (\<forall>sk c m n k' i. sr_handler t = H_Add_Write sk c m n k' i \<longrightarrow> m = 6 \<and> n = 6 \<and> k' = k))\<^sup>*\<^sup>*
      (srv_start demo_workspace []) s \<and> sr_handler s = H_Add_Respond 5 7 \<and> sr_dispatcher s = D_Top \<and> sr_local s = 0 \<and>
    sr_ws s = demo_workspace\<lparr>ws_clientBank := (replicate MAX_CLIENTS new_context)[0 := ctx], ws_updateAvailable := True,
      ws_validClientsBitSet := setBit 0 0 True\<rparr>"
proof -
  let ?R = "\<lambda>s t. handler_step demo_env s t \<and> (\<forall>sk c m n k' i. sr_handler t = H_Add_Write sk c m n k' i \<longrightarrow> m = 6 \<and> n = 6 \<and> k' = k)"
  let ?s0 = "srv_start demo_workspace ([] :: string list)"
  let ?msg = "GenerateSubscribeMessage \<lparr>msg_type = 0, senderId = 0, param1 = 0, param2 = 0, param3 = 0\<rparr> 7 6 6 k"
  have "ProcessSubscribeMessage ?msg = Some (7, 6, 6, k)"
    by (simp add: ProcessSubscribeMessage_def GenerateSubscribeMessage_def)
  from demo_received [OF this] have a1: "?R ?s0 (?s0\<lparr>sr_handler := H_Add_Write 5 7 6 6 k 0\<rparr>)"
    using handler_receives [of ?s0 demo_env 5 ?msg] by (simp add: srv_start_def)
  obtain s where s: "(\<lambda>s t. handler_step demo_env s t \<and> sr_handler s \<noteq> H_Idle)\<^sup>*\<^sup>* (?s0\<lparr>sr_handler := H_Add_Write 5 7 6 6 k 0\<rparr>) s"
      "sr_handler s = H_Add_Respond 5 7" "sr_dispatcher s = D_Top" "sr_local s = 0"
      "sr_ws s = demo_workspace\<lparr>ws_clientBank := (replicate MAX_CLIENTS new_context)[0 := ctx], ws_updateAvailable := True,
        ws_validClientsBitSet := setBit 0 0 True\<rparr>"
    using demo_adds [OF assms] by blast
  have "?R\<^sup>*\<^sup>* (?s0\<lparr>sr_handler := H_Add_Write 5 7 6 6 k 0\<rparr>) s"
    using s(1) by (rule rtranclp_mono [THEN predicate2D, rotated]) (auto dest: busy_handler_adds)
  with a1 have "?R\<^sup>*\<^sup>* ?s0 s" by (rule converse_rtranclp_into_rtranclp)
  with s(2-) show ?thesis by blast
qed

lemma demo_run:
  "\<exists>s t. (srv_step demo_env)\<^sup>*\<^sup>* (srv_start demo_workspace []) s \<and> (srv_step demo_env)\<^sup>*\<^sup>* s t \<and>
     ws_running (sr_ws s) \<and> sr_dispatcher s = D_Top \<and> ws_updateAvailable (sr_ws s) \<and> sr_dispatcher t = D_Serve 0"
proof -
  let ?s0 = "srv_start demo_workspace ([] :: string list)"
  obtain ctx kern where su: "setup_context demo_env 7 6 6 0 5 new_context [] = Some (True, ctx, kern)"
    using demo_setup by blast
  obtain s5 where s5: "sr_dispatcher s5 = D_Top" "ws_running (sr_ws s5)" "ws_updateAvailable (sr_ws s5)"
      "ws_validClientsBitSet (sr_ws s5) = setBit 0 0 True"
    and r5: "(\<lambda>s t. handler_step demo_env s t \<and> (\<forall>sk c m n k' i. sr_handler t = H_Add_Write sk c m n k' i \<longrightarrow> m = 6 \<and> n = 6 \<and> k' = 0))\<^sup>*\<^sup>* ?s0 s5"
    using demo_subscribes [OF su] by (auto simp: demo_workspace_def)
  have run1: "(srv_step demo_env)\<^sup>*\<^sup>* ?s0 s5"
    using r5 by (rule rtranclp_mono [THEN predicate2D, rotated]) (auto intro: srv_handler)
  let ?s6 = "s5\<lparr>sr_dispatcher := D_Load\<rparr>"
  have a6: "dispatcher_step s5 ?s6" by (rule d_update [OF s5(1-3)])
  let ?s7 = "?s6\<lparr>sr_dispatcher := D_Clear, sr_local := ws_validClientsBitSet (sr_ws ?s6)\<rparr>"
  have a7: "dispatcher_step ?s6 ?s7" by (rule d_load) simp
  let ?s8 = "?s7\<lparr>sr_dispatcher := D_Scan 0, sr_ws := (sr_ws ?s7)\<lparr>ws_updateAvailable := False\<rparr>\<rparr>"
  have a8: "dispatcher_step ?s7 ?s8" by (rule d_clear) simp
  have a9: "dispatcher_step ?s8 (?s8\<lparr>sr_dispatcher := D_Serve 0\<rparr>)"
    by (rule d_serve) (simp_all add: MAX_CLIENTS_def getBit_setBit s5(4))
  have ds: "dispatcher_step s t \<Longrightarrow> (srv_step demo_env)\<^sup>*\<^sup>* s t" for s t
    by (intro r_into_rtranclp srv_dispatcher)
  have run2: "(srv_step demo_env)\<^sup>*\<^sup>* s5 (?s8\<lparr>sr_dispatcher := D_Serve 0\<rparr>)"
    by (rule rtranclp_trans [OF ds [OF a6]], rule rtranclp_trans [OF ds [OF a7]], rule rtranclp_trans [OF ds [OF a8]],
        rule ds [OF a9])
  show ?thesis
    by (intro exI conjI, rule run1, rule run2) (simp_all add: s5)
qed

lemma demo_serves: "\<exists>t. (srv_step demo_env)\<^sup>*\<^sup>* (srv_start demo_workspace []) t \<and> sr_dispatcher t = D_Serve 0"
  using demo_run by (meson rtranclp_trans)

text \<open>What each point of a thread may carry: slots of the bank, and for the scan one past the last.\<close>

fun handler_typed :: "handler_pc \<Rightarrow> bool" where
  "handler_typed (H_Add_Write sk c m n k i) = (i < MAX_CLIENTS)"
| "handler_typed (H_Add_Wait sk c i) = (i < MAX_CLIENTS)"
| "handler_typed (H_Add_Set sk c i) = (i < MAX_CLIENTS)"
| "handler_typed (H_Add_Publish sk c i) = (i < MAX_CLIENTS)"
| "handler_typed (H_Rem_Wait i) = (i < MAX_CLIENTS)"
| "handler_typed (H_Rem_Clear i) = (i < MAX_CLIENTS)"
| "handler_typed (H_Rem_Publish i) = (i < MAX_CLIENTS)"
| "handler_typed (H_Rem_Ack i) = (i < MAX_CLIENTS)"
| "handler_typed (H_Rem_Done i) = (i < MAX_CLIENTS)"
| "handler_typed _ = True"

fun dispatcher_typed :: "dispatcher_pc \<Rightarrow> bool" where
  "dispatcher_typed (D_Scan i) = (i \<le> MAX_CLIENTS)"
| "dispatcher_typed (D_Serve i) = (i < MAX_CLIENTS)"
| "dispatcher_typed _ = True"

lemma handler_ok_typed: "handler_ok h V L U flag \<Longrightarrow> handler_typed h"
  by (cases h) auto

lemma dispatcher_typed_step:
  assumes "srv_step E s t" "dispatcher_typed (sr_dispatcher s)"
  shows "dispatcher_typed (sr_dispatcher t)"
  using assms(1)
proof cases
  case srv_dispatcher
  then show ?thesis using assms(2) by (cases; auto)
next
  case srv_handler
  then show ?thesis using assms(2) by (cases; auto)
next
  case srv_stop
  then show ?thesis using assms(2) by simp
qed

text \<open>Property C35: the server's state is well typed in every reachable state: the bank has 64 slots, every
  subscribed slot has all its handles and as many buffers of each kind as its client has matrices, and
  the slots that the handler and the dispatcher carry are slots of the bank.\<close>

theorem server_well_typed:
  assumes "server_main S hardware argv pid net = (Inr (Some (ipc, ws)), net')" "(srv_step E)\<^sup>*\<^sup>* (srv_start ws kern) s"
  shows "length (ws_clientBank (sr_ws s)) = MAX_CLIENTS \<and>
    (\<forall>i < MAX_CLIENTS. cx_subscribed (ws_clientBank (sr_ws s) ! i) \<longrightarrow> context_complete (ws_clientBank (sr_ws s) ! i)) \<and>
    handler_typed (sr_handler s) \<and> dispatcher_typed (sr_dispatcher s)"
proof -
  have inv: "srv_inv s" by (rule srv_reach_inv [OF assms(2) srv_start_inv [OF assms(1)]])
  have "dispatcher_typed (sr_dispatcher s)"
    using assms(2) by (induction rule: rtranclp_induct) (simp add: srv_start_def, rule dispatcher_typed_step)
  then show ?thesis
    using srv_invD(1) [OF inv] handler_ok_typed [OF srv_invD(4) [OF inv]] by (simp add: bank_ok_def)
qed

theorem server_well_typed_witness:
  "\<exists>s. (srv_step demo_env)\<^sup>*\<^sup>* (srv_start demo_workspace []) s \<and> sr_dispatcher s = D_Serve 0 \<and>
     length (ws_clientBank (sr_ws s)) = MAX_CLIENTS \<and> handler_typed (sr_handler s)"
proof -
  obtain s where "(srv_step demo_env)\<^sup>*\<^sup>* (srv_start demo_workspace []) s" "sr_dispatcher s = D_Serve 0"
    using demo_serves by blast
  with server_well_typed [OF demo_main this(1)] show ?thesis by blast
qed

text \<open>Property C10: the handler and the dispatcher never work on the same slot. While the dispatcher
  serves a slot, the slot is in the bank, belongs to a subscribed client and is completely set up (all
  its buffers, its queue and its signaller), and the handler is neither writing a new client into it nor
  marking it free.\<close>

theorem slot_exclusion:
  assumes "server_main S hardware argv pid net = (Inr (Some (ipc, ws)), net')" "(srv_step E)\<^sup>*\<^sup>* (srv_start ws kern) s" "sr_dispatcher s = D_Serve i"
  shows "i < length (ws_clientBank (sr_ws s)) \<and> cx_subscribed (ws_clientBank (sr_ws s) ! i) \<and>
    context_complete (ws_clientBank (sr_ws s) ! i) \<and>
    (\<forall>socket c m n k. sr_handler s \<noteq> H_Add_Write socket c m n k i) \<and> sr_handler s \<noteq> H_Rem_Done i"
proof -
  have inv: "srv_inv s" by (rule srv_reach_inv [OF assms(2) srv_start_inv [OF assms(1)]])
  have known: "i \<in> known_slots s" using srv_invD(5) [OF inv] assms(3) by simp
  then have "i \<in> subscribed_slots (ws_clientBank (sr_ws s))" using known_subscribed [OF inv] by blast
  then have sub: "i < MAX_CLIENTS" "cx_subscribed (ws_clientBank (sr_ws s) ! i)"
    by (simp_all add: subscribed_slots_def)
  moreover have "context_complete (ws_clientBank (sr_ws s) ! i)"
    using srv_invD(1) [OF inv] sub by (simp add: bank_ok_def)
  moreover have "sr_handler s \<noteq> H_Add_Write socket c m n k i" for socket c m n k
    using srv_invD(4) [OF inv] known by auto
  moreover have "sr_handler s \<noteq> H_Rem_Done i"
    using srv_invD(4) [OF inv] known by auto
  ultimately show ?thesis using srv_invD(2) [OF inv] by simp
qed

theorem slot_exclusion_witness:
  "\<exists>s. (srv_step demo_env)\<^sup>*\<^sup>* (srv_start demo_workspace []) s \<and> sr_dispatcher s = D_Serve 0 \<and>
     cx_subscribed (ws_clientBank (sr_ws s) ! 0) \<and> context_complete (ws_clientBank (sr_ws s) ! 0)"
proof -
  obtain s where "(srv_step demo_env)\<^sup>*\<^sup>* (srv_start demo_workspace []) s" "sr_dispatcher s = D_Serve 0"
    using demo_serves by blast
  with slot_exclusion [OF demo_main this] show ?thesis by blast
qed

lemma bank_ids_unique:
  assumes "server_main S hardware argv pid net = (Inr (Some (ipc, ws)), net')" "(srv_step E)\<^sup>*\<^sup>* (srv_start ws kern) s"
  shows "\<forall>i < MAX_CLIENTS. \<forall>j < MAX_CLIENTS.
      cx_subscribed (ws_clientBank (sr_ws s) ! i) \<and> cx_subscribed (ws_clientBank (sr_ws s) ! j) \<and>
      cx_id (ws_clientBank (sr_ws s) ! i) = cx_id (ws_clientBank (sr_ws s) ! j) \<longrightarrow> i = j"
    "ClientExists (sr_ws s) c = Some j \<longrightarrow> indexToRemove (sr_ws s) c = j"
proof -
  have inv: "srv_inv s" by (rule srv_reach_inv [OF assms(2) srv_start_inv [OF assms(1)]])
  note bank = srv_invD(1) [OF inv]
  show "ClientExists (sr_ws s) c = Some j \<longrightarrow> indexToRemove (sr_ws s) c = j"
    using indexToRemove_ClientExists [OF bank] by blast
  show "\<forall>i < MAX_CLIENTS. \<forall>j < MAX_CLIENTS.
      cx_subscribed (ws_clientBank (sr_ws s) ! i) \<and> cx_subscribed (ws_clientBank (sr_ws s) ! j) \<and>
      cx_id (ws_clientBank (sr_ws s) ! i) = cx_id (ws_clientBank (sr_ws s) ! j) \<longrightarrow> i = j"
    using bank unfolding bank_ok_def by (metis linorder_neqE_nat)
qed

text \<open>Property C25: a client id is in the bank at most once, and an unsubscription frees the slot of the
  client that asked: \<open>RemoveClient\<close>, which compares ids only, finds the slot \<open>ClientExists\<close> has found,
  in spite of the stale ids that former clients leave in free slots.\<close>

theorem removal_hits_the_client:
  assumes "server_main S hardware argv pid net = (Inr (Some (ipc, ws)), net')" "(srv_step E)\<^sup>*\<^sup>* (srv_start ws kern) s"
  shows "(\<forall>i < MAX_CLIENTS. \<forall>j < MAX_CLIENTS.
      cx_subscribed (ws_clientBank (sr_ws s) ! i) \<and> cx_subscribed (ws_clientBank (sr_ws s) ! j) \<and>
      cx_id (ws_clientBank (sr_ws s) ! i) = cx_id (ws_clientBank (sr_ws s) ! j) \<longrightarrow> i = j) \<and>
    (ClientExists (sr_ws s) c = Some j \<longrightarrow> indexToRemove (sr_ws s) c = j)"
  using bank_ids_unique [OF assms] by blast

theorem removal_hits_the_client_witness:
  "\<exists>s j. (srv_step demo_env)\<^sup>*\<^sup>* (srv_start demo_workspace []) s \<and> ClientExists (sr_ws s) (cx_id (ws_clientBank (sr_ws s) ! 0)) = Some j \<and>
     indexToRemove (sr_ws s) (cx_id (ws_clientBank (sr_ws s) ! 0)) = j"
proof -
  obtain s where s: "(srv_step demo_env)\<^sup>*\<^sup>* (srv_start demo_workspace []) s" "sr_dispatcher s = D_Serve 0"
    using demo_serves by blast
  have inv: "srv_inv s" by (rule srv_reach_inv [OF s(1) srv_start_inv [OF demo_main]])
  have "0 \<in> subscribed_slots (ws_clientBank (sr_ws s))"
    using known_subscribed [OF inv] srv_invD(5) [OF inv] s(2) by auto
  then obtain j where j: "ClientExists (sr_ws s) (cx_id (ws_clientBank (sr_ws s) ! 0)) = Some j"
    using ClientExists_None by (fastforce simp: subscribed_slots_def)
  with removal_hits_the_client [OF demo_main s(1)] s(1) show ?thesis by blast
qed

text \<open>At shutdown the handshake can hang. Once the dispatcher has stopped with the flag up,
  a handler waiting for the flag waits forever, whatever else happens, so the communicator thread (and
  the destructor that joins it) never ends.\<close>

theorem shutdown_hangs_handler:
  assumes "sr_dispatcher s = D_Stopped" "ws_updateAvailable (sr_ws s)"
    "sr_handler s = H_Rem_Wait i \<or> sr_handler s = H_Rem_Ack i \<or> sr_handler s = H_Add_Wait socket c i"
    "(srv_step E)\<^sup>*\<^sup>* s t"
  shows "sr_handler t = sr_handler s \<and> ws_updateAvailable (sr_ws t)"
  using assms(4)
proof (induction rule: rtranclp_induct)
  case (step u v)
  have "sr_dispatcher u = D_Stopped"
    using step.hyps(1)
  proof (induction rule: rtranclp_induct)
    case (step a b)
    from step(2,3) show ?case by (auto elim!: srv_step.cases dispatcher_step.cases handler_step.cases)
  qed (rule assms(1))
  with step(2,3) assms(3) show ?case
    by (auto elim!: srv_step.cases dispatcher_step.cases handler_step.cases)
qed (use assms(2) in simp)

theorem shutdown_hangs_handler_witness:
  "let s = (srv_start demo_workspace [])\<lparr>sr_ws := demo_workspace\<lparr>ws_updateAvailable := True\<rparr>, sr_dispatcher := D_Stopped,
       sr_handler := H_Rem_Ack 0\<rparr>
   in \<forall>t. (srv_step demo_env)\<^sup>*\<^sup>* s t \<longrightarrow> sr_handler t = H_Rem_Ack 0"
proof -
  let ?s = "(srv_start demo_workspace ([] :: string list))\<lparr>sr_ws := demo_workspace\<lparr>ws_updateAvailable := True\<rparr>, sr_dispatcher := D_Stopped,
       sr_handler := H_Rem_Ack 0\<rparr>"
  have "sr_handler t = sr_handler ?s \<and> ws_updateAvailable (sr_ws t)" if "(srv_step demo_env)\<^sup>*\<^sup>* ?s t" for t
    by (rule shutdown_hangs_handler [OF _ _ _ that]) simp_all
  then show ?thesis by (simp add: Let_def)
qed

text \<open>With all slots taken the search for a free slot finds none, and the index is used uninitialised.\<close>

theorem full_bank_undefined:
  assumes "valid_slots s = {..<MAX_CLIENTS}" "sr_handler s = H_Idle"
    "ProcessSubscribeMessage msg = Some (c, m, n, k)" "ClientExists (sr_ws s) c = None"
  shows "handler_step E s (s\<lparr>sr_handler := H_Undefined\<rparr>)"
proof -
  have "indexToAdd (sr_ws s) = None"
    using assms(1) by (auto simp: indexToAdd_None valid_slots_def)
  then show ?thesis using assms(2-4) by (intro h_full)
qed

text \<open>The power-of-two test of \<open>main\<close> lets 0 threads through.\<close>

theorem zero_threads_accepted:
  "server_main (demo_sock False) hardware [program, ''0''] pid ([], []) =
     (Inr (Some ((3, 4), demo_workspace\<lparr>ws_numWorkerThreads := 0, ws_serverPid := pid\<rparr>)), ([4, 3], []))"
proof -
  have "atoi ''0'' = Inr 0"
    by (simp add: atoi_def read_signed_def skip_space_def is_space_def is_digit_def digits_value_def digit_value_def
        fits_int_def Let_def)
  then show ?thesis
    using demo_server_ctor by (simp add: server_main_def demo_workspace_def)
qed

end
