(* ===== verification/Transpose_Client.thy ===== *)
theory Transpose_Client
  imports Demo_Common Spsc_SeqLock Futex_Signaller Matrix_Buffer Client_Stats Client_Server_Message Mat_Transpose
begin

text \<open>
  \<open>transposer_demo/transpose_client\<close>: the arguments, the set-up of the shared objects, the message
  handler and the final check of the results. The loop of requests in between meets the server in the
  theory of the whole system.
\<close>

section \<open>Arguments\<close>

text \<open>
  \<open>argv\<close> includes the program name. \<open>None\<close> is the usage error; a number beyond \<open>int\<close> makes \<open>atoi\<close>
  undefined (\<open>Inl\<close>).
\<close>

definition ProcessArguments :: "string list \<Rightarrow> cpp_error + (u32 \<times> u32 \<times> u32 \<times> u32) option" where
  "ProcessArguments argv =
     (if length argv \<noteq> 5 \<and> length argv \<noteq> 1 then Inr None
      else if length argv = 1 then Inr (Some (4, 4, 8, 1))
      else (case (atoi (argv ! 1), atoi (argv ! 2), atoi (argv ! 3), atoi (argv ! 4)) of
              (Inr m, Inr n, Inr k, Inr r) \<Rightarrow> Inr (Some (word_of_int m, word_of_int n, word_of_int k, word_of_int r))
            | _ \<Rightarrow> Inl Undefined))"

section \<open>Set-up\<close>

record ClientWorkspace =
  cw_requestRepetitions :: u32
  cw_clientPid :: u32
  cw_m :: u32
  cw_n :: u32
  cw_k :: u32
  cw_stats :: ClientStats
  cw_subscribeResponseReceived :: bool
  cw_matrixBuffers :: "SharedMatrixBuffer list"
  cw_matrixBuffersTr :: "SharedMatrixBuffer list"
  cw_matrixBuffersTrReference :: "SharedMatrixBuffer list"
  cw_pRequestQueue :: "sl_handle option"
  cw_pTransposeReadyFutex :: "futex_handle option"

definition new_workspace :: "u32 \<Rightarrow> u32 \<Rightarrow> u32 \<Rightarrow> u32 \<Rightarrow> u32 \<Rightarrow> ClientWorkspace" where
  "new_workspace pid m n k repetitions =
     \<lparr>cw_requestRepetitions = repetitions, cw_clientPid = pid, cw_m = m, cw_n = n, cw_k = k,
      cw_stats = new_stats, cw_subscribeResponseReceived = False, cw_matrixBuffers = [],
      cw_matrixBuffersTr = [], cw_matrixBuffersTrReference = [], cw_pRequestQueue = None,
      cw_pTransposeReadyFutex = None\<rparr>"

text \<open>The handler of the client takes any message for the response.\<close>

definition ClientMessageHandler :: "ClientServerMessage \<Rightarrow> ClientWorkspace \<Rightarrow> ClientWorkspace" where
  "ClientMessageHandler message w = w\<lparr>cw_subscribeResponseReceived := True\<rparr>"

fun client_buffers :: "'k posix \<Rightarrow> u32 list \<Rightarrow> ClientWorkspace \<Rightarrow> 'k \<Rightarrow> bool \<times> ClientWorkspace \<times> 'k" where
  "client_buffers P [] w k = (True, w, k)"
| "client_buffers P (bufferIndex # bs) w k =
     (case mb_ctor P (cw_clientPid w) Client (cw_m w) (cw_n w) bufferIndex Init_Random MATRIX_BUF_NAME_SUFFIX k of
        (Inl e, k1) \<Rightarrow> (False, w, k1)
      | (Inr b, k1) \<Rightarrow>
          (let w1 = w\<lparr>cw_matrixBuffers := cw_matrixBuffers w @ [b]\<rparr>
           in case mb_ctor P (cw_clientPid w) Client (cw_m w) (cw_n w) bufferIndex Init_ZeroMatrix TR_MATRIX_BUF_NAME_SUFFIX k1 of
                (Inl e, k2) \<Rightarrow> (False, w1, k2)
              | (Inr t, k2) \<Rightarrow>
                  (let w2 = w1\<lparr>cw_matrixBuffersTr := cw_matrixBuffersTr w1 @ [t]\<rparr>
                   in case mb_ctor P (cw_clientPid w) Client (cw_m w) (cw_n w) bufferIndex Init_ZeroMatrix TR_GOLDEN_MATRIX_BUF_NAME_SUFFIX k2 of
                        (Inl e, k3) \<Rightarrow> (False, w2, k3)
                      | (Inr g, k3) \<Rightarrow>
                          client_buffers P bs (w2\<lparr>cw_matrixBuffersTrReference := cw_matrixBuffersTrReference w2 @ [g]\<rparr>) k3)))"

text \<open>
  The \<open>try\<close> block of \<open>main\<close>, on the kernel of the sockets and that of the shared memory; \<open>reserve\<close>
  says whether memory is found for that many pointers. The result says whether the set-up succeeded
  (otherwise \<open>main\<close> returns 1), and carries the descriptors of the connection.
\<close>

definition client_setup ::
  "'n sock \<Rightarrow> 'k posix \<Rightarrow> file_system \<Rightarrow> bool \<Rightarrow> (u32 \<Rightarrow> bool) \<Rightarrow> ClientWorkspace \<Rightarrow> 'n \<Rightarrow> 'k \<Rightarrow>
   ((int \<times> int) option \<times> ClientWorkspace) \<times> 'n \<times> 'k" where
  "client_setup S P fs lockFree reserve w0 net k =
     (case client_ctor S SERVER_SOCKET_ADDRESS net of
        (Inl e, net1) \<Rightarrow> ((None, w0), net1, k)
      | (Inr conn, net1) \<Rightarrow>
          (case futex_ctor P fs (cw_clientPid w0) Waiter [] k of
             (Inl e, k1) \<Rightarrow> ((None, w0), net1, k1)
           | (Inr (f, word), k1) \<Rightarrow>
               (let w1 = w0\<lparr>cw_pTransposeReadyFutex := Some f\<rparr>
                in case sl_ctor P fs lockFree (cw_clientPid w0) SL_Producer REQ_QUEUE_CAPACITY REQ_QUEUE_NAME_SUFFIX k1 of
                     (Inl e, k2) \<Rightarrow> ((None, w1), net1, k2)
                   | (Inr (q, d), k2) \<Rightarrow>
                       (let w2 = w1\<lparr>cw_pRequestQueue := Some q\<rparr>
                        in if \<not> reserve (cw_k w0) then ((None, w2), net1, k2)
                           else (case client_buffers P (word_range 0 (cw_k w0)) w2 k2 of
                                   (ok, w3, k3) \<Rightarrow> (((if ok then Some conn else None), w3), net1, k3))))))"

text \<open>
  \<open>main\<close> up to the subscription, on the pid of the process: \<open>Inl None\<close> is the exit with status 1, \<open>Inl (Some e)\<close>
  undefined behaviour in the arguments, \<open>Inr\<close> the connection and the workspace to go on with.
\<close>

definition client_main ::
  "'n sock \<Rightarrow> 'k posix \<Rightarrow> file_system \<Rightarrow> bool \<Rightarrow> (u32 \<Rightarrow> bool) \<Rightarrow> string list \<Rightarrow> u32 \<Rightarrow> 'n \<Rightarrow> 'k \<Rightarrow>
   (cpp_error option + (int \<times> int) \<times> ClientWorkspace) \<times> 'n \<times> 'k" where
  "client_main S P fs lockFree reserve argv pid net kern =
     (case ProcessArguments argv of
        Inl e \<Rightarrow> (Inl (Some e), net, kern)
      | Inr None \<Rightarrow> (Inl None, net, kern)
      | Inr (Some (m, n, k, repetitions)) \<Rightarrow>
          (case client_setup S P fs lockFree reserve (new_workspace pid m n k repetitions) net kern of
             ((None, w), net', kern') \<Rightarrow> (Inl None, net', kern')
           | ((Some conn, w), net', kern') \<Rightarrow> (Inr (conn, w), net', kern')))"

text \<open>The two messages the client sends.\<close>

definition client_subscribe :: "ClientServerMessage \<Rightarrow> ClientWorkspace \<Rightarrow> ClientServerMessage" where
  "client_subscribe message w = GenerateSubscribeMessage message (cw_clientPid w) (cw_m w) (cw_n w) (cw_k w)"

definition client_unsubscribe :: "ClientServerMessage \<Rightarrow> ClientWorkspace \<Rightarrow> ClientServerMessage" where
  "client_unsubscribe message w = GenerateUnsubscribeMessage message (cw_clientPid w)"

text \<open>The line the client logs after its last request. The product of the two counts wraps at 32 bits.\<close>

definition client_log :: "ClientWorkspace \<Rightarrow> string" where
  "client_log w =
     ''client: '' @ dec (unat (cw_clientPid w)) @ '', m: '' @ dec (unat (cw_m w)) @ '', n: '' @ dec (unat (cw_n w)) @
     '', k: '' @ dec (unat (cw_k w)) @ '', reps: '' @ dec (unat (cw_requestRepetitions w)) @
     '', reqs: '' @ dec (unat (cw_requestRepetitions w * cw_k w)) @
     '', avgTime: '' @ dec (unat (GetAverageElapsedTimeUs (cw_stats w))) @ '' (ns)'' @ [CHR 0x0A]"

section \<open>The check of the results\<close>

text \<open>
  For each buffer, given by its matrix, the server's result and the reference region: transpose the
  matrix into the reference and compare. The result says whether an error was found; \<open>None\<close> is an
  access out of bounds.
\<close>

fun client_check :: "u32 \<Rightarrow> u32 \<Rightarrow> (u64 list \<times> u64 list \<times> u64 list) list \<Rightarrow> bool option" where
  "client_check rows cols [] = Some False"
| "client_check rows cols ((mat, tr, ref) # bs) =
     (case TransposeNaive mat ref rows cols of
        None \<Rightarrow> None
      | Some ref' \<Rightarrow>
          (case MatricesAreEqual tr ref' rows cols of
             None \<Rightarrow> None
           | Some equal \<Rightarrow> map_option (\<lambda>err. \<not> equal \<or> err) (client_check rows cols bs)))"

definition client_status :: "bool \<Rightarrow> nat" where
  "client_status errorFound = (if errorFound then 1 else 0)"

text \<open>A region starts with the transposition of a matrix exactly when the elements say so.\<close>

lemma take_eq_transposed_iff:
  assumes "r * c \<le> length tr"
  shows "take (r * c) tr = transposed r c mat \<longleftrightarrow>
    (\<forall>i < r. \<forall>j < c. tr ! (j * r + i) = mat ! (i * c + j))"
proof
  assume eq: "take (r * c) tr = transposed r c mat"
  show "\<forall>i < r. \<forall>j < c. tr ! (j * r + i) = mat ! (i * c + j)"
  proof (intro allI impI)
    fix i j assume ij: "i < r" "j < c"
    then have "j * r + i < r * c" by (rule flat_index_less_transposed)
    then have "tr ! (j * r + i) = transposed r c mat ! (j * r + i)" using eq nth_take by metis
    then show "tr ! (j * r + i) = mat ! (i * c + j)" using transposed_nth [OF ij] by simp
  qed
next
  assume el: "\<forall>i < r. \<forall>j < c. tr ! (j * r + i) = mat ! (i * c + j)"
  show "take (r * c) tr = transposed r c mat"
  proof (rule nth_equalityI)
    fix p assume "p < length (take (r * c) tr)"
    then have p: "p < r * c" by simp
    then have "0 < r" by (cases r) simp_all
    then have "p mod r < r" "p div r < c" using p by (simp_all add: less_mult_imp_div_less mult.commute)
    with el have "tr ! (p div r * r + p mod r) = mat ! (p mod r * c + p div r)" by blast
    then show "take (r * c) tr ! p = transposed r c mat ! p" using p by (simp add: transposed_def)
  qed (use assms in simp)
qed

section \<open>What the set-up makes\<close>

lemma client_buffers_objects:
  "client_buffers P bs w k = (True, w', k') \<Longrightarrow>
     cw_clientPid w' = cw_clientPid w \<and> cw_m w' = cw_m w \<and> cw_n w' = cw_n w \<and> cw_k w' = cw_k w \<and>
     cw_pRequestQueue w' = cw_pRequestQueue w \<and> cw_pTransposeReadyFutex w' = cw_pTransposeReadyFutex w \<and>
     map mb_object (cw_matrixBuffers w') = map mb_object (cw_matrixBuffers w) @
       map (object_spec (cw_clientPid w) (cw_m w) (cw_n w) MATRIX_BUF_NAME_SUFFIX) bs \<and>
     map mb_object (cw_matrixBuffersTr w') = map mb_object (cw_matrixBuffersTr w) @
       map (object_spec (cw_clientPid w) (cw_m w) (cw_n w) TR_MATRIX_BUF_NAME_SUFFIX) bs \<and>
     map mb_object (cw_matrixBuffersTrReference w') = map mb_object (cw_matrixBuffersTrReference w) @
       map (object_spec (cw_clientPid w) (cw_m w) (cw_n w) TR_GOLDEN_MATRIX_BUF_NAME_SUFFIX) bs"
proof (induction P bs w k rule: client_buffers.induct)
  case (2 P bufferIndex bs w k)
  obtain b k1 where b: "mb_ctor P (cw_clientPid w) Client (cw_m w) (cw_n w) bufferIndex Init_Random MATRIX_BUF_NAME_SUFFIX k = (Inr b, k1)"
    using "2.prems" by (auto split: prod.splits sum.splits)
  obtain t k2 where t: "mb_ctor P (cw_clientPid w) Client (cw_m w) (cw_n w) bufferIndex Init_ZeroMatrix TR_MATRIX_BUF_NAME_SUFFIX k1 = (Inr t, k2)"
    using "2.prems" b by (auto simp: Let_def split: prod.splits sum.splits)
  obtain g k3 where g: "mb_ctor P (cw_clientPid w) Client (cw_m w) (cw_n w) bufferIndex Init_ZeroMatrix TR_GOLDEN_MATRIX_BUF_NAME_SUFFIX k2 = (Inr g, k3)"
    using "2.prems" b t by (auto simp: Let_def split: prod.splits sum.splits)
  from "2.IH" [OF b [symmetric] refl refl t [symmetric] refl refl g [symmetric] refl] "2.prems" b t g
  show ?case using mb_ctor_object [OF b] mb_ctor_object [OF t] mb_ctor_object [OF g] by (simp add: Let_def)
qed simp

lemma client_check_value:
  assumes "unat R * unat C < 2 ^ 32"
    "\<forall>(mat, tr, ref) \<in> set bs. unat R * unat C \<le> length mat \<and> unat R * unat C \<le> length tr \<and> unat R * unat C \<le> length ref"
  shows "client_check R C bs =
    Some (\<exists>(mat, tr, ref) \<in> set bs. take (unat R * unat C) tr \<noteq> transposed (unat R) (unat C) mat)"
  using assms(2)
proof (induction bs)
  case (Cons x bs)
  obtain mat tr ref where x: "x = (mat, tr, ref)" using prod_cases3 by blast
  have len: "unat R * unat C \<le> length mat" "unat R * unat C \<le> length tr" "unat R * unat C \<le> length ref"
    using Cons.prems x by auto
  have prod: "unat (R * C) = unat R * unat C"
    using assms(1) by (simp add: unat_word_ariths)
  have naive: "TransposeNaive mat ref R C = Some (transposed (unat R) (unat C) mat @ drop (unat R * unat C) ref)"
    using assms(1) len by (intro TransposeNaive_spec) simp_all
  have "MatricesAreEqual tr (transposed (unat R) (unat C) mat @ drop (unat R * unat C) ref) R C =
      Some (take (unat R * unat C) tr = transposed (unat R) (unat C) mat)"
    using len by (subst MatricesAreEqual_spec) (simp_all add: prod)
  with naive x Cons show ?case by simp
qed simp

lemma client_setup_objects:
  assumes "client_setup S P fs lockFree reserve (new_workspace pid m n k reps) net kern = ((Some conn, w), net', kern')"
  shows "map mb_object (cw_matrixBuffers w) = map (object_spec pid m n MATRIX_BUF_NAME_SUFFIX) (word_range 0 k)"
    "map mb_object (cw_matrixBuffersTr w) = map (object_spec pid m n TR_MATRIX_BUF_NAME_SUFFIX) (word_range 0 k)"
    "map mb_object (cw_matrixBuffersTrReference w) = map (object_spec pid m n TR_GOLDEN_MATRIX_BUF_NAME_SUFFIX) (word_range 0 k)"
    "\<exists>q. cw_pRequestQueue w = Some q \<and> m_ShmObjectName (sl_SharedMemory q) = sl_CreateShmObjectName pid REQ_QUEUE_NAME_SUFFIX \<and>
       m_Ownership (sl_SharedMemory q) = Owner"
    "\<exists>f. cw_pTransposeReadyFutex w = Some f \<and> m_ShmObjectName (fh_SharedMemory f) = futex_CreateShmObjectName pid [] \<and>
       m_Ownership (fh_SharedMemory f) = Owner"
    "cw_clientPid w = pid" "cw_m w = m" "cw_n w = n" "cw_k w = k"
proof -
  let ?w0 = "new_workspace pid m n k reps"
  obtain net1 where ipc: "client_ctor S SERVER_SOCKET_ADDRESS net = (Inr conn, net1)"
    using assms by (auto simp: client_setup_def Let_def split: prod.splits sum.splits if_splits)
  obtain f wd k1 where fx: "futex_ctor P fs pid Waiter [] kern = (Inr (f, wd), k1)"
    using assms ipc by (auto simp: client_setup_def new_workspace_def Let_def split: prod.splits sum.splits if_splits)
  obtain q d k2 where qu: "sl_ctor P fs lockFree pid SL_Producer REQ_QUEUE_CAPACITY REQ_QUEUE_NAME_SUFFIX k1 = (Inr (q, d), k2)"
    using assms ipc fx by (auto simp: client_setup_def new_workspace_def Let_def split: prod.splits sum.splits if_splits)
  let ?w2 = "?w0\<lparr>cw_pTransposeReadyFutex := Some f, cw_pRequestQueue := Some q\<rparr>"
  obtain k3 where bufs: "client_buffers P (word_range 0 k) ?w2 k2 = (True, w, k3)"
    using assms ipc fx qu
    by (auto simp: client_setup_def new_workspace_def Let_def split: prod.splits if_splits)
  note obj = client_buffers_objects [OF bufs]
  show "map mb_object (cw_matrixBuffers w) = map (object_spec pid m n MATRIX_BUF_NAME_SUFFIX) (word_range 0 k)"
    "map mb_object (cw_matrixBuffersTr w) = map (object_spec pid m n TR_MATRIX_BUF_NAME_SUFFIX) (word_range 0 k)"
    "map mb_object (cw_matrixBuffersTrReference w) = map (object_spec pid m n TR_GOLDEN_MATRIX_BUF_NAME_SUFFIX) (word_range 0 k)"
    using obj by (simp_all add: new_workspace_def)
  show "\<exists>q. cw_pRequestQueue w = Some q \<and> m_ShmObjectName (sl_SharedMemory q) = sl_CreateShmObjectName pid REQ_QUEUE_NAME_SUFFIX \<and>
       m_Ownership (sl_SharedMemory q) = Owner"
    using obj sl_ctor_object [OF qu] by simp
  show "\<exists>f. cw_pTransposeReadyFutex w = Some f \<and> m_ShmObjectName (fh_SharedMemory f) = futex_CreateShmObjectName pid [] \<and>
       m_Ownership (fh_SharedMemory f) = Owner"
    using obj futex_roles [OF fx] by (simp add: shm_GetName_def)
  show "cw_clientPid w = pid" "cw_m w = m" "cw_n w = n" "cw_k w = k"
    using obj by (simp_all add: new_workspace_def)
qed

section \<open>Properties\<close>

text \<open>Property C34: the client's verdict is right. For matrices of fewer than \<open>2 ^ 32\<close> elements the check
  stays in bounds, and it reports an error exactly when the server's result for some buffer is not the
  transposition of the buffer's matrix.\<close>

theorem client_verdict:
  assumes "unat R * unat C < 2 ^ 32"
    "\<forall>(mat, tr, ref) \<in> set bs. unat R * unat C \<le> length mat \<and> unat R * unat C \<le> length tr \<and> unat R * unat C \<le> length ref"
  shows "\<exists>errorFound. client_check R C bs = Some errorFound \<and>
    (client_status errorFound = 1 \<longleftrightarrow>
      (\<exists>(mat, tr, ref) \<in> set bs. \<exists>i < unat R. \<exists>j < unat C. tr ! (j * unat R + i) \<noteq> mat ! (i * unat C + j)))"
proof -
  have eq: "take (unat R * unat C) tr = transposed (unat R) (unat C) mat \<longleftrightarrow>
      (\<forall>i < unat R. \<forall>j < unat C. tr ! (j * unat R + i) = mat ! (i * unat C + j))"
    if "(mat, tr, ref) \<in> set bs" for mat tr ref
    using that assms(2) by (intro take_eq_transposed_iff) auto
  show ?thesis
    unfolding client_check_value [OF assms] client_status_def using eq by fastforce
qed

theorem client_verdict_witness:
  "\<exists>errorFound. client_check 2 1 [([5, 6], [5, 6], [0, 0])] = Some errorFound \<and> client_status errorFound \<noteq> 1"
proof -
  have "\<not> (\<exists>(mat, tr, ref) \<in> set [([5, 6 :: u64], [5, 6 :: u64], [0, 0 :: u64])]. \<exists>i < unat (2 :: u32). \<exists>j < unat (1 :: u32).
      tr ! (j * unat (2 :: u32) + i) \<noteq> mat ! (i * unat (1 :: u32) + j))"
    by (auto simp: less_Suc_eq)
  with client_verdict [of 2 1 "[([5, 6], [5, 6], [0, 0])]"] show ?thesis by simp
qed

text \<open>Objects that a killed process has left behind block a process that gets the same id. While
  the futex object of that id exists \<open>main\<close> ends before it subscribes, whatever its arguments, and the
  objects are left as they are.\<close>

theorem stale_objects_block_client:
  assumes "posix_laws P ex" "ex kern (futex_CreateShmObjectName pid [])"
    "client_main S P fs lockFree reserve argv pid net kern = (r, net', kern')"
  shows "(\<exists>e. r = Inl e) \<and> ex kern' = ex kern"
proof -
  have blocked: "(\<exists>e. res = Inl e) \<and> ex k' = ex kern"
    if "futex_ctor P fs pid Waiter [] kern = (res, k')" for res k'
    using that ctor_names [OF assms(1)] assms(2)
    by (fastforce simp: futex_ctor_def Let_def split: prod.splits sum.splits if_splits)
  show ?thesis
    using assms(3) blocked
    by (fastforce simp: client_main_def client_setup_def new_workspace_def Let_def split: prod.splits sum.splits option.splits if_splits)
qed

theorem stale_objects_block_client_witness:
  "\<exists>e net' kern'. client_main (demo_sock False) (list_kernel 4096) (\<lambda>_. None) True (\<lambda>_. True) [''client''] 7 ([], [])
     [futex_CreateShmObjectName 7 []] = (Inl e, net', kern') \<and> listed kern' = listed [futex_CreateShmObjectName 7 []]"
proof -
  let ?run = "client_main (demo_sock False) (list_kernel 4096) (\<lambda>_. None) True (\<lambda>_. True) [''client''] 7 ([], [])
     [futex_CreateShmObjectName 7 []]"
  obtain r net' kern' where run: "?run = (r, net', kern')" using prod_cases3 by blast
  have "listed [futex_CreateShmObjectName 7 []] (futex_CreateShmObjectName 7 [])" by (simp add: listed_def)
  from stale_objects_block_client [OF list_kernel_laws this run] run show ?thesis by auto
qed

end
