(* ===== verification/Transpose_System.thy ===== *)
theory Transpose_System
  imports Transpose_Server Transpose_Client "HOL-Library.Product_Lexorder"
begin

text \<open>
  One client and the dispatcher working on the client's shared objects: the request queue, the futex
  word, and the matrices with their results. A step is one call of the client's request loop or one
  call of \<open>WorkloadDispatcher\<close>'s body; that the interleaved accesses inside a call amount to the call
  is what the theories of the queue, the signaller and the tiled routine show.
\<close>

section \<open>The state\<close>

text \<open>
  What both sides have agreed on by the subscription: the matrices, the number of repetitions, and the
  server's threads.
\<close>

record sys_config =
  sg_src :: "u64 list list"
  sg_m :: u32
  sg_n :: u32
  sg_k :: u32
  sg_repetitions :: u32
  sg_threads :: u32

datatype requester = CL_Next u32 u32 | CL_Wait u32 u32 | CL_Done

text \<open>The client's points in the order in which it passes them.\<close>

fun requester_key :: "requester \<Rightarrow> nat \<times> nat \<times> nat \<times> nat" where
  "requester_key (CL_Next rep b) = (0, unat rep, unat b, 0)"
| "requester_key (CL_Wait rep b) = (0, unat rep, unat b, 1)"
| "requester_key CL_Done = (1, 0, 0, 0)"

lemma requester_key_inj: "requester_key x = requester_key y \<longleftrightarrow> x = y"
  by (cases x; cases y) (auto simp: word_unat_eq_iff)

instantiation requester :: linorder
begin

definition less_eq_requester :: "requester \<Rightarrow> requester \<Rightarrow> bool" where
  "less_eq_requester x y \<longleftrightarrow> requester_key x \<le> requester_key y"

definition less_requester :: "requester \<Rightarrow> requester \<Rightarrow> bool" where
  "less_requester x y \<longleftrightarrow> requester_key x < requester_key y"

instance
  by standard (auto simp: less_eq_requester_def less_requester_def requester_key_inj [symmetric])

end

datatype worker = SV_Poll | SV_Work u32 | SV_Wake | SV_Fault

record sys =
  sy_queue :: seqlock_data
  sy_word :: u32
  sy_dst :: "u64 list list"
  sy_client :: requester
  sy_server :: worker

abbreviation sg_rows :: "sys_config \<Rightarrow> u32" where
  "sg_rows g \<equiv> 2 ^ unat (sg_m g)"

abbreviation sg_cols :: "sys_config \<Rightarrow> u32" where
  "sg_cols g \<equiv> 2 ^ unat (sg_n g)"

text \<open>
  The client's double loop: \<open>CL_Next repetition bufferIndex\<close> is the head of the inner loop. The result
  of \<open>Enqueue\<close> is ignored, as in the code. \<open>Wait\<close> returns when it can take the signal.
\<close>

inductive client_step :: "sys_config \<Rightarrow> sys \<Rightarrow> sys \<Rightarrow> bool" for g :: sys_config where
  c_enqueue: "sy_client s = CL_Next rep b \<Longrightarrow> rep < sg_repetitions g \<Longrightarrow> b < sg_k g \<Longrightarrow>
     sl_Enqueue (REQ_QUEUE_CAPACITY - 1) b (sy_queue s) = Some (ok, q) \<Longrightarrow>
     client_step g s (s\<lparr>sy_client := CL_Wait rep b, sy_queue := q\<rparr>)"
| c_wait: "sy_client s = CL_Wait rep b \<Longrightarrow> sy_word s = 1 \<Longrightarrow>
     client_step g s (s\<lparr>sy_client := CL_Next rep (b + 1), sy_word := 0\<rparr>)"
| c_repeat: "sy_client s = CL_Next rep b \<Longrightarrow> rep < sg_repetitions g \<Longrightarrow> \<not> b < sg_k g \<Longrightarrow>
     client_step g s (s\<lparr>sy_client := CL_Next (rep + 1) 0\<rparr>)"
| c_done: "sy_client s = CL_Next rep b \<Longrightarrow> \<not> rep < sg_repetitions g \<Longrightarrow>
     client_step g s (s\<lparr>sy_client := CL_Done\<rparr>)"

text \<open>
  The dispatcher on this client's slot. The buffer index that comes out of the queue is not checked;
  the workers run under any schedule, and the routine returns when they have all joined.
\<close>

inductive server_step :: "sys_config \<Rightarrow> sys \<Rightarrow> sys \<Rightarrow> bool" for g :: sys_config where
  s_empty: "sy_server s = SV_Poll \<Longrightarrow>
     sl_Dequeue (REQ_QUEUE_CAPACITY - 1) v (sy_queue s) = Some (False, x, q) \<Longrightarrow>
     server_step g s (s\<lparr>sy_queue := q\<rparr>)"
| s_dequeue: "sy_server s = SV_Poll \<Longrightarrow>
     sl_Dequeue (REQ_QUEUE_CAPACITY - 1) v (sy_queue s) = Some (True, x, q) \<Longrightarrow>
     server_step g s (s\<lparr>sy_server := SV_Work x, sy_queue := q\<rparr>)"
| s_transpose: "sy_server s = SV_Work x \<Longrightarrow> arr_read (sg_src g) (unat x) = Some mat \<Longrightarrow>
     arr_read (sy_dst s) (unat x) = Some tr \<Longrightarrow>
     TransposeTiledMultiThreaded mat tr (sg_rows g) (sg_cols g) TRANSPOSE_TILE_SIZE (sg_threads g) sched = Running tr' progs \<Longrightarrow>
     joined (Running tr' progs) \<Longrightarrow>
     server_step g s (s\<lparr>sy_server := SV_Wake, sy_dst := (sy_dst s)[unat x := tr']\<rparr>)"
| s_bad_index: "sy_server s = SV_Work x \<Longrightarrow>
     arr_read (sg_src g) (unat x) = None \<or> arr_read (sy_dst s) (unat x) = None \<Longrightarrow>
     server_step g s (s\<lparr>sy_server := SV_Fault\<rparr>)"
| s_fault: "sy_server s = SV_Work x \<Longrightarrow> arr_read (sg_src g) (unat x) = Some mat \<Longrightarrow>
     arr_read (sy_dst s) (unat x) = Some tr \<Longrightarrow>
     TransposeTiledMultiThreaded mat tr (sg_rows g) (sg_cols g) TRANSPOSE_TILE_SIZE (sg_threads g) sched = Fault \<Longrightarrow>
     server_step g s (s\<lparr>sy_server := SV_Fault\<rparr>)"
| s_wake: "sy_server s = SV_Wake \<Longrightarrow>
     server_step g s (s\<lparr>sy_server := SV_Poll, sy_word := (if sy_word s = 0 then 1 else sy_word s)\<rparr>)"

inductive sys_step :: "sys_config \<Rightarrow> sys \<Rightarrow> sys \<Rightarrow> bool" for g :: sys_config where
  by_client: "client_step g s t \<Longrightarrow> sys_step g s t"
| by_server: "server_step g s t \<Longrightarrow> sys_step g s t"

definition sys_start :: "u64 list list \<Rightarrow> sys" where
  "sys_start dst = \<lparr>sy_queue = sl_initial REQ_QUEUE_CAPACITY, sy_word = 0, sy_dst = dst,
     sy_client = CL_Next 0 0, sy_server = SV_Poll\<rparr>"

text \<open>
  Dimensions of at least one tile, fewer than \<open>2 ^ 32\<close> elements, some thread, and \<open>k\<close> matrices and
  results of exactly the right size.
\<close>

definition config_ok :: "sys_config \<Rightarrow> bool" where
  "config_ok g \<longleftrightarrow> 6 \<le> unat (sg_m g) \<and> 6 \<le> unat (sg_n g) \<and> unat (sg_m g) + unat (sg_n g) < 32 \<and>
     sg_threads g \<noteq> 0 \<and> length (sg_src g) = unat (sg_k g) \<and>
     (\<forall>mat \<in> set (sg_src g). length mat = 2 ^ unat (sg_m g) * 2 ^ unat (sg_n g))"

definition results_ok :: "sys_config \<Rightarrow> u64 list list \<Rightarrow> bool" where
  "results_ok g dst \<longleftrightarrow> length dst = unat (sg_k g) \<and>
     (\<forall>tr \<in> set dst. length tr = 2 ^ unat (sg_m g) * 2 ^ unat (sg_n g))"

lemma config_shape:
  assumes "config_ok g"
  shows "unat (sg_rows g) = 2 ^ unat (sg_m g)" "unat (sg_cols g) = 2 ^ unat (sg_n g)"
    "unat (sg_rows g) * unat (sg_cols g) < 2 ^ 32" "tiled_shape (sg_rows g) (sg_cols g) TRANSPOSE_TILE_SIZE"
proof -
  have m: "6 \<le> unat (sg_m g)" "unat (sg_m g) < 32" and n: "6 \<le> unat (sg_n g)" "unat (sg_n g) < 32"
    and mn: "unat (sg_m g) + unat (sg_n g) < 32"
    using assms by (auto simp: config_ok_def)
  show rows: "unat (sg_rows g) = 2 ^ unat (sg_m g)" using m by (simp add: unat_exp)
  show cols: "unat (sg_cols g) = 2 ^ unat (sg_n g)" using n by (simp add: unat_exp)
  show prod: "unat (sg_rows g) * unat (sg_cols g) < 2 ^ 32"
    unfolding rows cols power_add [symmetric] using mn by (intro power_strict_increasing) simp_all
  have "(64 :: nat) dvd 2 ^ unat (sg_m g)" "(64 :: nat) dvd 2 ^ unat (sg_n g)"
    using le_imp_power_dvd [OF m(1), of "2 :: nat"] le_imp_power_dvd [OF n(1), of "2 :: nat"] by simp_all
  moreover have "sg_rows g \<noteq> 0" "sg_cols g \<noteq> 0"
    using rows cols by (metis power_not_zero unat_0 zero_neq_numeral)+
  moreover have "unat TRANSPOSE_TILE_SIZE = 64" "TRANSPOSE_TILE_SIZE \<noteq> 0" by (simp_all add: TRANSPOSE_TILE_SIZE_def)
  ultimately show "tiled_shape (sg_rows g) (sg_cols g) TRANSPOSE_TILE_SIZE"
    unfolding tiled_shape_def using prod rows cols by (simp add: mod_eq_0_iff_dvd)
qed

section \<open>The invariant\<close>

definition correct :: "sys_config \<Rightarrow> u64 list list \<Rightarrow> u32 \<Rightarrow> bool" where
  "correct g dst b \<longleftrightarrow>
     dst ! unat b = transposed (2 ^ unat (sg_m g)) (2 ^ unat (sg_n g)) (sg_src g ! unat b)"

definition finished :: "sys_config \<Rightarrow> u64 list list \<Rightarrow> u32 \<Rightarrow> u32 \<Rightarrow> bool" where
  "finished g dst rep b \<longleftrightarrow> (\<forall>b' < sg_k g. rep \<noteq> 0 \<or> b' < b \<longrightarrow> correct g dst b')"

text \<open>
  At most one request is on its way: in the queue, being worked on, done but not signalled, or
  signalled.
\<close>

fun phase_ok :: "sys_config \<Rightarrow> requester \<Rightarrow> worker \<Rightarrow> u32 list \<Rightarrow> u32 \<Rightarrow> u64 list list \<Rightarrow> bool" where
  "phase_ok g (CL_Next rep b) sv els w dst = (els = [] \<and> w = 0 \<and> sv = SV_Poll \<and> finished g dst rep b)"
| "phase_ok g (CL_Wait rep b) sv els w dst =
     (rep < sg_repetitions g \<and> b < sg_k g \<and> finished g dst rep b \<and>
      (els = [b] \<and> w = 0 \<and> sv = SV_Poll \<or>
       els = [] \<and> w = 0 \<and> sv = SV_Work b \<or>
       els = [] \<and> w = 0 \<and> sv = SV_Wake \<and> correct g dst b \<or>
       els = [] \<and> w = 1 \<and> sv = SV_Poll \<and> correct g dst b))"
| "phase_ok g CL_Done sv els w dst =
     (els = [] \<and> w = 0 \<and> sv = SV_Poll \<and> (sg_repetitions g \<noteq> 0 \<longrightarrow> (\<forall>b < sg_k g. correct g dst b)))"

definition sys_inv :: "sys_config \<Rightarrow> sys \<Rightarrow> bool" where
  "sys_inv g s \<longleftrightarrow> sl_ok (REQ_QUEUE_CAPACITY - 1) (sy_queue s) \<and> results_ok g (sy_dst s) \<and>
     phase_ok g (sy_client s) (sy_server s) (sl_elems (sy_queue s)) (sy_word s) (sy_dst s)"

lemma req_capacity: "is_capacity (unat REQ_QUEUE_CAPACITY) (REQ_QUEUE_CAPACITY - 1)"
  using pow2_test [of REQ_QUEUE_CAPACITY] by (simp add: REQ_QUEUE_CAPACITY_def)

lemma unat_req_mask: "unat (REQ_QUEUE_CAPACITY - 1) = 15"
  by (simp add: REQ_QUEUE_CAPACITY_def)

lemma sys_start_inv:
  assumes "results_ok g dst"
  shows "sys_inv g (sys_start dst)"
  using sl_initial_ok [OF req_capacity] assms
  by (simp add: sys_inv_def sys_start_def finished_def word_less_nat_alt)

lemma less_Suc_word:
  fixes b b' k :: u32
  assumes "b < k"
  shows "b' < b + 1 \<longleftrightarrow> b' < b \<or> b' = b"
  using unat_Suc_less [OF assms] by (auto simp: word_less_nat_alt word_unat_eq_iff less_Suc_eq)

lemma client_step_inv [inv_steps]:
  assumes "sys_inv g s" "client_step g s t"
  shows "sys_inv g t"
  using assms(2)
proof cases
  case (c_enqueue rep b ok q)
  have ph: "sl_ok (REQ_QUEUE_CAPACITY - 1) (sy_queue s)" "sl_elems (sy_queue s) = []" "sy_word s = 0"
    "sy_server s = SV_Poll" "finished g (sy_dst s) rep b"
    using assms(1) c_enqueue(2) by (simp_all add: sys_inv_def)
  then have "sl_ok (REQ_QUEUE_CAPACITY - 1) q" "sl_elems q = [b]"
    using sl.enq_room [OF ph(1), of b] c_enqueue(5) unat_req_mask by auto
  then show ?thesis using assms(1) ph c_enqueue(1,3,4) by (simp add: sys_inv_def)
next
  case (c_wait rep b)
  then have ph: "phase_ok g (CL_Wait rep b) (sy_server s) (sl_elems (sy_queue s)) 1 (sy_dst s)"
    using assms(1) by (simp add: sys_inv_def)
  then have "b < sg_k g" by simp
  then have "finished g (sy_dst s) rep (b + 1)"
    using ph less_Suc_word [of b] by (auto simp: finished_def)
  then show ?thesis using assms(1) ph c_wait(1) by (auto simp: sys_inv_def)
next
  case (c_repeat rep b)
  then have ph: "finished g (sy_dst s) rep b" using assms(1) by (simp add: sys_inv_def)
  have "b' < b" if "b' < sg_k g" for b' using that c_repeat(4) by (simp add: not_less)
  then have "finished g (sy_dst s) (rep + 1) 0" using ph by (auto simp: finished_def)
  then show ?thesis using assms(1) c_repeat(1,2) by (simp add: sys_inv_def)
next
  case (c_done rep b)
  then have ph: "finished g (sy_dst s) rep b" using assms(1) by (simp add: sys_inv_def)
  have "rep \<noteq> 0" if "sg_repetitions g \<noteq> 0"
    using that c_done(3) by (auto simp: word_neq_0_conv)
  then show ?thesis using assms(1) ph c_done(1,2) by (auto simp: sys_inv_def finished_def)
qed

text \<open>The transposition that the dispatcher starts is the right one, and it can be run to its end.\<close>

lemma work_result:
  assumes "config_ok g" "results_ok g dst" "b < sg_k g"
  shows "unat b < length (sg_src g)" "unat b < length dst"
    "TransposeTiledMultiThreaded (sg_src g ! unat b) (dst ! unat b) (sg_rows g) (sg_cols g) TRANSPOSE_TILE_SIZE
       (sg_threads g) sched \<noteq> Fault"
    "TransposeTiledMultiThreaded (sg_src g ! unat b) (dst ! unat b) (sg_rows g) (sg_cols g) TRANSPOSE_TILE_SIZE
       (sg_threads g) sched = Running tr' progs \<Longrightarrow> joined (Running tr' progs) \<Longrightarrow>
     results_ok g (dst[unat b := tr']) \<and> correct g (dst[unat b := tr']) b \<and>
     (\<forall>b'. correct g dst b' \<longrightarrow> correct g (dst[unat b := tr']) b')"
    "\<exists>sched tr' progs. TransposeTiledMultiThreaded (sg_src g ! unat b) (dst ! unat b) (sg_rows g) (sg_cols g)
       TRANSPOSE_TILE_SIZE (sg_threads g) sched = Running tr' progs \<and> joined (Running tr' progs)"
proof -
  show b: "unat b < length (sg_src g)" "unat b < length dst"
    using assms by (simp_all add: config_ok_def results_ok_def word_less_nat_alt)
  note sh = config_shape [OF assms(1)]
  have len: "length (sg_src g ! unat b) = unat (sg_rows g) * unat (sg_cols g)"
    "length (dst ! unat b) = unat (sg_rows g) * unat (sg_cols g)"
    using assms(1,2) b sh(1,2) by (simp_all add: config_ok_def results_ok_def)
  have n: "sg_threads g \<noteq> 0" using assms(1) by (simp add: config_ok_def)
  note run = tiled_run [OF sh(4) n, of "sg_src g ! unat b" "dst ! unat b"]
  show nf: "TransposeTiledMultiThreaded (sg_src g ! unat b) (dst ! unat b) (sg_rows g) (sg_cols g) TRANSPOSE_TILE_SIZE
       (sg_threads g) sched \<noteq> Fault" for sched
    using run [of sched] len by auto
  show "results_ok g (dst[unat b := tr']) \<and> correct g (dst[unat b := tr']) b \<and>
     (\<forall>b'. correct g dst b' \<longrightarrow> correct g (dst[unat b := tr']) b')"
    if "TransposeTiledMultiThreaded (sg_src g ! unat b) (dst ! unat b) (sg_rows g) (sg_cols g) TRANSPOSE_TILE_SIZE
       (sg_threads g) sched = Running tr' progs" "joined (Running tr' progs)"
  proof -
    have tr': "tr' = transposed (2 ^ unat (sg_m g)) (2 ^ unat (sg_n g)) (sg_src g ! unat b)"
      using run [of sched] that len sh(1,2) by simp
    have "results_ok g (dst[unat b := tr'])"
      using assms(2) tr' by (auto simp: results_ok_def dest!: set_update_subset_insert [THEN subsetD])
    moreover have c: "correct g (dst[unat b := tr']) b" using b(2) tr' by (simp add: correct_def)
    moreover have "correct g (dst[unat b := tr']) b'" if "correct g dst b'" for b'
    proof (cases "unat b' = unat b")
      case True
      then have "b' = b" by (simp add: word_unat_eq_iff)
      with c show ?thesis by simp
    next
      case False
      then show ?thesis using that by (simp add: correct_def)
    qed
    ultimately show ?thesis by blast
  qed
  let ?sched = "concat (replicate (unat (sg_rows g) * unat (sg_cols g)) [0..<unat (sg_threads g)])"
  have cnt: "m \<le> count_list (concat (replicate m [0..<k])) t" if "t < k" for m k t :: nat
  proof (induction m)
    case (Suc m)
    have "count_list [0..<k] t \<noteq> 0" using that by (simp add: count_list_0_iff)
    with Suc show ?case by simp
  qed simp
  have "joined (TransposeTiledMultiThreaded (sg_src g ! unat b) (dst ! unat b) (sg_rows g) (sg_cols g)
       TRANSPOSE_TILE_SIZE (sg_threads g) ?sched)"
    using len cnt by (intro tiled_joins [OF sh(4) n]) simp_all
  then show "\<exists>sched tr' progs. TransposeTiledMultiThreaded (sg_src g ! unat b) (dst ! unat b) (sg_rows g) (sg_cols g)
       TRANSPOSE_TILE_SIZE (sg_threads g) sched = Running tr' progs \<and> joined (Running tr' progs)"
    using run [of ?sched] len by fastforce
qed

lemma req_dequeue_empty:
  assumes "sl_ok (REQ_QUEUE_CAPACITY - 1) q" "sl_Dequeue (REQ_QUEUE_CAPACITY - 1) v q = Some (False, x, q')"
  shows "q' = q"
  using assms(2) sl.deq_empty [OF assms(1), of v] sl.deq_next [OF assms(1), of _ _ v]
  by (cases "sl_elems q") fastforce+

lemma req_dequeue_next:
  assumes "sl_ok (REQ_QUEUE_CAPACITY - 1) q" "sl_Dequeue (REQ_QUEUE_CAPACITY - 1) v q = Some (True, x, q')"
  shows "sl_elems q = x # sl_elems q'" "sl_ok (REQ_QUEUE_CAPACITY - 1) q'"
  using assms(2) sl.deq_empty [OF assms(1), of v] sl.deq_next [OF assms(1), of _ _ v]
  by (cases "sl_elems q"; fastforce)+

lemma server_step_inv [inv_steps]:
  assumes "config_ok g" "sys_inv g s" "server_step g s t"
  shows "sys_inv g t"
  using assms(3)
proof cases
  case (s_empty v x q)
  then have "q = sy_queue s" using assms(2) req_dequeue_empty by (auto simp: sys_inv_def)
  then show ?thesis using assms(2) s_empty(1) by simp
next
  case (s_dequeue v x q)
  then have "sl_ok (REQ_QUEUE_CAPACITY - 1) q" "sl_elems (sy_queue s) = x # sl_elems q"
    using assms(2) req_dequeue_next by (auto simp: sys_inv_def)
  then show ?thesis
    using assms(2) s_dequeue(1,2) by (cases "sy_client s") (auto simp: sys_inv_def)
next
  case (s_transpose x mat tr sched tr' progs)
  then obtain rep where ph: "sy_client s = CL_Wait rep x" "x < sg_k g" "results_ok g (sy_dst s)"
    using assms(2) by (cases "sy_client s") (auto simp: sys_inv_def)
  have "mat = sg_src g ! unat x" "tr = sy_dst s ! unat x"
    using s_transpose(3,4) by (simp_all add: arr_read_Some_iff)
  from work_result(4) [OF assms(1) ph(3,2) s_transpose(5) [unfolded this] s_transpose(6)]
  show ?thesis
    using assms(2) ph s_transpose(1,2) by (auto simp: sys_inv_def finished_def)
next
  case (s_bad_index x)
  then have ph: "x < sg_k g" "results_ok g (sy_dst s)"
    using assms(2) by (cases "sy_client s"; auto simp: sys_inv_def)+
  have "arr_read (sg_src g) (unat x) \<noteq> None" "arr_read (sy_dst s) (unat x) \<noteq> None"
    using work_result(1,2) [OF assms(1) ph(2,1)] by (simp_all add: mem_simps)
  with s_bad_index(3) show ?thesis by blast
next
  case (s_fault x mat tr sched)
  then have ph: "x < sg_k g" "results_ok g (sy_dst s)"
    using assms(2) by (cases "sy_client s"; auto simp: sys_inv_def)+
  have "mat = sg_src g ! unat x" "tr = sy_dst s ! unat x"
    using s_fault(3,4) by (simp_all add: arr_read_Some_iff)
  with work_result(3) [OF assms(1) ph(2,1)] s_fault(5) show ?thesis by blast
next
  case s_wake
  then show ?thesis
    using assms(2) by (cases "sy_client s") (auto simp: sys_inv_def)
qed

lemma sys_step_inv [inv_steps]:
  assumes "config_ok g" "sys_inv g s" "sys_step g s t"
  shows "sys_inv g t"
  using assms(3) by cases (use client_step_inv server_step_inv assms(1,2) in blast)+

lemma sys_reach_inv:
  assumes "(sys_step g)\<^sup>*\<^sup>* s t" "config_ok g" "sys_inv g s"
  shows "sys_inv g t"
  using assms by (induction rule: rtranclp_induct) (auto intro: sys_step_inv)

section \<open>Progress\<close>

text \<open>
  What is left to do, as a lexicographic measure: repetitions, buffers of this repetition, and the
  stages of the request on its way.
\<close>

fun stage :: "worker \<Rightarrow> u32 list \<Rightarrow> u32 \<Rightarrow> nat" where
  "stage sv els w = (if els \<noteq> [] then 4 else case sv of SV_Work x \<Rightarrow> 3 | SV_Wake \<Rightarrow> 2 | _ \<Rightarrow> 1)"

definition work_left :: "sys_config \<Rightarrow> sys \<Rightarrow> nat \<times> nat \<times> nat" where
  "work_left g s = (case sy_client s of
      CL_Next rep b \<Rightarrow> (unat (sg_repetitions g) + 1 - unat rep, unat (sg_k g) - unat b, 5)
    | CL_Wait rep b \<Rightarrow> (unat (sg_repetitions g) + 1 - unat rep, unat (sg_k g) - unat b,
        stage (sy_server s) (sl_elems (sy_queue s)) (sy_word s))
    | CL_Done \<Rightarrow> (0, 0, 0))"

abbreviation less_work :: "((nat \<times> nat \<times> nat) \<times> (nat \<times> nat \<times> nat)) set" where
  "less_work \<equiv> less_than <*lex*> less_than <*lex*> less_than"

lemma movesI:
  "sys_step g s t \<Longrightarrow> (work_left g t, work_left g s) \<in> less_work \<Longrightarrow>
     \<exists>t. sys_step g s t \<and> (work_left g t, work_left g s) \<in> less_work"
  by blast

lemma next_moves:
  assumes "sys_inv g s" "sy_client s = CL_Next rep b"
  shows "\<exists>t. sys_step g s t \<and> (work_left g t, work_left g s) \<in> less_work"
proof -
  have inv: "sl_ok (REQ_QUEUE_CAPACITY - 1) (sy_queue s)" "sl_elems (sy_queue s) = []" "sy_server s = SV_Poll"
    using assms by (simp_all add: sys_inv_def)
  consider (Done) "\<not> rep < sg_repetitions g" | (Repeat) "rep < sg_repetitions g" "\<not> b < sg_k g"
    | (Enqueue) "rep < sg_repetitions g" "b < sg_k g" by blast
  then show ?thesis
  proof cases
    case Done
    show ?thesis
      by (rule movesI [OF by_client [OF c_done [OF assms(2) Done]]]) (use assms(2) in \<open>auto simp: work_left_def\<close>)
  next
    case Repeat
    show ?thesis
      by (rule movesI [OF by_client [OF c_repeat [OF assms(2) Repeat]]]) (use assms(2) unat_Suc_less [OF Repeat(1)] Repeat(1) in \<open>auto simp: work_left_def word_less_nat_alt\<close>)
  next
    case Enqueue
    obtain q where q: "sl_Enqueue (REQ_QUEUE_CAPACITY - 1) b (sy_queue s) = Some (True, q)" "sl_elems q = [b]"
      using sl.enq_room [OF inv(1), of b] inv(2) unat_req_mask by auto
    show ?thesis
      by (rule movesI [OF by_client [OF c_enqueue [OF assms(2) Enqueue q(1)]]]) (use assms(2) q(2) in \<open>auto simp: work_left_def\<close>)
  qed
qed

lemma wait_moves:
  assumes "config_ok g" "sys_inv g s" "sy_client s = CL_Wait rep b"
  shows "\<exists>t. sys_step g s t \<and> (work_left g t, work_left g s) \<in> less_work"
proof -
  let ?m = "REQ_QUEUE_CAPACITY - 1"
  have inv: "sl_ok ?m (sy_queue s)" "results_ok g (sy_dst s)" "b < sg_k g"
    and ph: "phase_ok g (CL_Wait rep b) (sy_server s) (sl_elems (sy_queue s)) (sy_word s) (sy_dst s)"
    using assms(2,3) by (simp_all add: sys_inv_def)
  consider (Queued) "sl_elems (sy_queue s) = [b]" "sy_server s = SV_Poll"
    | (Working) "sl_elems (sy_queue s) = []" "sy_server s = SV_Work b"
    | (Waking) "sl_elems (sy_queue s) = []" "sy_server s = SV_Wake"
    | (Signalled) "sl_elems (sy_queue s) = []" "sy_server s = SV_Poll" "sy_word s = 1"
    using ph by auto
  then show ?thesis
  proof cases
    case Queued
    obtain q where q: "sl_Dequeue ?m 0 (sy_queue s) = Some (True, b, q)" "sl_elems q = []"
      using sl.deq_next [OF inv(1) Queued(1), of 0] by auto
    show ?thesis
      by (rule movesI [OF by_server [OF s_dequeue [OF Queued(2) q(1), of g]]]) (use assms(3) q(2) Queued in \<open>auto simp: work_left_def\<close>)
  next
    case Working
    note wr = work_result [OF assms(1) inv(2,3)]
    obtain sched tr' progs where run: "TransposeTiledMultiThreaded (sg_src g ! unat b) (sy_dst s ! unat b) (sg_rows g)
        (sg_cols g) TRANSPOSE_TILE_SIZE (sg_threads g) sched = Running tr' progs" "joined (Running tr' progs)"
      using wr(5) by blast
    show ?thesis
      by (rule movesI [OF by_server [OF s_transpose [OF Working(2) arr_read_in [OF wr(1)] arr_read_in [OF wr(2)] run]]]) (use assms(3) Working in \<open>auto simp: work_left_def\<close>)
  next
    case Waking
    show ?thesis
      by (rule movesI [OF by_server [OF s_wake [OF Waking(2), of g]]]) (use assms(3) Waking in \<open>auto simp: work_left_def\<close>)
  next
    case Signalled
    show ?thesis
      by (rule movesI [OF by_client [OF c_wait [OF assms(3) Signalled(3), of g]]]) (use assms(3) inv(3) unat_Suc_less [OF inv(3)] in \<open>auto simp: work_left_def word_less_nat_alt\<close>)
  qed
qed

lemma runs_to_done:
  assumes "config_ok g" "sys_inv g s"
  shows "\<exists>t. (sys_step g)\<^sup>*\<^sup>* s t \<and> sy_client t = CL_Done"
proof -
  have "wf (inv_image less_work (work_left g))" by (intro wf_inv_image wf_lex_prod wf_less_than)
  then show ?thesis
    using assms(2)
  proof (induction s rule: wf_induct_rule)
    case (less s)
    show ?case
    proof (cases "sy_client s = CL_Done")
      case False
      then obtain t where t: "sys_step g s t" "(work_left g t, work_left g s) \<in> less_work"
        using next_moves [OF less.prems] wait_moves [OF assms(1) less.prems] by (cases "sy_client s") blast+
      then have "(t, s) \<in> inv_image less_work (work_left g)" by simp
      from less.IH [OF this sys_step_inv [OF assms(1) less.prems t(1)]] t(1) show ?thesis
        by (meson converse_rtranclp_into_rtranclp)
    qed blast
  qed
qed

text \<open>Every step that changes anything brings the work nearer to its end; only polling an empty queue does not.\<close>

lemma client_step_works:
  assumes "sys_inv g s" "client_step g s t"
  shows "(work_left g t, work_left g s) \<in> less_work \<and> sy_client s < sy_client t"
  using assms(2)
proof cases
  case (c_enqueue rep b ok q)
  then have "sl_ok (REQ_QUEUE_CAPACITY - 1) (sy_queue s)" "sl_elems (sy_queue s) = []"
    using assms(1) by (simp_all add: sys_inv_def)
  then have "sl_elems q = [b]" using sl.enq_room [of "REQ_QUEUE_CAPACITY - 1" "sy_queue s" b] c_enqueue(5) unat_req_mask by auto
  with c_enqueue(1,2) show ?thesis by (simp add: work_left_def less_requester_def)
next
  case (c_wait rep b)
  then have b: "b < sg_k g" "sl_elems (sy_queue s) = []" using assms(1) by (auto simp: sys_inv_def)
  with c_wait(1,2) unat_Suc_less [OF b(1)] show ?thesis
    by (auto simp: work_left_def less_requester_def word_less_nat_alt)
next
  case (c_repeat rep b)
  with unat_Suc_less [OF c_repeat(3)] show ?thesis
    by (auto simp: work_left_def less_requester_def word_less_nat_alt)
qed (auto simp: work_left_def less_requester_def)

lemma server_step_works:
  assumes "config_ok g" "sys_inv g s" "server_step g s t"
  shows "t = s \<or> (work_left g t, work_left g s) \<in> less_work"
  using assms(3)
proof cases
  case (s_empty v x q)
  then have "q = sy_queue s" using assms(2) req_dequeue_empty by (auto simp: sys_inv_def)
  then show ?thesis using s_empty(1) by simp
next
  case (s_dequeue v x q)
  then have "sl_elems (sy_queue s) = x # sl_elems q" using assms(2) req_dequeue_next(1) by (auto simp: sys_inv_def)
  then show ?thesis
    using assms(2) s_dequeue(1,2) by (cases "sy_client s") (auto simp: sys_inv_def work_left_def)
next
  case (s_transpose x mat tr sched tr' progs)
  then show ?thesis using assms(2) by (cases "sy_client s") (auto simp: sys_inv_def work_left_def)
next
  case s_wake
  then show ?thesis using assms(2) by (cases "sy_client s") (auto simp: sys_inv_def work_left_def)
next
  case (s_bad_index x)
  then show ?thesis using server_step_inv [OF assms] by (cases "sy_client s") (auto simp: sys_inv_def)
next
  case (s_fault x mat tr sched)
  then show ?thesis using server_step_inv [OF assms] by (cases "sy_client s") (auto simp: sys_inv_def)
qed

lemma sys_step_works:
  assumes "config_ok g" "sys_inv g s" "sys_step g s t"
  shows "t = s \<or> (work_left g t, work_left g s) \<in> less_work"
  using assms(3) client_step_works [OF assms(2)] server_step_works [OF assms(1,2)] by cases auto

lemma wf_work: "wf (inv_image less_work (work_left g))"
  by (intro wf_inv_image wf_lex_prod wf_less_than)

text \<open>A run that does not change forever while something can be done reaches the client's end.\<close>

lemma run_inv:
  assumes "config_ok g" "sys_inv g (run 0)" "\<forall>i. sys_step g (run i) (run (Suc i))"
  shows "sys_inv g (run i)"
  by (induction i) (use assms sys_step_inv in auto)

lemma run_settles:
  assumes "config_ok g" "sys_inv g (run 0)" "\<forall>i. sys_step g (run i) (run (Suc i))"
  shows "\<exists>n \<ge> i. \<forall>j \<ge> n. run (Suc j) = run j"
proof (induction "run i" arbitrary: i rule: wf_induct_rule [OF wf_work [of g]])
  case (1 i)
  show ?case
  proof (cases "\<forall>j \<ge> i. run (Suc j) = run j")
    case False
    then obtain j where j: "i \<le> j" "run (Suc j) \<noteq> run j" "\<forall>l. i \<le> l \<and> l < j \<longrightarrow> run (Suc l) = run l"
      using exists_least_iff [of "\<lambda>j. i \<le> j \<and> run (Suc j) \<noteq> run j"] by auto
    have "run j = run i" using j(1,3) by (induction j rule: dec_induct) simp_all
    then have "(run (Suc j), run i) \<in> inv_image less_work (work_left g)"
      using sys_step_works [OF assms(1) run_inv [OF assms] assms(3) [rule_format], of j] j(2) by simp
    from 1 [OF this] j(1) show ?thesis by (meson Suc_leD order_trans)
  qed blast
qed


lemma done_or_moves:
  assumes "config_ok g" "sys_inv g s"
  shows "sy_client s = CL_Done \<or> (\<exists>t. sys_step g s t \<and> t \<noteq> s)"
proof -
  have "t \<noteq> s" if "(work_left g t, work_left g s) \<in> less_work" for t
    using that by (cases "work_left g s") auto
  then show ?thesis
    using next_moves [OF assms(2)] wait_moves [OF assms] by (cases "sy_client s") blast+
qed

lemma done_stays:
  assumes "config_ok g" "sys_inv g s" "sy_client s = CL_Done"
  shows "sys_step g s s" "sys_step g s t \<Longrightarrow> t = s"
proof -
  have s: "sl_ok (REQ_QUEUE_CAPACITY - 1) (sy_queue s)" "sl_elems (sy_queue s) = []" "sy_server s = SV_Poll"
    using assms(2,3) by (simp_all add: sys_inv_def)
  have "server_step g s (s\<lparr>sy_queue := sy_queue s\<rparr>)"
    by (rule s_empty [OF s(3) sl.deq_empty [OF s(1,2)]])
  then show "sys_step g s s" by (simp add: by_server)
  show "t = s" if "sys_step g s t"
    using sys_step_works [OF assms(1,2) that] assms(3) by (auto simp: work_left_def split: requester.splits)
qed

text \<open>There are such runs: a finite run to the end, and then the server polling an empty queue.\<close>

lemma fair_run_exists:
  assumes "config_ok g" "sys_inv g s"
  shows "\<exists>run. run 0 = s \<and> (\<forall>i. sys_step g (run i) (run (Suc i))) \<and>
    (\<forall>i. (\<exists>t. sys_step g (run i) t \<and> t \<noteq> run i) \<longrightarrow> (\<exists>j \<ge> i. run (Suc j) \<noteq> run j))"
proof -
  obtain t where t: "(sys_step g)\<^sup>*\<^sup>* s t" "sy_client t = CL_Done" using runs_to_done [OF assms] by blast
  note last = done_stays [OF assms(1) sys_reach_inv [OF t(1) assms] t(2)]
  obtain n f where f: "f 0 = s" "f n = t" "\<forall>i < n. sys_step g (f i) (f (Suc i))"
    using t(1) by (auto simp: rtranclp_power relpowp_fun_conv)
  let ?run = "\<lambda>i. f (min i n)"
  have step: "sys_step g (?run i) (?run (Suc i))" for i
    using f last(1) by (cases "i < n") (simp_all add: min_def)
  have "\<exists>j \<ge> i. ?run (Suc j) \<noteq> ?run j" if ch: "\<exists>u. sys_step g (?run i) u \<and> u \<noteq> ?run i" for i
  proof (rule ccontr)
    assume "\<not> ?thesis"
    then have const: "?run (Suc j) = ?run j" if "i \<le> j" for j using that by blast
    have "?run j = ?run i" if "i \<le> j" for j using that const by (induction j rule: dec_induct) simp_all
    from this [of "max i n"] have "?run i = t" using f(2) by simp
    with ch last(2) show False by auto
  qed
  with step f(1) show ?thesis by (intro exI [of _ ?run]) simp
qed

section \<open>Names\<close>

text \<open>The shared memory objects a client makes.\<close>

definition client_names :: "u32 \<Rightarrow> u32 \<Rightarrow> string list" where
  "client_names pid k =
     futex_CreateShmObjectName pid [] # sl_CreateShmObjectName pid REQ_QUEUE_NAME_SUFFIX #
     concat (map (\<lambda>b. map (mb_CreateShmObjectName pid b)
       [MATRIX_BUF_NAME_SUFFIX, TR_MATRIX_BUF_NAME_SUFFIX, TR_GOLDEN_MATRIX_BUF_NAME_SUFFIX]) (word_range 0 k))"

lemma buffer_names_product:
  "concat (map (\<lambda>b. map (mb_CreateShmObjectName pid b) sufs) bs) =
     map (\<lambda>(b, a). mb_CreateShmObjectName pid b a) (List.product bs sufs)"
  by (induction bs) (simp_all add: comp_def)

lemma name_kinds:
  "mb_CreateShmObjectName p b a \<noteq> futex_CreateShmObjectName q a'"
  "mb_CreateShmObjectName p b a \<noteq> sl_CreateShmObjectName q a'"
  "futex_CreateShmObjectName p a \<noteq> sl_CreateShmObjectName q a'"
  by (simp_all add: futex_CreateShmObjectName_def sl_CreateShmObjectName_def mb_CreateShmObjectName_def)

lemma client_names_distinct: "distinct (client_names pid k)"
proof -
  let ?sufs = "[MATRIX_BUF_NAME_SUFFIX, TR_MATRIX_BUF_NAME_SUFFIX, TR_GOLDEN_MATRIX_BUF_NAME_SUFFIX]"
  have "distinct ?sufs"
    by (simp add: MATRIX_BUF_NAME_SUFFIX_def TR_MATRIX_BUF_NAME_SUFFIX_def TR_GOLDEN_MATRIX_BUF_NAME_SUFFIX_def)
  then have "distinct (List.product (word_range 0 k) ?sufs)" by (intro distinct_product distinct_word_range)
  moreover have "inj (\<lambda>(b, a). mb_CreateShmObjectName pid b a)"
    using buffer_name_inj by (fastforce simp: inj_def)
  ultimately have "distinct (map (\<lambda>(b, a). mb_CreateShmObjectName pid b a) (List.product (word_range 0 k) ?sufs))"
    by (simp only: distinct_map inj_on_subset [OF _ subset_UNIV] simp_thms)
  then show ?thesis
    unfolding client_names_def buffer_names_product
    by (auto simp: name_kinds name_kinds [symmetric])
qed

lemma client_nameE:
  assumes "x \<in> set (client_names pid k)"
  obtains "x = futex_CreateShmObjectName pid []" | "x = sl_CreateShmObjectName pid REQ_QUEUE_NAME_SUFFIX"
    | b a where "x = mb_CreateShmObjectName pid b a"
  using assms unfolding client_names_def buffer_names_product by auto

lemma name_pids:
  "mb_CreateShmObjectName p b a = mb_CreateShmObjectName q b' a' \<Longrightarrow> p = q"
  "futex_CreateShmObjectName p a = futex_CreateShmObjectName q a' \<Longrightarrow> p = q"
  "sl_CreateShmObjectName p a = sl_CreateShmObjectName q a' \<Longrightarrow> p = q"
  using buffer_name_inj futex_name_inj queue_name_inj unfolding queue_names_coincide by blast+

lemma client_names_disjoint:
  assumes "x \<in> set (client_names pid k)" "x \<in> set (client_names pid' k')"
  shows "pid = pid'"
  using assms
  by (elim client_nameE) (use name_kinds name_pids in \<open>metis\<close>)+

section \<open>Properties\<close>

lemma check_value:
  assumes "config_ok g" "sys_inv g t" "results_ok g refs"
  shows "\<exists>errorFound. client_check (sg_rows g) (sg_cols g) (zip (sg_src g) (zip (sy_dst t) refs)) = Some errorFound \<and>
    (sy_client t = CL_Done \<and> sg_repetitions g \<noteq> 0 \<longrightarrow> client_status errorFound = 0)"
proof -
  note inv = assms(2) and refs = assms(3)
  note sh = config_shape [OF assms(1)]
  let ?bs = "zip (sg_src g) (zip (sy_dst t) refs)"
  have len: "length (sg_src g) = unat (sg_k g)" "length (sy_dst t) = unat (sg_k g)" "length refs = unat (sg_k g)"
    using assms(1) inv refs by (simp_all add: config_ok_def results_ok_def sys_inv_def)
  have sizes: "\<forall>(mat, tr, ref) \<in> set ?bs. length mat = unat (sg_rows g) * unat (sg_cols g) \<and>
      length tr = unat (sg_rows g) * unat (sg_cols g) \<and> length ref = unat (sg_rows g) * unat (sg_cols g)"
  proof (clarify)
    fix mat tr ref assume mem: "(mat, tr, ref) \<in> set ?bs"
    have "mat \<in> set (sg_src g)" "(tr, ref) \<in> set (zip (sy_dst t) refs)"
      using set_zip_leftD [OF mem] set_zip_rightD [OF mem] by simp_all
    moreover from this have "tr \<in> set (sy_dst t)" "ref \<in> set refs"
      using set_zip_leftD set_zip_rightD by fast+
    ultimately show "length mat = unat (sg_rows g) * unat (sg_cols g) \<and>
        length tr = unat (sg_rows g) * unat (sg_cols g) \<and> length ref = unat (sg_rows g) * unat (sg_cols g)"
      using assms(1) inv refs unfolding sh(1,2) by (simp add: config_ok_def results_ok_def sys_inv_def)
  qed
  have right: "take (unat (sg_rows g) * unat (sg_cols g)) tr = transposed (unat (sg_rows g)) (unat (sg_cols g)) mat"
    if fin: "sy_client t = CL_Done" "sg_repetitions g \<noteq> 0" and mem: "(mat, tr, ref) \<in> set ?bs" for mat tr ref
  proof -
    obtain i where i: "i < unat (sg_k g)" "mat = sg_src g ! i" "tr = sy_dst t ! i"
      using mem len by (auto simp: in_set_conv_nth)
    have u: "unat (of_nat i :: u32) = i"
      using i(1) unsigned_less [of "sg_k g", where 'a = nat] by (simp add: unsigned_of_nat take_bit_nat_eq_self)
    then have "of_nat i < sg_k g" using i(1) by (simp add: word_less_nat_alt)
    then have "correct g (sy_dst t) (of_nat i)" using inv fin by (simp add: sys_inv_def)
    then have "tr = transposed (unat (sg_rows g)) (unat (sg_cols g)) mat"
      using u i(2,3) sh(1,2) by (simp add: correct_def)
    then show ?thesis by simp
  qed
  have "client_check (sg_rows g) (sg_cols g) ?bs =
      Some (\<exists>(mat, tr, ref) \<in> set ?bs. take (unat (sg_rows g) * unat (sg_cols g)) tr \<noteq>
        transposed (unat (sg_rows g)) (unat (sg_cols g)) mat)"
    using sizes by (intro client_check_value [OF sh(3)]) auto
  moreover have "\<not> (\<exists>(mat, tr, ref) \<in> set ?bs. take (unat (sg_rows g) * unat (sg_cols g)) tr \<noteq>
        transposed (unat (sg_rows g)) (unat (sg_cols g)) mat)" if "sy_client t = CL_Done" "sg_repetitions g \<noteq> 0"
    using right [OF that] by blast
  ultimately show ?thesis by (simp add: client_status_def)
qed

lemma service_correct:
  assumes "config_ok g" "results_ok g dst" "(sys_step g)\<^sup>*\<^sup>* (sys_start dst) t"
  shows "sy_server t \<noteq> SV_Fault"
    "sy_client t = CL_Done \<Longrightarrow> sg_repetitions g \<noteq> 0 \<Longrightarrow> results_ok g refs \<Longrightarrow>
       map_option client_status (client_check (sg_rows g) (sg_cols g) (zip (sg_src g) (zip (sy_dst t) refs))) = Some 0"
proof -
  have inv: "sys_inv g t" by (rule sys_reach_inv [OF assms(3,1) sys_start_inv [OF assms(2)]])
  show "sy_server t \<noteq> SV_Fault" using inv by (cases "sy_client t") (auto simp: sys_inv_def)
  show "map_option client_status (client_check (sg_rows g) (sg_cols g) (zip (sg_src g) (zip (sy_dst t) refs))) = Some 0"
    if "sy_client t = CL_Done" "sg_repetitions g \<noteq> 0" "results_ok g refs"
    using check_value [OF assms(1) inv that(3)] that(1,2) by auto
qed

definition demo_config :: sys_config where
  "demo_config = \<lparr>sg_src = [replicate 4096 5], sg_m = 6, sg_n = 6, sg_k = 1, sg_repetitions = 1, sg_threads = 2\<rparr>"

lemma demo_config_ok: "config_ok demo_config" "results_ok demo_config [replicate 4096 0]"
  by (simp_all add: config_ok_def results_ok_def demo_config_def)

text \<open>End to end, the service is correct. For a client with matrices of at least one tile
  (\<open>6 \<le> m, n\<close>) and fewer than \<open>2 ^ 32\<close> elements, a server with some worker threads, any number of
  buffers and repetitions, and every interleaving: the server never faults, and when the client is done
  its own check of the results finds no error, so it exits with status 0.\<close>

theorem end_to_end_correct:
  assumes "config_ok g" "results_ok g dst" "(sys_step g)\<^sup>*\<^sup>* (sys_start dst) t"
  shows "sy_server t \<noteq> SV_Fault \<and>
    (sy_client t = CL_Done \<and> sg_repetitions g \<noteq> 0 \<and> results_ok g refs \<longrightarrow>
       map_option client_status (client_check (sg_rows g) (sg_cols g) (zip (sg_src g) (zip (sy_dst t) refs))) = Some 0)"
  using service_correct [OF assms] by blast

theorem end_to_end_correct_witness:
  "\<exists>t. (sys_step demo_config)\<^sup>*\<^sup>* (sys_start [replicate 4096 0]) t \<and> sy_client t = CL_Done \<and>
     map_option client_status (client_check (sg_rows demo_config) (sg_cols demo_config)
       (zip (sg_src demo_config) (zip (sy_dst t) [replicate 4096 0]))) = Some 0"
proof -
  obtain t where t: "(sys_step demo_config)\<^sup>*\<^sup>* (sys_start [replicate 4096 0]) t" "sy_client t = CL_Done"
    using runs_to_done [OF demo_config_ok(1) sys_start_inv [OF demo_config_ok(2)]] by blast
  moreover have "sg_repetitions demo_config \<noteq> 0" by (simp add: demo_config_def)
  ultimately show ?thesis using end_to_end_correct [OF demo_config_ok t(1)] demo_config_ok(2) t(2) by blast
qed

text \<open>End to end, the service cannot get stuck. From every state that client and server can
  reach, whatever the interleaving so far, the remaining requests can be served to the end: there is a
  continuation in which the client finishes.\<close>

theorem end_to_end_progress:
  assumes "config_ok g" "results_ok g dst" "(sys_step g)\<^sup>*\<^sup>* (sys_start dst) s"
  shows "\<exists>t. (sys_step g)\<^sup>*\<^sup>* s t \<and> sy_client t = CL_Done"
  using runs_to_done [OF assms(1) sys_reach_inv [OF assms(3,1) sys_start_inv [OF assms(2)]]] .

theorem end_to_end_progress_witness:
  "\<exists>t. (sys_step demo_config)\<^sup>*\<^sup>* (sys_start [replicate 4096 0]) t \<and> sy_client t = CL_Done"
  by (rule end_to_end_progress [OF demo_config_ok rtranclp.rtrancl_refl])

text \<open>Property C9: end to end, the service is live for a client whose matrices the tiles fit. Let \<open>m\<close> and \<open>n\<close> be at
  least 6, \<open>m + n\<close> less than 32, and let there be a worker thread (\<open>config_ok\<close>; for the default of 4
  and 4 the opposite holds, \<open>default_client_never_served\<close>). In every infinite run that does not stand still
  forever while a step could change something, whatever else the scheduler does, the client gets all
  its answers and finishes; and from then on nothing happens any more.\<close>

theorem end_to_end_liveness:
  assumes "config_ok g" "results_ok g dst" "run 0 = sys_start dst" "\<forall>i. sys_step g (run i) (run (Suc i))"
    "\<forall>i. (\<exists>t. sys_step g (run i) t \<and> t \<noteq> run i) \<longrightarrow> (\<exists>j \<ge> i. run (Suc j) \<noteq> run j)"
  shows "\<exists>n. sy_client (run n) = CL_Done \<and> (\<forall>j \<ge> n. run j = run n)"
proof -
  have inv0: "sys_inv g (run 0)" using sys_start_inv [OF assms(2)] assms(3) by simp
  obtain n where n: "\<forall>j \<ge> n. run (Suc j) = run j" using run_settles [OF assms(1) inv0 assms(4)] by blast
  then have "\<not> (\<exists>t. sys_step g (run n) t \<and> t \<noteq> run n)" using assms(5) by blast
  then have "sy_client (run n) = CL_Done"
    using done_or_moves [OF assms(1) run_inv [OF assms(1) inv0 assms(4)]] by blast
  moreover have "run j = run n" if "n \<le> j" for j using that n by (induction j rule: dec_induct) simp_all
  ultimately show ?thesis by blast
qed

theorem end_to_end_liveness_witness:
  "\<exists>run. run 0 = sys_start [replicate 4096 0] \<and> (\<forall>i. sys_step demo_config (run i) (run (Suc i))) \<and>
     (\<exists>n. sy_client (run n) = CL_Done)"
proof -
  obtain run where run: "run 0 = sys_start [replicate 4096 0]" "\<forall>i. sys_step demo_config (run i) (run (Suc i))"
      "\<forall>i. (\<exists>t. sys_step demo_config (run i) t \<and> t \<noteq> run i) \<longrightarrow> (\<exists>j \<ge> i. run (Suc j) \<noteq> run j)"
    using fair_run_exists [OF demo_config_ok(1) sys_start_inv [OF demo_config_ok(2)]] by blast
  from end_to_end_liveness [OF demo_config_ok run] run show ?thesis by blast
qed

lemma opened_objects:
  assumes "client_setup S P fs lockFree reserve (new_workspace pid m n k reps) net kern = ((Some conn, w), net', kern')"
    "ProcessSubscribeMessage (client_subscribe msg w) = Some (pid', m', n', k')"
    "setup_context E pid' m' n' k' socket old kern1 = Some (True, ctx, kern2)"
  shows "map mb_object (cx_matrixBuffers ctx) = map mb_object (cw_matrixBuffers w)"
    "map mb_object (cx_matrixBuffersTr ctx) = map mb_object (cw_matrixBuffersTr w)"
    "map_option (m_ShmObjectName \<circ> sl_SharedMemory) (cx_pRequestQueue ctx) =
      map_option (m_ShmObjectName \<circ> sl_SharedMemory) (cw_pRequestQueue w)"
    "map_option (m_ShmObjectName \<circ> fh_SharedMemory) (cx_pTransposeReadyFutex ctx) =
      map_option (m_ShmObjectName \<circ> fh_SharedMemory) (cw_pTransposeReadyFutex w)"
    "map_option (m_Ownership \<circ> sl_SharedMemory) (cx_pRequestQueue ctx) = Some Borrower"
    "map_option (m_Ownership \<circ> sl_SharedMemory) (cw_pRequestQueue w) = Some Owner"
proof -
  note cl = client_setup_objects [OF assms(1)]
  have eq: "pid' = pid" "m' = m" "n' = n" "k' = k"
    using assms(2) cl(6-9)
    by (auto simp: client_subscribe_def ProcessSubscribeMessage_def GenerateSubscribeMessage_def)
  note sv = setup_context_objects [OF assms(3) [unfolded eq]]
  show "map mb_object (cx_matrixBuffers ctx) = map mb_object (cw_matrixBuffers w)"
    "map mb_object (cx_matrixBuffersTr ctx) = map mb_object (cw_matrixBuffersTr w)"
    using cl sv by simp_all
  show "map_option (m_ShmObjectName \<circ> sl_SharedMemory) (cx_pRequestQueue ctx) =
      map_option (m_ShmObjectName \<circ> sl_SharedMemory) (cw_pRequestQueue w)"
    "map_option (m_ShmObjectName \<circ> fh_SharedMemory) (cx_pTransposeReadyFutex ctx) =
      map_option (m_ShmObjectName \<circ> fh_SharedMemory) (cw_pTransposeReadyFutex w)"
    "map_option (m_Ownership \<circ> sl_SharedMemory) (cx_pRequestQueue ctx) = Some Borrower"
    "map_option (m_Ownership \<circ> sl_SharedMemory) (cw_pRequestQueue w) = Some Owner"
    using cl(4,5) sv(3,4) by auto
qed

lemma demo_client_setup:
  "\<exists>conn w net' kern'. client_setup (demo_sock False) (list_kernel 4096) (\<lambda>_. None) True (\<lambda>_. True)
     (new_workspace 7 6 6 1 1) ([], []) [] = ((Some conn, w), net', kern')"
proof -
  have r: "word_range 0 (1 :: u32) = [0]" by (simp add: word_range_def)
  have "\<exists>conn net'. client_ctor (demo_sock False) SERVER_SOCKET_ADDRESS ([], []) = (Inr conn, net')"
    by (simp add: client_ctor_def base_ctor_def demo_sock_def open_new_def SUN_PATH_SIZE_def SERVER_SOCKET_ADDRESS_def Let_def)
  then obtain conn net' where "client_ctor (demo_sock False) SERVER_SOCKET_ADDRESS ([], []) = (Inr conn, net')" by blast
  then show ?thesis
    by (simp add: client_setup_def new_workspace_def futex_ctor_def sl_ctor_def SharedMemory_ctor_def list_kernel_def
        map_object_def FillWithZero_def Let_def MAP_FAILED_def REQ_QUEUE_CAPACITY_def r mb_ctor_def dimension_value
        name_kinds name_kinds [symmetric])
      (simp add: mb_CreateShmObjectName_def MATRIX_BUF_NAME_SUFFIX_def TR_MATRIX_BUF_NAME_SUFFIX_def
        TR_GOLDEN_MATRIX_BUF_NAME_SUFFIX_def)
qed

lemma demo_server_setup: "\<exists>ctx kern'. setup_context demo_env 7 6 6 1 5 new_context kern = Some (True, ctx, kern')"
proof -
  have r: "word_range 0 (1 :: u32) = [0]" by (simp add: word_range_def)
  have "shift_one 6 = Some 64" by (simp add: shift_one_def push_bit_eq_mult)
  then show ?thesis
    by (simp add: setup_context_def destroy_context_def new_context_def demo_env_def futex_ctor_def sl_ctor_def
        SharedMemory_ctor_def list_kernel_def map_object_def Let_def MAP_FAILED_def REQ_QUEUE_CAPACITY_def
        r mb_ctor_def dimension_value)
qed

text \<open>Property C24: the server opens what the client made. When the client's set-up succeeds and the
  server sets up a context from the client's subscription, the server borrows exactly the objects the
  client owns: matrices and results buffer by buffer with name and size, the request queue, and the
  signaller.\<close>

theorem server_opens_client_objects:
  assumes "client_setup S P fs lockFree reserve (new_workspace pid m n k reps) net kern = ((Some conn, w), net', kern')"
    "ProcessSubscribeMessage (client_subscribe msg w) = Some (pid', m', n', k')"
    "setup_context E pid' m' n' k' socket old kern1 = Some (True, ctx, kern2)"
  shows "map mb_object (cx_matrixBuffers ctx) = map mb_object (cw_matrixBuffers w) \<and>
    map mb_object (cx_matrixBuffersTr ctx) = map mb_object (cw_matrixBuffersTr w) \<and>
    map_option (m_ShmObjectName \<circ> sl_SharedMemory) (cx_pRequestQueue ctx) =
      map_option (m_ShmObjectName \<circ> sl_SharedMemory) (cw_pRequestQueue w) \<and>
    map_option (m_ShmObjectName \<circ> fh_SharedMemory) (cx_pTransposeReadyFutex ctx) =
      map_option (m_ShmObjectName \<circ> fh_SharedMemory) (cw_pTransposeReadyFutex w) \<and>
    map_option (m_Ownership \<circ> sl_SharedMemory) (cx_pRequestQueue ctx) = Some Borrower \<and>
    map_option (m_Ownership \<circ> sl_SharedMemory) (cw_pRequestQueue w) = Some Owner"
  using opened_objects [OF assms] by simp

theorem server_opens_client_objects_witness:
  "\<exists>(w :: ClientWorkspace) (ctx :: ClientContext).
     map mb_object (cx_matrixBuffers ctx) = map mb_object (cw_matrixBuffers w) \<and>
     length (cw_matrixBuffers w) = 1 \<and> map_option (m_Ownership \<circ> sl_SharedMemory) (cx_pRequestQueue ctx) = Some Borrower"
proof -
  obtain conn w net' kern' where c: "client_setup (demo_sock False) (list_kernel 4096) (\<lambda>_. None) True (\<lambda>_. True)
      (new_workspace 7 6 6 1 1) ([], []) [] = ((Some conn, w), net', kern')"
    using demo_client_setup by blast
  obtain ctx kern'' where s: "setup_context demo_env 7 6 6 1 5 new_context kern' = Some (True, ctx, kern'')"
    using demo_server_setup by blast
  note cl = client_setup_objects [OF c]
  let ?msg = "\<lparr>msg_type = 0, senderId = 0, param1 = 0, param2 = 0, param3 = 0\<rparr>"
  have m: "ProcessSubscribeMessage (client_subscribe ?msg w) = Some (7, 6, 6, 1)"
    using cl(6-9) by (simp add: client_subscribe_def ProcessSubscribeMessage_def GenerateSubscribeMessage_def)
  have "length (map mb_object (cw_matrixBuffers w)) = 1" unfolding cl(1) by simp
  then have "length (cw_matrixBuffers w) = 1" by simp
  with server_opens_client_objects [OF c m s] show ?thesis by (intro exI [of _ w] exI [of _ ctx]) simp
qed

text \<open>No two shared memory objects of a client have the same name, and two clients (of
  different pids) share none.\<close>

theorem object_names_distinct:
  "distinct (client_names pid k) \<and> (pid \<noteq> pid' \<longrightarrow> set (client_names pid k) \<inter> set (client_names pid' k') = {})"
  using client_names_distinct client_names_disjoint by blast

theorem object_names_distinct_witness:
  "set (client_names 7 2) \<inter> set (client_names 8 2) = {}"
  by (rule object_names_distinct [THEN conjunct2, THEN mp]) simp



end
