(* ===== verification/Transpose_Service.thy ===== *)
theory Transpose_Service
  imports Transpose_System
begin

text \<open>
  The whole service: the server with its handler, its dispatcher and its bank, and any number of
  clients, each with its own request loop, all on one store of shared memory objects that both sides
  reach by name. Every client sees the service as the client and server of the preceding theory:
  projected to the objects of one client, each step of the service is a step of that system or nothing.
\<close>

section \<open>The state\<close>

text \<open>The contents of the shared memory objects, by name.\<close>

record store =
  st_queues :: "string \<Rightarrow> seqlock_data"
  st_words :: "string \<Rightarrow> u32"
  st_matrices :: "string \<Rightarrow> u64 list"

record 'k service =
  sc_srv :: "'k srv"
  sc_worker :: worker
  sc_timing :: bool
  sc_store :: store
  sc_clients :: "u32 \<Rightarrow> requester"

abbreviation sc_bank :: "'k service \<Rightarrow> ClientContext list" where
  "sc_bank s \<equiv> ws_clientBank (sr_ws (sc_srv s))"

text \<open>
  The client the dispatcher is serving. \<open>sc_worker\<close> is the point it has reached there, and
  \<open>sc_timing\<close> says that the client has been woken and \<open>StopTimer\<close> is still to come.
\<close>

definition served :: "'k service \<Rightarrow> u32 option" where
  "served s = (case sr_dispatcher (sc_srv s) of D_Serve i \<Rightarrow> Some (cx_id (sc_bank s ! i)) | _ \<Rightarrow> None)"

lemma served_simps [simp]:
  "served (s\<lparr>sc_worker := w\<rparr>) = served s" "served (s\<lparr>sc_timing := b\<rparr>) = served s"
  "served (s\<lparr>sc_store := st\<rparr>) = served s" "served (s\<lparr>sc_clients := f\<rparr>) = served s"
  "served (s\<lparr>sc_srv := (sc_srv s)\<lparr>sr_ws := (sr_ws (sc_srv s))\<lparr>ws_running := b\<rparr>\<rparr>\<rparr>) = served s"
  by (simp_all add: served_def split: dispatcher_pc.split)

text \<open>A client's part of the state: its objects, its request loop, and the dispatcher if it serves it.\<close>

abbreviation queue_name :: "u32 \<Rightarrow> string" where
  "queue_name c \<equiv> sl_CreateShmObjectName c REQ_QUEUE_NAME_SUFFIX"

abbreviation futex_name :: "u32 \<Rightarrow> string" where
  "futex_name c \<equiv> futex_CreateShmObjectName c []"

abbreviation matrix_name :: "u32 \<Rightarrow> u32 \<Rightarrow> string" where
  "matrix_name c b \<equiv> mb_CreateShmObjectName c b MATRIX_BUF_NAME_SUFFIX"

abbreviation result_name :: "u32 \<Rightarrow> u32 \<Rightarrow> string" where
  "result_name c b \<equiv> mb_CreateShmObjectName c b TR_MATRIX_BUF_NAME_SUFFIX"

definition view :: "(u32 \<Rightarrow> sys_config) \<Rightarrow> 'k service \<Rightarrow> u32 \<Rightarrow> sys" where
  "view G s c =
     \<lparr>sy_queue = st_queues (sc_store s) (queue_name c), sy_word = st_words (sc_store s) (futex_name c),
      sy_dst = map (\<lambda>b. st_matrices (sc_store s) (result_name c b)) (word_range 0 (sg_k (G c))),
      sy_client = sc_clients s c,
      sy_server = (if served s = Some c then sc_worker s else SV_Poll)\<rparr>"

section \<open>The steps\<close>

text \<open>
  The body of the dispatcher's loop on the slot \<open>i\<close>, on the objects the context's handles name: the
  request comes out of the queue, its index selects the buffers (unchecked), the workers run under any
  schedule and are joined, the client is woken. The statistics are those of the slot.
\<close>

definition set_stats :: "nat \<Rightarrow> ClientStats \<Rightarrow> 'k srv \<Rightarrow> 'k srv" where
  "set_stats i st r =
     r\<lparr>sr_ws := (sr_ws r)\<lparr>ws_clientBank := (ws_clientBank (sr_ws r))[i := (ws_clientBank (sr_ws r) ! i)\<lparr>cx_stats := st\<rparr>]\<rparr>\<rparr>"

inductive serve_step :: "nat \<Rightarrow> ClientContext \<Rightarrow> 'k service \<Rightarrow> 'k service \<Rightarrow> bool"
  for i :: nat and ctx :: ClientContext where
  v_empty: "sc_worker s = SV_Poll \<Longrightarrow> \<not> sc_timing s \<Longrightarrow> cx_pRequestQueue ctx = Some q \<Longrightarrow> name = m_ShmObjectName (sl_SharedMemory q) \<Longrightarrow>
     sl_Dequeue (sl_CapacityMinusOne q) v (st_queues (sc_store s) name) = Some (False, x, d) \<Longrightarrow>
     serve_step i ctx s (s\<lparr>sc_store := (sc_store s)\<lparr>st_queues := (st_queues (sc_store s))(name := d)\<rparr>,
       sc_srv := (sc_srv s)\<lparr>sr_dispatcher := D_Scan (i + 1)\<rparr>\<rparr>)"
| v_dequeue: "sc_worker s = SV_Poll \<Longrightarrow> \<not> sc_timing s \<Longrightarrow> cx_pRequestQueue ctx = Some q \<Longrightarrow> name = m_ShmObjectName (sl_SharedMemory q) \<Longrightarrow>
     sl_Dequeue (sl_CapacityMinusOne q) v (st_queues (sc_store s) name) = Some (True, x, d) \<Longrightarrow>
     serve_step i ctx s (s\<lparr>sc_store := (sc_store s)\<lparr>st_queues := (st_queues (sc_store s))(name := d)\<rparr>,
       sc_worker := SV_Work x\<rparr>)"
| v_no_queue: "sc_worker s = SV_Poll \<Longrightarrow> \<not> sc_timing s \<Longrightarrow> cx_pRequestQueue ctx = None \<Longrightarrow>
     serve_step i ctx s (s\<lparr>sc_worker := SV_Fault\<rparr>)"
| v_bad_index: "sc_worker s = SV_Work x \<Longrightarrow>
     arr_read (cx_matrixBuffers ctx) (unat x) = None \<or> arr_read (cx_matrixBuffersTr ctx) (unat x) = None \<Longrightarrow>
     serve_step i ctx s (s\<lparr>sc_worker := SV_Fault\<rparr>)"
| v_transpose: "sc_worker s = SV_Work x \<Longrightarrow> arr_read (cx_matrixBuffers ctx) (unat x) = Some b \<Longrightarrow>
     arr_read (cx_matrixBuffersTr ctx) (unat x) = Some r \<Longrightarrow>
     TransposeTiledMultiThreaded (st_matrices (sc_store s) (mb_GetName b)) (st_matrices (sc_store s) (mb_GetName r))
       (bd_numRows (cx_matrixSize ctx)) (bd_numColumns (cx_matrixSize ctx)) TRANSPOSE_TILE_SIZE
       (ws_numWorkerThreads (sr_ws (sc_srv s))) sched = Running tr' progs \<Longrightarrow>
     joined (Running tr' progs) \<Longrightarrow>
     serve_step i ctx s (s\<lparr>sc_worker := SV_Wake, sc_srv := set_stats i (StartTimer t0 (cx_stats ctx)) (sc_srv s),
       sc_store := (sc_store s)\<lparr>st_matrices := (st_matrices (sc_store s))(mb_GetName r := tr')\<rparr>\<rparr>)"
| v_fault: "sc_worker s = SV_Work x \<Longrightarrow> arr_read (cx_matrixBuffers ctx) (unat x) = Some b \<Longrightarrow>
     arr_read (cx_matrixBuffersTr ctx) (unat x) = Some r \<Longrightarrow>
     TransposeTiledMultiThreaded (st_matrices (sc_store s) (mb_GetName b)) (st_matrices (sc_store s) (mb_GetName r))
       (bd_numRows (cx_matrixSize ctx)) (bd_numColumns (cx_matrixSize ctx)) TRANSPOSE_TILE_SIZE
       (ws_numWorkerThreads (sr_ws (sc_srv s))) sched = Fault \<Longrightarrow>
     serve_step i ctx s (s\<lparr>sc_worker := SV_Fault\<rparr>)"
| v_wake: "sc_worker s = SV_Wake \<Longrightarrow> cx_pTransposeReadyFutex ctx = Some f \<Longrightarrow> name = m_ShmObjectName (fh_SharedMemory f) \<Longrightarrow>
     w = st_words (sc_store s) name \<Longrightarrow>
     serve_step i ctx s (s\<lparr>sc_worker := SV_Poll, sc_timing := True,
       sc_store := (sc_store s)\<lparr>st_words := (st_words (sc_store s))(name := (if w = 0 then 1 else w))\<rparr>\<rparr>)"
| v_no_futex: "sc_worker s = SV_Wake \<Longrightarrow> cx_pTransposeReadyFutex ctx = None \<Longrightarrow>
     serve_step i ctx s (s\<lparr>sc_worker := SV_Fault\<rparr>)"
| v_stop_timer: "sc_timing s \<Longrightarrow>
     serve_step i ctx s (s\<lparr>sc_timing := False,
       sc_srv := (set_stats i (StopTimer t1 (cx_stats ctx)) (sc_srv s))\<lparr>sr_dispatcher := D_Scan (i + 1)\<rparr>\<rparr>)"

text \<open>
  The service. \<open>G c\<close> is what the client \<open>c\<close> has set up; the subscriptions that reach the server carry
  the dimensions of the client they name.
\<close>

definition honest :: "(u32 \<Rightarrow> sys_config) \<Rightarrow> handler_pc \<Rightarrow> bool" where
  "honest G h \<longleftrightarrow> (\<forall>socket c m n k i. h = H_Add_Write socket c m n k i \<longrightarrow>
     m = sg_m (G c) \<and> n = sg_n (G c) \<and> k = sg_k (G c))"

inductive service_step :: "'k server_env \<Rightarrow> (u32 \<Rightarrow> sys_config) \<Rightarrow> 'k service \<Rightarrow> 'k service \<Rightarrow> bool"
  for E :: "'k server_env" and G :: "u32 \<Rightarrow> sys_config" where
  sv_handler: "handler_step E (sc_srv s) r \<Longrightarrow> honest G (sr_handler r) \<Longrightarrow>
     service_step E G s (s\<lparr>sc_srv := r\<rparr>)"
| sv_dispatcher: "dispatcher_step (sc_srv s) r \<Longrightarrow> served s = None \<Longrightarrow>
     service_step E G s (s\<lparr>sc_srv := r\<rparr>)"
| sv_serve: "sr_dispatcher (sc_srv s) = D_Serve i \<Longrightarrow> serve_step i (sc_bank s ! i) s t \<Longrightarrow>
     service_step E G s t"
| sv_client: "client_step (G c) (view G s c) v \<Longrightarrow>
     service_step E G s (s\<lparr>sc_clients := (sc_clients s)(c := sy_client v),
       sc_store := (sc_store s)\<lparr>st_queues := (st_queues (sc_store s))(queue_name c := sy_queue v),
         st_words := (st_words (sc_store s))(futex_name c := sy_word v)\<rparr>\<rparr>)"
| sv_stop: "service_step E G s (s\<lparr>sc_srv := (sc_srv s)\<lparr>sr_ws := (sr_ws (sc_srv s))\<lparr>ws_running := False\<rparr>\<rparr>\<rparr>)"

definition service_start :: "workspace \<Rightarrow> 'k \<Rightarrow> store \<Rightarrow> 'k service" where
  "service_start ws kern store =
     \<lparr>sc_srv = srv_start ws kern, sc_worker = SV_Poll, sc_timing = False, sc_store = store, sc_clients = (\<lambda>_. CL_Next 0 0)\<rparr>"

text \<open>The store when the clients have made their objects.\<close>

definition store_ready :: "(u32 \<Rightarrow> sys_config) \<Rightarrow> store \<Rightarrow> bool" where
  "store_ready G store \<longleftrightarrow> (\<forall>c. st_queues store (queue_name c) = sl_initial REQ_QUEUE_CAPACITY \<and>
     st_words store (futex_name c) = 0 \<and>
     map (\<lambda>b. st_matrices store (matrix_name c b)) (word_range 0 (sg_k (G c))) = sg_src (G c) \<and>
     results_ok (G c) (map (\<lambda>b. st_matrices store (result_name c b)) (word_range 0 (sg_k (G c)))))"

section \<open>The slots belong to the clients\<close>

definition slot_of_client :: "(u32 \<Rightarrow> sys_config) \<Rightarrow> ClientContext \<Rightarrow> bool" where
  "slot_of_client G ctx \<longleftrightarrow>
     map mb_GetName (cx_matrixBuffers ctx) = map (matrix_name (cx_id ctx)) (word_range 0 (sg_k (G (cx_id ctx)))) \<and>
     map mb_GetName (cx_matrixBuffersTr ctx) = map (result_name (cx_id ctx)) (word_range 0 (sg_k (G (cx_id ctx)))) \<and>
     (\<exists>q. cx_pRequestQueue ctx = Some q \<and> m_ShmObjectName (sl_SharedMemory q) = queue_name (cx_id ctx) \<and>
        sl_CapacityMinusOne q = REQ_QUEUE_CAPACITY - 1) \<and>
     (\<exists>f. cx_pTransposeReadyFutex ctx = Some f \<and> m_ShmObjectName (fh_SharedMemory f) = futex_name (cx_id ctx)) \<and>
     bd_numRows (cx_matrixSize ctx) = sg_rows (G (cx_id ctx)) \<and> bd_numColumns (cx_matrixSize ctx) = sg_cols (G (cx_id ctx))"

lemma slot_object_names: "map mb_object bs = map (object_spec c m n suf) ks \<Longrightarrow>
    map mb_GetName bs = map (\<lambda>k. mb_CreateShmObjectName c k suf) ks"
  by (drule arg_cong [where f = "map fst"]) (simp add: comp_def mb_object_def object_spec_def)

lemma shift_one_Some: "shift_one m = Some r \<Longrightarrow> r = 2 ^ unat m"
  using shift_one_value [of m] by (auto simp: shift_one_def split: if_splits)

lemma setup_slot_of_client:
  assumes "setup_context E c (sg_m (G c)) (sg_n (G c)) (sg_k (G c)) socket old kern = Some (True, ctx, kern')"
  shows "slot_of_client G ctx"
proof -
  have id: "cx_id ctx = c" using setup_context_result [OF assms] by simp
  note obj = setup_context_objects [OF assms]
  show ?thesis
    unfolding slot_of_client_def id
    using slot_object_names [OF obj(1)] slot_object_names [OF obj(2)] obj(3,4) shift_one_Some [OF obj(5)] shift_one_Some [OF obj(6)]
    by auto
qed

text \<open>What a step of the handler leaves alone: the dispatcher, and every slot the dispatcher may serve.\<close>

lemma handler_keeps:
  assumes "srv_inv s" "handler_step E s t"
  shows "sr_dispatcher t = sr_dispatcher s" "ws_numWorkerThreads (sr_ws t) = ws_numWorkerThreads (sr_ws s)"
    "i \<in> known_slots s \<Longrightarrow> ws_clientBank (sr_ws t) ! i = ws_clientBank (sr_ws s) ! i"
proof -
  show "sr_dispatcher t = sr_dispatcher s" "ws_numWorkerThreads (sr_ws t) = ws_numWorkerThreads (sr_ws s)"
    using assms(2) by (cases; simp)+
  show "ws_clientBank (sr_ws t) ! i = ws_clientBank (sr_ws s) ! i" if "i \<in> known_slots s"
    using assms(2)
  proof cases
    case (h_written socket c m n k j ctx kern)
    then have "i \<noteq> j" using srv_invD(4) [OF assms(1)] that by auto
    then show ?thesis using h_written(1) by simp
  next
    case (h_failed socket c m n k j ctx kern)
    then have "i \<noteq> j" using srv_invD(4) [OF assms(1)] that by auto
    then show ?thesis using h_failed(1) by simp
  next
    case (h_rem_done j)
    then have "i \<noteq> j" using srv_invD(4) [OF assms(1)] that by auto
    then show ?thesis using h_rem_done(1) by simp
  qed simp_all
qed

lemma dispatcher_keeps:
  assumes "dispatcher_step s t" "\<forall>i. sr_dispatcher s \<noteq> D_Serve i"
  shows "ws_clientBank (sr_ws t) = ws_clientBank (sr_ws s)" "sr_handler t = sr_handler s"
    "ws_numWorkerThreads (sr_ws t) = ws_numWorkerThreads (sr_ws s)"
  using assms by (cases; simp)+

lemma set_stats_simps [simp]:
  "cx_id (ws_clientBank (sr_ws (set_stats i st r)) ! j) = cx_id (ws_clientBank (sr_ws r) ! j)"
  "cx_subscribed (ws_clientBank (sr_ws (set_stats i st r)) ! j) = cx_subscribed (ws_clientBank (sr_ws r) ! j)"
  "slot_of_client G (ws_clientBank (sr_ws (set_stats i st r)) ! j) = slot_of_client G (ws_clientBank (sr_ws r) ! j)"
  "sr_handler (set_stats i st r) = sr_handler r" "sr_dispatcher (set_stats i st r) = sr_dispatcher r"
  "ws_numWorkerThreads (sr_ws (set_stats i st r)) = ws_numWorkerThreads (sr_ws r)"
  "ws_updateAvailable (sr_ws (set_stats i st r)) = ws_updateAvailable (sr_ws r)"
  "ws_running (sr_ws (set_stats i st r)) = ws_running (sr_ws r)"
  "valid_slots (set_stats i st r) = valid_slots r" "known_slots (set_stats i st r) = known_slots r"
proof -
  let ?b = "ws_clientBank (sr_ws r)"
  have "?b[i := (?b ! i)\<lparr>cx_stats := st\<rparr>] ! j = (if j = i \<and> i < length ?b then (?b ! i)\<lparr>cx_stats := st\<rparr> else ?b ! j)"
    by (cases "i < length ?b") (simp_all add: nth_list_update list_update_beyond not_less)
  then show "cx_id (ws_clientBank (sr_ws (set_stats i st r)) ! j) = cx_id (ws_clientBank (sr_ws r) ! j)"
    "cx_subscribed (ws_clientBank (sr_ws (set_stats i st r)) ! j) = cx_subscribed (ws_clientBank (sr_ws r) ! j)"
    "slot_of_client G (ws_clientBank (sr_ws (set_stats i st r)) ! j) = slot_of_client G (ws_clientBank (sr_ws r) ! j)"
    by (simp_all add: set_stats_def slot_of_client_def)
qed (simp_all add: set_stats_def valid_slots_def known_slots_def)

lemma set_stats_inv:
  assumes "srv_inv r" "i < MAX_CLIENTS"
  shows "srv_inv (set_stats i st r)"
  using srv_invD [OF assms(1)] stats_update [OF srv_invD(2) [OF assms(1)] assms(2), where st = st]
  unfolding srv_inv_def by (simp add: set_stats_def)

lemma next_slot_inv: "srv_inv r \<Longrightarrow> srv_inv (r\<lparr>sr_dispatcher := D_Scan i\<rparr>)"
  by (simp add: srv_inv_def valid_slots_def known_slots_def)

section \<open>The invariant\<close>

definition service_inv :: "(u32 \<Rightarrow> sys_config) \<Rightarrow> 'k service \<Rightarrow> bool" where
  "service_inv G s \<longleftrightarrow> srv_inv (sc_srv s) \<and>
     (\<forall>i < MAX_CLIENTS. cx_subscribed (sc_bank s ! i) \<longrightarrow> slot_of_client G (sc_bank s ! i)) \<and>
     honest G (sr_handler (sc_srv s)) \<and>
     (served s = None \<longrightarrow> sc_worker s = SV_Poll \<and> \<not> sc_timing s) \<and> (sc_timing s \<longrightarrow> sc_worker s = SV_Poll) \<and>
     (\<forall>c. ws_numWorkerThreads (sr_ws (sc_srv s)) = sg_threads (G c)) \<and>
     (\<forall>c. map (\<lambda>b. st_matrices (sc_store s) (matrix_name c b)) (word_range 0 (sg_k (G c))) = sg_src (G c))"

lemma service_invD:
  assumes "service_inv G s"
  shows "srv_inv (sc_srv s)" "i < MAX_CLIENTS \<Longrightarrow> cx_subscribed (sc_bank s ! i) \<Longrightarrow> slot_of_client G (sc_bank s ! i)"
    "honest G (sr_handler (sc_srv s))" "served s = None \<Longrightarrow> sc_worker s = SV_Poll" "served s = None \<Longrightarrow> \<not> sc_timing s"
    "sc_timing s \<Longrightarrow> sc_worker s = SV_Poll" "ws_numWorkerThreads (sr_ws (sc_srv s)) = sg_threads (G c)"
    "map (\<lambda>b. st_matrices (sc_store s) (matrix_name c b)) (word_range 0 (sg_k (G c))) = sg_src (G c)"
  using assms by (auto simp: service_inv_def)

text \<open>The slot being served belongs to a subscribed client.\<close>

lemma serving_slot:
  assumes "service_inv G s" "sr_dispatcher (sc_srv s) = D_Serve i"
  shows "i < MAX_CLIENTS" "i \<in> known_slots (sc_srv s)" "cx_subscribed (sc_bank s ! i)" "slot_of_client G (sc_bank s ! i)"
proof -
  note inv = service_invD(1) [OF assms(1)]
  show known: "i \<in> known_slots (sc_srv s)" using srv_invD(5) [OF inv] assms(2) by simp
  then have "i \<in> subscribed_slots (sc_bank s)" using known_subscribed [OF inv] by blast
  then show "i < MAX_CLIENTS" "cx_subscribed (sc_bank s ! i)" by (simp_all add: subscribed_slots_def)
  then show "slot_of_client G (sc_bank s ! i)" by (rule service_invD(2) [OF assms(1)])
qed

lemma handler_slots:
  assumes "service_inv G s" "handler_step E (sc_srv s) r" "i < MAX_CLIENTS" "cx_subscribed (ws_clientBank (sr_ws r) ! i)"
  shows "slot_of_client G (ws_clientBank (sr_ws r) ! i)"
  using assms(2)
proof cases
  note inv = service_invD [OF assms(1)] and len = srv_invD(2) [OF service_invD(1) [OF assms(1)]]
  {
    case (h_written socket c m n k j ctx kern)
    then have "m = sg_m (G c)" "n = sg_n (G c)" "k = sg_k (G c)" using inv(3) by (simp_all add: honest_def)
    with h_written(3) have "slot_of_client G ctx" by (simp add: setup_slot_of_client)
    then show ?thesis
      using inv(2) [OF assms(3)] assms(3,4) h_written(1) len by (cases "j = i") simp_all
  next
    case (h_failed socket c m n k j ctx kern)
    have "\<not> cx_subscribed ctx" using setup_context_result [OF h_failed(3)] by simp
    then show ?thesis
      using inv(2) [OF assms(3)] assms(3,4) h_failed(1) len by (cases "j = i") simp_all
  next
    case (h_rem_done j)
    then show ?thesis
      using inv(2) [OF assms(3)] assms(3,4) h_rem_done(1) len by (cases "j = i") simp_all
  }
qed (use service_invD(2) [OF assms(1,3)] assms(4) in simp_all)

lemma name_uses:
  "matrix_name c b \<noteq> result_name c' b'"
  "queue_name c = queue_name c' \<longleftrightarrow> c = c'" "futex_name c = futex_name c' \<longleftrightarrow> c = c'"
  "result_name c b = result_name c' b' \<longleftrightarrow> c = c' \<and> b = b'"
proof -
  show "matrix_name c b \<noteq> result_name c' b'"
    using buffer_name_inj [of c b MATRIX_BUF_NAME_SUFFIX c' b' TR_MATRIX_BUF_NAME_SUFFIX]
    by (auto simp: MATRIX_BUF_NAME_SUFFIX_def TR_MATRIX_BUF_NAME_SUFFIX_def)
  show "queue_name c = queue_name c' \<longleftrightarrow> c = c'" "futex_name c = futex_name c' \<longleftrightarrow> c = c'"
    using name_pids(2,3) by metis+
  show "result_name c b = result_name c' b' \<longleftrightarrow> c = c' \<and> b = b'"
    using buffer_name_inj by metis
qed

text \<open>The buffers of a slot, by index.\<close>

lemma slot_buffers:
  assumes "slot_of_client G ctx" "arr_read (cx_matrixBuffers ctx) (unat x) = Some b" "arr_read (cx_matrixBuffersTr ctx) (unat x) = Some r"
  shows "x < sg_k (G (cx_id ctx))" "mb_GetName b = matrix_name (cx_id ctx) x" "mb_GetName r = result_name (cx_id ctx) x"
proof -
  let ?k = "sg_k (G (cx_id ctx))"
  have names: "map mb_GetName (cx_matrixBuffers ctx) = map (matrix_name (cx_id ctx)) (word_range 0 ?k)"
    "map mb_GetName (cx_matrixBuffersTr ctx) = map (result_name (cx_id ctx)) (word_range 0 ?k)"
    using assms(1) by (simp_all add: slot_of_client_def)
  have len: "length (cx_matrixBuffers ctx) = unat ?k" "length (cx_matrixBuffersTr ctx) = unat ?k"
    using names [THEN arg_cong [where f = length]] by simp_all
  have at: "unat x < unat ?k" "cx_matrixBuffers ctx ! unat x = b" "cx_matrixBuffersTr ctx ! unat x = r"
    using assms(2,3) len by (simp_all add: arr_read_Some_iff)
  then show "x < ?k" by (simp add: word_less_nat_alt)
  have "word_range 0 ?k ! unat x = x" using at(1) by (simp add: word_range_def)
  with names [THEN arg_cong [where f = "\<lambda>l. l ! unat x"]] at len
  show "mb_GetName b = matrix_name (cx_id ctx) x" "mb_GetName r = result_name (cx_id ctx) x" by simp_all
qed

lemma serve_step_inv:
  assumes "service_inv G s" "sr_dispatcher (sc_srv s) = D_Serve i" "serve_step i (sc_bank s ! i) s t"
  shows "service_inv G t"
  using assms(3)
proof cases
  note inv = service_invD [OF assms(1)] and slot = serving_slot [OF assms(1,2)]
  have busy: "served s \<noteq> None" using assms(2) by (simp add: served_def)
  {
    case (v_transpose x b r sched tr' progs t0)
    have "mb_GetName r = result_name (cx_id (sc_bank s ! i)) x"
      using slot_buffers [OF slot(4)] v_transpose by blast
    with v_transpose(1) show ?thesis
      using assms(1,2) set_stats_inv [OF inv(1) slot(1)] inv(6) v_transpose(2)
      by (auto simp: service_inv_def served_def name_uses)
  next
    case (v_stop_timer t1)
    note stats = next_slot_inv [OF set_stats_inv [OF inv(1) slot(1)]]
    show ?thesis
      unfolding v_stop_timer(1) using assms(1) stats inv(6) [OF v_stop_timer(2)] by (simp add: service_inv_def served_def)
  next
    case (v_empty q name v x d)
    then show ?thesis using assms(1) next_slot_inv [OF inv(1)] by (simp add: service_inv_def served_def)
  }
qed (use assms(1,2) service_invD(6) [OF assms(1)] in \<open>simp_all add: service_inv_def served_def\<close>)


lemma dispatcher_step_keeps_inv:
  assumes "service_inv G s" "dispatcher_step (sc_srv s) r" "served s = None"
  shows "service_inv G (s\<lparr>sc_srv := r\<rparr>)"
proof -
  have "\<forall>i. sr_dispatcher (sc_srv s) \<noteq> D_Serve i" using assms(3) by (auto simp: served_def)
  note keeps = dispatcher_keeps [OF assms(2) this]
  show ?thesis
    using service_invD [OF assms(1)] assms(3) dispatcher_step_inv [OF _ assms(2)] keeps
    by (simp add: service_inv_def)
qed

lemma handler_served:
  assumes "service_inv G s" "handler_step E (sc_srv s) r"
  shows "served (s\<lparr>sc_srv := r\<rparr>) = served s"
  using handler_keeps [OF service_invD(1) [OF assms(1)] assms(2)] serving_slot(2) [OF assms(1)]
  by (auto simp: served_def split: dispatcher_pc.split)

lemma service_step_inv [inv_steps]:
  assumes "service_inv G s" "service_step E G s t"
  shows "service_inv G t"
  using assms(2)
proof cases
  case (sv_handler r)
  show ?thesis
    using service_invD [OF assms(1)] handler_served [OF assms(1) sv_handler(2)] sv_handler(1,3)
      handler_step_inv [OF _ sv_handler(2)] handler_keeps(2) [OF _ sv_handler(2)] handler_slots [OF assms(1) sv_handler(2)]
    by (simp add: service_inv_def)
next
  case (sv_dispatcher r)
  then show ?thesis using dispatcher_step_keeps_inv [OF assms(1)] by simp
next
  case (sv_serve i)
  then show ?thesis using serve_step_inv [OF assms(1)] by blast
next
  case (sv_client c v)
  then show ?thesis using assms(1) by (simp add: service_inv_def)
next
  case sv_stop
  have "srv_inv ((sc_srv s)\<lparr>sr_ws := (sr_ws (sc_srv s))\<lparr>ws_running := False\<rparr>\<rparr>)"
    using srv_step_inv [OF service_invD(1) [OF assms(1)] srv_step.srv_stop] .
  then show ?thesis unfolding sv_stop using assms(1) by (simp add: service_inv_def)
qed

section \<open>Every client sees the two-party system\<close>

text \<open>The fields of a client's part after an update of the store, of its own objects and of another's.\<close>

lemma view_simps:
  "sy_queue (view G s c) = st_queues (sc_store s) (queue_name c)" "sy_word (view G s c) = st_words (sc_store s) (futex_name c)"
  "sy_dst (view G s c) = map (\<lambda>b. st_matrices (sc_store s) (result_name c b)) (word_range 0 (sg_k (G c)))"
  "sy_client (view G s c) = sc_clients s c" "sy_server (view G s c) = (if served s = Some c then sc_worker s else SV_Poll)"
  by (simp_all add: view_def)

lemma serve_other:
  assumes "service_inv G s" "sr_dispatcher (sc_srv s) = D_Serve i" "serve_step i (sc_bank s ! i) s t" "c \<noteq> cx_id (sc_bank s ! i)"
  shows "view G t c = view G s c"
  using assms(3)
proof cases
  note slot = serving_slot(4) [OF assms(1,2)]
  {
    case (v_transpose x b r sched tr' progs t0)
    have "mb_GetName r = result_name (cx_id (sc_bank s ! i)) x"
      using slot_buffers [OF slot] v_transpose by blast
    then show ?thesis
      unfolding v_transpose(1) using assms(2,4) by (simp add: view_def served_def name_uses)
  next
    case (v_wake f name w)
    then have "name = futex_name (cx_id (sc_bank s ! i))" using slot by (auto simp: slot_of_client_def)
    then show ?thesis
      unfolding v_wake(1) using assms(2,4) by (simp add: view_def served_def name_uses)
  next
    case (v_empty q name v x d)
    then have "name = queue_name (cx_id (sc_bank s ! i))" using slot by (auto simp: slot_of_client_def)
    then show ?thesis
      unfolding v_empty(1) using assms(2,4) by (simp add: view_def served_def name_uses)
  next
    case (v_dequeue q name v x d)
    then have "name = queue_name (cx_id (sc_bank s ! i))" using slot by (auto simp: slot_of_client_def)
    then show ?thesis
      unfolding v_dequeue(1) using assms(2,4) by (simp add: view_def served_def name_uses)
  }
qed (use assms(2,4) in \<open>simp_all add: view_def served_def\<close>)

lemma serve_own:
  assumes "service_inv G s" "sr_dispatcher (sc_srv s) = D_Serve i" "serve_step i (sc_bank s ! i) s t" "c = cx_id (sc_bank s ! i)"
  shows "view G t c = view G s c \<or> server_step (G c) (view G s c) (view G t c)"
  using assms(3)
proof cases
  note slot = serving_slot(4) [OF assms(1,2)]
  have now: "served s = Some c" "sy_server (view G s c) = sc_worker s"
    using assms(2,4) by (simp_all add: served_def view_def)
  have src: "sg_src (G c) = map (\<lambda>b. st_matrices (sc_store s) (matrix_name c b)) (word_range 0 (sg_k (G c)))"
    using service_invD(8) [OF assms(1)] by simp
  have size: "bd_numRows (cx_matrixSize (sc_bank s ! i)) = sg_rows (G c)" "bd_numColumns (cx_matrixSize (sc_bank s ! i)) = sg_cols (G c)"
    "ws_numWorkerThreads (sr_ws (sc_srv s)) = sg_threads (G c)"
    using slot service_invD(7) [OF assms(1)] assms(4) by (simp_all add: slot_of_client_def)
  {
    case (v_empty q name v x d)
    then have "sl_Dequeue (REQ_QUEUE_CAPACITY - 1) v (sy_queue (view G s c)) = Some (False, x, d)" "name = queue_name c"
      using slot assms(4) by (auto simp: slot_of_client_def view_def)
    then have "server_step (G c) (view G s c) ((view G s c)\<lparr>sy_queue := d\<rparr>)"
      using s_empty [of "view G s c"] now(2) v_empty(2) by simp
    moreover have "view G t c = (view G s c)\<lparr>sy_queue := d\<rparr>"
      unfolding v_empty(1) using v_empty(2) \<open>name = queue_name c\<close> now by (simp add: view_def served_def)
    ultimately show ?thesis by simp
  next
    case (v_dequeue q name v x d)
    then have "sl_Dequeue (REQ_QUEUE_CAPACITY - 1) v (sy_queue (view G s c)) = Some (True, x, d)" "name = queue_name c"
      using slot assms(4) by (auto simp: slot_of_client_def view_def)
    then have "server_step (G c) (view G s c) ((view G s c)\<lparr>sy_server := SV_Work x, sy_queue := d\<rparr>)"
      using s_dequeue [of "view G s c"] now(2) v_dequeue(2) by simp
    moreover have "view G t c = (view G s c)\<lparr>sy_server := SV_Work x, sy_queue := d\<rparr>"
      unfolding v_dequeue(1) using \<open>name = queue_name c\<close> now by (simp add: view_def)
    ultimately show ?thesis by simp
  next
    case (v_bad_index x)
    have len: "length (cx_matrixBuffers (sc_bank s ! i)) = unat (sg_k (G c))" "length (cx_matrixBuffersTr (sc_bank s ! i)) = unat (sg_k (G c))"
      using slot assms(4) map_eq_imp_length_eq by (fastforce simp: slot_of_client_def)+
    then have "arr_read (sg_src (G c)) (unat x) = None \<or> arr_read (sy_dst (view G s c)) (unat x) = None"
      using v_bad_index(3) src by (auto simp: arr_read_def view_def split: if_splits)
    then have "server_step (G c) (view G s c) ((view G s c)\<lparr>sy_server := SV_Fault\<rparr>)"
      using s_bad_index [of "view G s c"] now(2) v_bad_index(2) by simp
    moreover have "view G t c = (view G s c)\<lparr>sy_server := SV_Fault\<rparr>"
      unfolding v_bad_index(1) using now by (simp add: view_def)
    ultimately show ?thesis by simp
  next
    case (v_transpose x b r sched tr' progs t0)
    note buf = slot_buffers [OF slot v_transpose(3,4), folded assms(4)]
    have reads: "arr_read (sg_src (G c)) (unat x) = Some (st_matrices (sc_store s) (mb_GetName b))"
      "arr_read (sy_dst (view G s c)) (unat x) = Some (st_matrices (sc_store s) (mb_GetName r))"
      using buf src by (simp_all add: arr_read_def view_def word_less_nat_alt word_range_def)
    have "server_step (G c) (view G s c) ((view G s c)\<lparr>sy_server := SV_Wake, sy_dst := (sy_dst (view G s c))[unat x := tr']\<rparr>)"
      using s_transpose [OF _ reads] now(2) v_transpose(2,5,6) unfolding size by simp
    moreover have "view G t c = (view G s c)\<lparr>sy_server := SV_Wake, sy_dst := (sy_dst (view G s c))[unat x := tr']\<rparr>"
      unfolding v_transpose(1) using now(1) assms(4) map_word_range_update [OF buf(1), of tr']
      by (simp add: view_def served_def assms(2) buf(3) name_uses)
    ultimately show ?thesis by simp
  next
    case (v_fault x b r sched)
    note buf = slot_buffers [OF slot v_fault(3,4), folded assms(4)]
    have reads: "arr_read (sg_src (G c)) (unat x) = Some (st_matrices (sc_store s) (mb_GetName b))"
      "arr_read (sy_dst (view G s c)) (unat x) = Some (st_matrices (sc_store s) (mb_GetName r))"
      using buf src by (simp_all add: arr_read_def view_def word_less_nat_alt word_range_def)
    have "server_step (G c) (view G s c) ((view G s c)\<lparr>sy_server := SV_Fault\<rparr>)"
      using s_fault [OF _ reads] now(2) v_fault(2,5) unfolding size by simp
    moreover have "view G t c = (view G s c)\<lparr>sy_server := SV_Fault\<rparr>"
      unfolding v_fault(1) using now by (simp add: view_def)
    ultimately show ?thesis by simp
  next
    case (v_wake f name w)
    then have "name = futex_name c" using slot assms(4) by (auto simp: slot_of_client_def)
    then have "view G t c = (view G s c)\<lparr>sy_server := SV_Poll, sy_word := (if sy_word (view G s c) = 0 then 1 else sy_word (view G s c))\<rparr>"
      unfolding v_wake(1) using v_wake(5) now by (simp add: view_def)
    then show ?thesis using s_wake [of "view G s c" "G c"] now(2) v_wake(2) by simp
  next
    case (v_stop_timer t1)
    then show ?thesis
      unfolding v_stop_timer(1) using service_invD(6) [OF assms(1)] by (simp add: view_def served_def)
  next
    case v_no_queue
    then show ?thesis using slot by (auto simp: slot_of_client_def)
  next
    case v_no_futex
    then show ?thesis using slot by (auto simp: slot_of_client_def)
  }
qed

lemma client_keeps: "client_step g s t \<Longrightarrow> sy_dst t = sy_dst s \<and> sy_server t = sy_server s"
  by (induction rule: client_step.induct) simp_all

lemma service_step_view:
  assumes "service_inv G s" "service_step E G s t"
  shows "view G t c = view G s c \<or> sys_step (G c) (view G s c) (view G t c)"
  using assms(2)
proof cases
  case (sv_handler r)
  then show ?thesis using handler_served [OF assms(1) sv_handler(2)] by (simp add: view_def)
next
  case (sv_dispatcher r)
  then show ?thesis using service_invD(4) [OF assms(1)] by (simp add: view_def)
next
  case (sv_serve i)
  then show ?thesis
    using serve_other [OF assms(1)] serve_own [OF assms(1)] sys_step.by_server
    by (cases "c = cx_id (sc_bank s ! i)") blast+
next
  case (sv_client c' v)
  have "view G t c = (if c = c' then v else view G s c)"
    unfolding sv_client(1) using client_keeps [OF sv_client(2)] by (auto simp: view_def name_uses)
  then show ?thesis using sys_step.by_client [OF sv_client(2)] by simp
next
  case sv_stop
  then show ?thesis by (simp add: view_def)
qed

interpretation service_sim: stuttering_simulation "service_step E G" "sys_step (G c)" "service_inv G" "\<lambda>s. view G s c"
  for E :: "'k server_env" and G :: "u32 \<Rightarrow> sys_config" and c :: u32
  by unfold_locales (rule service_step_inv, assumption+, rule service_step_view)

lemma service_start_inv:
  assumes "server_main S hardware argv pid net = (Inr (Some (ipc, ws)), net')" "store_ready G store"
    "\<forall>c. sg_threads (G c) = ws_numWorkerThreads ws"
  shows "service_inv G (service_start ws kern store)"
  using srv_start_inv [OF assms(1), of kern] server_main_workspace(1) [OF assms(1)] assms(2,3)
  by (simp add: service_inv_def service_start_def srv_start_def served_def honest_def store_ready_def new_context_def)

lemma service_start_view:
  "store_ready G store \<Longrightarrow>
     view G (service_start ws kern store) c =
       sys_start (map (\<lambda>b. st_matrices store (result_name c b)) (word_range 0 (sg_k (G c))))"
  by (simp add: view_def service_start_def sys_start_def store_ready_def)

section \<open>The dispatcher comes round\<close>

text \<open>A state in which everything is in order, and what the dispatcher's steps leave alone for one slot.\<close>

definition in_order :: "(u32 \<Rightarrow> sys_config) \<Rightarrow> 'k service \<Rightarrow> bool" where
  "in_order G s \<longleftrightarrow> service_inv G s \<and> (\<forall>c. config_ok (G c) \<and> sys_inv (G c) (view G s c))"

definition keeps_slot :: "(u32 \<Rightarrow> sys_config) \<Rightarrow> nat \<Rightarrow> 'k service \<Rightarrow> 'k service \<Rightarrow> bool" where
  "keeps_slot G j s t \<longleftrightarrow> sr_handler (sc_srv t) = sr_handler (sc_srv s) \<and>
     ws_running (sr_ws (sc_srv t)) = ws_running (sr_ws (sc_srv s)) \<and> valid_slots (sc_srv t) = valid_slots (sc_srv s) \<and>
     cx_id (sc_bank t ! j) = cx_id (sc_bank s ! j) \<and> view G t (cx_id (sc_bank s ! j)) = view G s (cx_id (sc_bank s ! j))"

lemma keeps_slot_trans: "keeps_slot G j s t \<Longrightarrow> keeps_slot G j t u \<Longrightarrow> keeps_slot G j s u"
  by (simp add: keeps_slot_def)

lemma in_order_reach:
  assumes "(service_step E G)\<^sup>*\<^sup>* s t" "in_order G s"
  shows "in_order G t"
  using assms service_sim.inv_reach [OF assms(1)] service_sim.simulates_reach [OF assms(1)] sys_reach_inv
  unfolding in_order_def by blast

text \<open>The steps of the dispatcher and of one client, with the handler and the other clients at rest.\<close>

inductive calm_step :: "u32 \<Rightarrow> (u32 \<Rightarrow> sys_config) \<Rightarrow> 'k service \<Rightarrow> 'k service \<Rightarrow> bool"
  for who :: u32 and G :: "u32 \<Rightarrow> sys_config" where
  calm_dispatcher: "dispatcher_step (sc_srv s) r \<Longrightarrow> served s = None \<Longrightarrow> calm_step who G s (s\<lparr>sc_srv := r\<rparr>)"
| calm_serve: "sr_dispatcher (sc_srv s) = D_Serve i \<Longrightarrow> serve_step i (sc_bank s ! i) s t \<Longrightarrow> calm_step who G s t"
| calm_client: "client_step (G who) (view G s who) v \<Longrightarrow>
     calm_step who G s (s\<lparr>sc_clients := (sc_clients s)(who := sy_client v),
       sc_store := (sc_store s)\<lparr>st_queues := (st_queues (sc_store s))(queue_name who := sy_queue v),
         st_words := (st_words (sc_store s))(futex_name who := sy_word v)\<rparr>\<rparr>)"

lemma calm_service: "calm_step who G s t \<Longrightarrow> service_step E G s t"
  by (induction rule: calm_step.induct) (rule service_step.intros, assumption+)+

lemma calm_run_service: "(calm_step who G)\<^sup>*\<^sup>* s t \<Longrightarrow> (service_step E G)\<^sup>*\<^sup>* s t"
  by (induction rule: rtranclp_induct) (auto intro: calm_service rtranclp.rtrancl_into_rtrancl)

lemma in_order_calm: "(calm_step who G)\<^sup>*\<^sup>* s t \<Longrightarrow> in_order G s \<Longrightarrow> in_order G t"
  by (rule in_order_reach [OF calm_run_service])

lemma next_slot_slots:
  "valid_slots (r\<lparr>sr_dispatcher := d\<rparr>) = valid_slots r" "known_slots (r\<lparr>sr_dispatcher := d\<rparr>) = known_slots r"
  by (simp_all add: valid_slots_def known_slots_def)

lemma serve_keeps:
  assumes "serve_step i ctx s t"
  shows "sr_handler (sc_srv t) = sr_handler (sc_srv s)" "ws_running (sr_ws (sc_srv t)) = ws_running (sr_ws (sc_srv s))"
    "valid_slots (sc_srv t) = valid_slots (sc_srv s)" "known_slots (sc_srv t) = known_slots (sc_srv s)"
    "cx_id (sc_bank t ! j) = cx_id (sc_bank s ! j)" "cx_subscribed (sc_bank t ! j) = cx_subscribed (sc_bank s ! j)"
    "ws_updateAvailable (sr_ws (sc_srv t)) = ws_updateAvailable (sr_ws (sc_srv s))"
proof -
  show "sr_handler (sc_srv t) = sr_handler (sc_srv s)" "ws_running (sr_ws (sc_srv t)) = ws_running (sr_ws (sc_srv s))"
    "ws_updateAvailable (sr_ws (sc_srv t)) = ws_updateAvailable (sr_ws (sc_srv s))"
    using assms by (induction rule: serve_step.induct) simp_all
  show "valid_slots (sc_srv t) = valid_slots (sc_srv s)" "known_slots (sc_srv t) = known_slots (sc_srv s)"
    using assms by (induction rule: serve_step.induct) (simp_all add: next_slot_slots)
  show "cx_id (sc_bank t ! j) = cx_id (sc_bank s ! j)" "cx_subscribed (sc_bank t ! j) = cx_subscribed (sc_bank s ! j)"
    using assms by (induction rule: serve_step.induct) simp_all
qed

text \<open>How far the dispatcher is with the client it serves.\<close>

definition serve_rank :: "'k service \<Rightarrow> nat" where
  "serve_rank s = (if sc_timing s then 1 else case sc_worker s of SV_Poll \<Rightarrow> 4 | SV_Work x \<Rightarrow> 3 | SV_Wake \<Rightarrow> 2 | SV_Fault \<Rightarrow> 0)"

lemma serve_next:
  assumes "in_order G s" "sr_dispatcher (sc_srv s) = D_Serve i"
  shows "\<exists>t. serve_step i (sc_bank s ! i) s t \<and>
    (sr_dispatcher (sc_srv t) = D_Scan (i + 1) \<or> sr_dispatcher (sc_srv t) = D_Serve i \<and> serve_rank t < serve_rank s) \<and>
    (sc_worker s \<noteq> SV_Poll \<or> \<not> sc_timing s \<and> sl_elems (st_queues (sc_store s) (queue_name (cx_id (sc_bank s ! i)))) \<noteq> [] \<longrightarrow>
       sr_dispatcher (sc_srv t) = D_Serve i \<and> sc_worker t \<noteq> sc_worker s)"
proof -
  let ?ctx = "sc_bank s ! i" and ?c = "cx_id (sc_bank s ! i)"
  let ?v = "view G s ?c"
  have inv: "service_inv G s" and ok: "config_ok (G ?c)" "sys_inv (G ?c) ?v" using assms(1) by (simp_all add: in_order_def)
  note slot = serving_slot(4) [OF inv assms(2)]
  have sv: "sy_server ?v = sc_worker s" using assms(2) by (simp add: view_def served_def)
  consider (Timing) "sc_timing s" | (Poll) "\<not> sc_timing s" "sc_worker s = SV_Poll" | (Work) x where "\<not> sc_timing s" "sc_worker s = SV_Work x"
    | (Wake) "\<not> sc_timing s" "sc_worker s = SV_Wake" | (Fault) "sc_worker s = SV_Fault"
    by (cases "sc_worker s") auto
  then show ?thesis
  proof cases
    case Timing
    from v_stop_timer [OF this] show ?thesis
      by (intro exI conjI, assumption) (use Timing service_invD(6) [OF inv] in simp_all)
  next
    case Poll
    obtain q where q: "cx_pRequestQueue ?ctx = Some q" "m_ShmObjectName (sl_SharedMemory q) = queue_name ?c"
        "sl_CapacityMinusOne q = REQ_QUEUE_CAPACITY - 1"
      using slot by (auto simp: slot_of_client_def)
    have sok: "sl_ok (REQ_QUEUE_CAPACITY - 1) (st_queues (sc_store s) (queue_name ?c))"
      using ok(2) by (simp add: sys_inv_def view_def)
    show ?thesis
    proof (cases "sl_elems (st_queues (sc_store s) (queue_name ?c))")
      case Nil
      from v_empty [OF Poll(2,1) q(1) refl, unfolded q(2,3), OF sl.deq_empty [OF sok Nil]]
      show ?thesis by (intro exI conjI, assumption) (use Nil Poll in simp_all)
    next
      case (Cons y ys)
      obtain d where d: "sl_Dequeue (REQ_QUEUE_CAPACITY - 1) 0 (st_queues (sc_store s) (queue_name ?c)) = Some (True, y, d)"
        using sl.deq_next [OF sok Cons] by blast
      from v_dequeue [OF Poll(2,1) q(1) refl, unfolded q(2,3), OF d]
      show ?thesis by (intro exI conjI, assumption) (use assms(2) Poll in \<open>simp_all add: serve_rank_def\<close>)
    qed
  next
    case (Work x)
    then obtain rep where cl: "sy_client ?v = CL_Wait rep x" "x < sg_k (G ?c)" "results_ok (G ?c) (sy_dst ?v)"
      using ok(2) sv by (cases "sy_client ?v") (auto simp: sys_inv_def)
    have len: "length (cx_matrixBuffers ?ctx) = unat (sg_k (G ?c))" "length (cx_matrixBuffersTr ?ctx) = unat (sg_k (G ?c))"
      using slot map_eq_imp_length_eq by (fastforce simp: slot_of_client_def)+
    obtain b r where br: "arr_read (cx_matrixBuffers ?ctx) (unat x) = Some b" "arr_read (cx_matrixBuffersTr ?ctx) (unat x) = Some r"
      using cl(2) len by (simp add: arr_read_def word_less_nat_alt)
    note buf = slot_buffers [OF slot br]
    have at: "word_range 0 (sg_k (G ?c)) ! unat x = x" using cl(2) by (simp add: nth_word_range word_less_nat_alt)
    have reads: "sg_src (G ?c) ! unat x = st_matrices (sc_store s) (mb_GetName b)"
      "sy_dst ?v ! unat x = st_matrices (sc_store s) (mb_GetName r)"
      using service_invD(8) [OF inv, of ?c, symmetric] cl(2) at buf by (simp_all add: view_def word_less_nat_alt)
    obtain sched tr' progs where run: "TransposeTiledMultiThreaded (sg_src (G ?c) ! unat x) (sy_dst ?v ! unat x) (sg_rows (G ?c))
        (sg_cols (G ?c)) TRANSPOSE_TILE_SIZE (sg_threads (G ?c)) sched = Running tr' progs" "joined (Running tr' progs)"
      using work_result(5) [OF ok(1) cl(3,2)] by blast
    have size: "bd_numRows (cx_matrixSize ?ctx) = sg_rows (G ?c)" "bd_numColumns (cx_matrixSize ?ctx) = sg_cols (G ?c)"
      "ws_numWorkerThreads (sr_ws (sc_srv s)) = sg_threads (G ?c)"
      using slot service_invD(7) [OF inv] by (simp_all add: slot_of_client_def)
    from v_transpose [OF Work(2) br run [unfolded reads size [symmetric]], of i]
    show ?thesis by (intro exI conjI, assumption) (use assms(2) Work in \<open>simp_all add: serve_rank_def\<close>)
  next
    case Wake
    obtain f where f: "cx_pTransposeReadyFutex ?ctx = Some f" using slot by (auto simp: slot_of_client_def)
    from v_wake [OF Wake(2) f refl refl, of i]
    show ?thesis by (intro exI conjI, assumption) (use assms(2) Wake in \<open>simp_all add: serve_rank_def\<close>)
  next
    case Fault
    then show ?thesis using ok(2) sv by (cases "sy_client ?v") (auto simp: sys_inv_def)
  qed
qed

text \<open>The dispatcher gets past a slot it serves, and this changes nothing for another one.\<close>

lemma serve_past:
  assumes "in_order G s" "sr_dispatcher (sc_srv s) = D_Serve i" "j \<in> valid_slots (sc_srv s)" "cx_subscribed (sc_bank s ! j)" "i \<noteq> j"
  shows "\<exists>t. (calm_step who G)\<^sup>*\<^sup>* s t \<and> sr_dispatcher (sc_srv t) = D_Scan (i + 1) \<and> keeps_slot G j s t \<and>
    known_slots (sc_srv t) = known_slots (sc_srv s) \<and> cx_subscribed (sc_bank t ! j)"
  using assms
proof (induction "serve_rank s" arbitrary: s rule: less_induct)
  case less
  obtain t where t: "serve_step i (sc_bank s ! i) s t"
      "sr_dispatcher (sc_srv t) = D_Scan (i + 1) \<or> sr_dispatcher (sc_srv t) = D_Serve i \<and> serve_rank t < serve_rank s"
    using serve_next [OF less.prems(1,2)] by blast
  have inv: "service_inv G s" using less.prems(1) by (simp add: in_order_def)
  have step: "calm_step who G s t" by (rule calm_serve [OF less.prems(2) t(1)])
  have "bank_ok (sc_bank s)" using srv_invD(1) [OF service_invD(1) [OF inv]] .
  moreover have "i < MAX_CLIENTS" "cx_subscribed (sc_bank s ! i)" "j < MAX_CLIENTS"
    using serving_slot(1,3) [OF inv less.prems(2)] less.prems(3) by (simp_all add: valid_slots_def)
  ultimately have "cx_id (sc_bank s ! j) \<noteq> cx_id (sc_bank s ! i)"
    using less.prems(4,5) unfolding bank_ok_def by (metis linorder_neqE_nat)
  then have keep: "keeps_slot G j s t" "known_slots (sc_srv t) = known_slots (sc_srv s)" "cx_subscribed (sc_bank t ! j)"
    using serve_other [OF inv less.prems(2) t(1)] serve_keeps [OF t(1)] less.prems(4) by (simp_all add: keeps_slot_def)
  from t(2) show ?case
  proof
    assume "sr_dispatcher (sc_srv t) = D_Scan (i + 1)"
    with step keep show ?thesis by blast
  next
    assume again: "sr_dispatcher (sc_srv t) = D_Serve i \<and> serve_rank t < serve_rank s"
    have "in_order G t" by (rule in_order_calm [OF r_into_rtranclp [of "calm_step who G", OF step] less.prems(1)])
    moreover have "j \<in> valid_slots (sc_srv t)" using less.prems(3) keep(1) by (simp add: keeps_slot_def)
    ultimately obtain u where "(calm_step who G)\<^sup>*\<^sup>* t u" "sr_dispatcher (sc_srv u) = D_Scan (i + 1)" "keeps_slot G j t u"
        "known_slots (sc_srv u) = known_slots (sc_srv t)" "cx_subscribed (sc_bank u ! j)"
      using less.hyps [of t] again keep(3) less.prems(5) by blast
    with step keep show ?thesis
      by (intro exI [of _ u]) (auto intro: converse_rtranclp_into_rtranclp keeps_slot_trans)
  qed
qed

definition slot_ready :: "(u32 \<Rightarrow> sys_config) \<Rightarrow> nat \<Rightarrow> 'k service \<Rightarrow> bool" where
  "slot_ready G j s \<longleftrightarrow> in_order G s \<and> j \<in> valid_slots (sc_srv s) \<and> cx_subscribed (sc_bank s ! j) \<and>
     ws_running (sr_ws (sc_srv s)) \<and> sr_handler (sc_srv s) = H_Idle"

text \<open>What a detour of the dispatcher amounts to for the slot \<open>j\<close>.\<close>

definition detour :: "u32 \<Rightarrow> (u32 \<Rightarrow> sys_config) \<Rightarrow> nat \<Rightarrow> 'k service \<Rightarrow> 'k service \<Rightarrow> bool" where
  "detour who G j s t \<longleftrightarrow> (calm_step who G)\<^sup>*\<^sup>* s t \<and> keeps_slot G j s t \<and> slot_ready G j t"

lemma detour_refl: "slot_ready G j s \<Longrightarrow> detour who G j s s"
  by (simp add: detour_def keeps_slot_def)

lemma detour_trans: "detour who G j s t \<Longrightarrow> detour who G j t u \<Longrightarrow> detour who G j s u"
  unfolding detour_def using keeps_slot_trans rtranclp_trans by fast

lemma dispatcher_detour:
  assumes "slot_ready G j s" "served s = None" "dispatcher_step (sc_srv s) r" "sr_handler r = sr_handler (sc_srv s)"
    "valid_slots r = valid_slots (sc_srv s)" "ws_running (sr_ws r) = ws_running (sr_ws (sc_srv s))"
    "ws_clientBank (sr_ws r) = sc_bank s"
  shows "detour who G j s (s\<lparr>sc_srv := r\<rparr>)"
proof -
  let ?t = "s\<lparr>sc_srv := r\<rparr>"
  have step: "calm_step who G s ?t" by (rule calm_dispatcher [OF assms(3,2)])
  have inv: "in_order G s" using assms(1) by (simp add: slot_ready_def)
  then have "in_order G ?t" using in_order_calm [OF r_into_rtranclp [of "calm_step who G", OF step]] by blast
  moreover have "sc_worker s = SV_Poll" using inv assms(2) service_invD(4) by (auto simp: in_order_def)
  then have "view G ?t c = view G s c" for c by (simp add: view_def)
  ultimately show ?thesis
    using assms step by (auto simp: detour_def slot_ready_def keeps_slot_def)
qed

lemma past_detour:
  assumes "slot_ready G j s" "sr_dispatcher (sc_srv s) = D_Serve i" "i \<noteq> j"
  shows "\<exists>t. detour who G j s t \<and> sr_dispatcher (sc_srv t) = D_Scan (i + 1) \<and> known_slots (sc_srv t) = known_slots (sc_srv s)"
proof -
  have a: "in_order G s" "j \<in> valid_slots (sc_srv s)" "cx_subscribed (sc_bank s ! j)" using assms(1) by (simp_all add: slot_ready_def)
  obtain t where t: "(calm_step who G)\<^sup>*\<^sup>* s t" "sr_dispatcher (sc_srv t) = D_Scan (i + 1)" "keeps_slot G j s t"
      "known_slots (sc_srv t) = known_slots (sc_srv s)" "cx_subscribed (sc_bank t ! j)"
    using serve_past [OF a(1) assms(2) a(2,3) assms(3)] by blast
  have "slot_ready G j t"
    using assms(1) t(3,5) in_order_calm [OF t(1) a(1)] by (simp add: slot_ready_def keeps_slot_def)
  with t show ?thesis by (auto simp: detour_def)
qed

lemma scan_detour:
  assumes "slot_ready G j s" "sr_dispatcher (sc_srv s) = D_Scan i" "i \<le> n" "n \<le> MAX_CLIENTS"
    "j \<in> known_slots (sc_srv s) \<Longrightarrow> j < i \<or> n \<le> j"
  shows "\<exists>t. detour who G j s t \<and> sr_dispatcher (sc_srv t) = D_Scan n \<and> known_slots (sc_srv t) = known_slots (sc_srv s)"
  using assms
proof (induction "n - i" arbitrary: i s)
  case 0
  then show ?case using detour_refl [OF "0.prems"(1), of who] by (intro exI [of _ s]) simp
next
  case (Suc d)
  then have i: "i < n" "i < MAX_CLIENTS" by simp_all
  have idle: "served s = None" using Suc.prems(2) by (simp add: served_def)
  have "\<exists>t. detour who G j s t \<and> sr_dispatcher (sc_srv t) = D_Scan (i + 1) \<and> known_slots (sc_srv t) = known_slots (sc_srv s)"
  proof (cases "getBit (sr_local (sc_srv s)) i")
    case False
    let ?r = "(sc_srv s)\<lparr>sr_dispatcher := D_Scan (i + 1)\<rparr>"
    have "detour who G j s (s\<lparr>sc_srv := ?r\<rparr>)"
      by (rule dispatcher_detour [OF Suc.prems(1) idle d_skip [OF Suc.prems(2) i(2) False]]) (simp_all add: next_slot_slots)
    then show ?thesis by (intro exI conjI, assumption) (simp_all add: next_slot_slots)
  next
    case True
    let ?t = "s\<lparr>sc_srv := (sc_srv s)\<lparr>sr_dispatcher := D_Serve i\<rparr>\<rparr>"
    have d: "detour who G j s ?t"
      by (rule dispatcher_detour [OF Suc.prems(1) idle d_serve [OF Suc.prems(2) i(2) True]]) (simp_all add: next_slot_slots)
    have "i \<noteq> j" using Suc.prems(5) True i by (auto simp: known_slots_def)
    then obtain u where "detour who G j ?t u" "sr_dispatcher (sc_srv u) = D_Scan (i + 1)" "known_slots (sc_srv u) = known_slots (sc_srv ?t)"
      using past_detour [of G j ?t i who] d by (auto simp: detour_def)
    with detour_trans [OF d] show ?thesis by (auto simp: next_slot_slots)
  qed
  then obtain t where t: "detour who G j s t" "sr_dispatcher (sc_srv t) = D_Scan (i + 1)" "known_slots (sc_srv t) = known_slots (sc_srv s)"
    by blast
  have ready: "slot_ready G j t" using t(1) by (simp add: detour_def)
  have ahead: "j < i + 1 \<or> n \<le> j" if "j \<in> known_slots (sc_srv t)"
    using Suc.prems(5) t(3) that by auto
  have "d = n - (i + 1)" "i + 1 \<le> n" using Suc.hyps(2) i(1) by simp_all
  then obtain u where "detour who G j t u" "sr_dispatcher (sc_srv u) = D_Scan n" "known_slots (sc_srv u) = known_slots (sc_srv t)"
    using Suc.hyps(1) [OF _ ready t(2) _ Suc.prems(4) ahead] by blast
  with detour_trans [OF t(1)] t(3) show ?case by auto
qed

text \<open>With the slot among those it knows the dispatcher gets there in the same round.\<close>

definition at_slot :: "nat \<Rightarrow> 'k service \<Rightarrow> bool" where
  "at_slot j s \<longleftrightarrow> sr_dispatcher (sc_srv s) = D_Serve j \<and> sc_worker s = SV_Poll \<and> \<not> sc_timing s"

lemma round_to_slot:
  assumes "slot_ready G j s" "sr_dispatcher (sc_srv s) = D_Scan i" "i \<le> j" "j \<in> known_slots (sc_srv s)"
  shows "\<exists>t. detour who G j s t \<and> at_slot j t"
proof -
  have j: "j < MAX_CLIENTS" using assms(4) by (simp add: known_slots_def)
  obtain t where t: "detour who G j s t" "sr_dispatcher (sc_srv t) = D_Scan j" "known_slots (sc_srv t) = known_slots (sc_srv s)"
    using scan_detour [OF assms(1-3)] j by auto
  have ready: "slot_ready G j t" using t(1) by (simp add: detour_def)
  have idle: "served t = None" using t(2) by (simp add: served_def)
  have "j \<in> known_slots (sc_srv t)" using assms(4) t(3) by simp
  then have "getBit (sr_local (sc_srv t)) j" by (simp add: known_slots_def)
  from d_serve [OF t(2) j this]
  have d: "detour who G j t (t\<lparr>sc_srv := (sc_srv t)\<lparr>sr_dispatcher := D_Serve j\<rparr>\<rparr>)"
    by (rule dispatcher_detour [OF ready idle]) (simp_all add: next_slot_slots)
  have "service_inv G t" using ready by (simp add: slot_ready_def in_order_def)
  then have "sc_worker t = SV_Poll" "\<not> sc_timing t" using idle service_invD(4,5) by blast+
  then show ?thesis
    by (intro exI [of _ "t\<lparr>sc_srv := (sc_srv t)\<lparr>sr_dispatcher := D_Serve j\<rparr>\<rparr>"] conjI detour_trans [OF t(1) d])
      (simp add: at_slot_def)
qed

text \<open>From the head of its loop it first takes the update, if there is one, and then knows the slot.\<close>

lemma clear_to_slot:
  assumes "slot_ready G j s" "sr_dispatcher (sc_srv s) = D_Clear"
  shows "\<exists>t. detour who G j s t \<and> at_slot j t"
proof -
  let ?r = "(sc_srv s)\<lparr>sr_dispatcher := D_Scan 0, sr_ws := (sr_ws (sc_srv s))\<lparr>ws_updateAvailable := False\<rparr>\<rparr>"
  have d: "detour who G j s (s\<lparr>sc_srv := ?r\<rparr>)"
    by (rule dispatcher_detour [OF assms(1) _ d_clear [OF assms(2)]])
      (use assms(2) in \<open>simp_all add: served_def valid_slots_def\<close>)
  have "srv_inv (sc_srv s)" using assms(1) service_invD(1) by (auto simp: slot_ready_def in_order_def)
  then have "known_slots (sc_srv s) = valid_slots (sc_srv s)" using srv_invD(5) assms(2) by fastforce
  then have "j \<in> known_slots ?r" using assms(1) by (simp add: slot_ready_def known_slots_def)
  then obtain t where "detour who G j (s\<lparr>sc_srv := ?r\<rparr>) t" "at_slot j t"
    using round_to_slot [of G j "s\<lparr>sc_srv := ?r\<rparr>" 0 who] d by (auto simp: detour_def)
  with detour_trans [OF d] show ?thesis by blast
qed

lemma load_to_slot:
  assumes "slot_ready G j s" "sr_dispatcher (sc_srv s) = D_Load"
  shows "\<exists>t. detour who G j s t \<and> at_slot j t"
proof -
  let ?r = "(sc_srv s)\<lparr>sr_dispatcher := D_Clear, sr_local := ws_validClientsBitSet (sr_ws (sc_srv s))\<rparr>"
  have d: "detour who G j s (s\<lparr>sc_srv := ?r\<rparr>)"
    by (rule dispatcher_detour [OF assms(1) _ d_load [OF assms(2)]])
      (use assms(2) in \<open>simp_all add: served_def valid_slots_def\<close>)
  then obtain t where "detour who G j (s\<lparr>sc_srv := ?r\<rparr>) t" "at_slot j t"
    using clear_to_slot [of G j "s\<lparr>sc_srv := ?r\<rparr>" who] by (auto simp: detour_def)
  with detour_trans [OF d] show ?thesis by blast
qed

lemma top_to_slot:
  assumes "slot_ready G j s" "sr_dispatcher (sc_srv s) = D_Top"
  shows "\<exists>t. detour who G j s t \<and> at_slot j t"
proof -
  have run: "ws_running (sr_ws (sc_srv s))" and inv: "srv_inv (sc_srv s)" and idle: "sr_handler (sc_srv s) = H_Idle"
    using assms(1) service_invD(1) by (auto simp: slot_ready_def in_order_def)
  have none: "served s = None" using assms(2) by (simp add: served_def)
  show ?thesis
  proof (cases "ws_updateAvailable (sr_ws (sc_srv s))")
    case True
    let ?r = "(sc_srv s)\<lparr>sr_dispatcher := D_Load\<rparr>"
    have d: "detour who G j s (s\<lparr>sc_srv := ?r\<rparr>)"
      by (rule dispatcher_detour [OF assms(1) none d_update [OF assms(2) run True]]) (simp_all add: next_slot_slots)
    then obtain t where "detour who G j (s\<lparr>sc_srv := ?r\<rparr>) t" "at_slot j t"
      using load_to_slot [of G j "s\<lparr>sc_srv := ?r\<rparr>" who] by (auto simp: detour_def)
    with detour_trans [OF d] show ?thesis by blast
  next
    case False
    let ?r = "(sc_srv s)\<lparr>sr_dispatcher := D_Scan 0\<rparr>"
    have d: "detour who G j s (s\<lparr>sc_srv := ?r\<rparr>)"
      by (rule dispatcher_detour [OF assms(1) none d_no_update [OF assms(2) run False]]) (simp_all add: next_slot_slots)
    have "known_slots (sc_srv s) = valid_slots (sc_srv s)" using srv_invD(4) [OF inv] False idle by simp
    then have "j \<in> known_slots ?r" using assms(1) by (simp add: slot_ready_def next_slot_slots)
    then obtain t where "detour who G j (s\<lparr>sc_srv := ?r\<rparr>) t" "at_slot j t"
      using round_to_slot [of G j "s\<lparr>sc_srv := ?r\<rparr>" 0 who] d by (auto simp: detour_def)
    with detour_trans [OF d] show ?thesis by blast
  qed
qed

lemma scan_to_slot:
  assumes "slot_ready G j s" "sr_dispatcher (sc_srv s) = D_Scan i"
  shows "\<exists>t. detour who G j s t \<and> at_slot j t"
proof (cases "i \<le> j \<and> j \<in> known_slots (sc_srv s)")
  case True
  then show ?thesis using round_to_slot [OF assms] by blast
next
  case False
  have "\<exists>t n. detour who G j s t \<and> sr_dispatcher (sc_srv t) = D_Scan n \<and> MAX_CLIENTS \<le> n"
  proof (cases "i \<le> MAX_CLIENTS")
    case True
    with False scan_detour [OF assms True, of who] show ?thesis by fastforce
  next
    case False
    with detour_refl [OF assms(1), of who] assms(2) show ?thesis by (intro exI [of _ s] exI [of _ i]) simp
  qed
  then obtain t n where t: "detour who G j s t" "sr_dispatcher (sc_srv t) = D_Scan n" "MAX_CLIENTS \<le> n" by blast
  have ready: "slot_ready G j t" using t(1) by (simp add: detour_def)
  let ?r = "(sc_srv t)\<lparr>sr_dispatcher := D_Top\<rparr>"
  have d: "detour who G j t (t\<lparr>sc_srv := ?r\<rparr>)"
    by (rule dispatcher_detour [OF ready _ d_round [OF t(2,3)]]) (use t(2) in \<open>simp_all add: served_def next_slot_slots\<close>)
  then obtain u where "detour who G j (t\<lparr>sc_srv := ?r\<rparr>) u" "at_slot j u"
    using top_to_slot [of G j "t\<lparr>sc_srv := ?r\<rparr>" who] by (auto simp: detour_def)
  with detour_trans [OF t(1) detour_trans [OF d]] show ?thesis by blast
qed

lemma reach_slot:
  assumes "slot_ready G j s" "sr_dispatcher (sc_srv s) \<noteq> D_Stopped" "sy_server (view G s (cx_id (sc_bank s ! j))) = SV_Poll"
  shows "\<exists>t. detour who G j s t \<and> at_slot j t"
proof (cases "sr_dispatcher (sc_srv s)")
  case (D_Serve i)
  have inv: "in_order G s" using assms(1) by (simp add: slot_ready_def)
  show ?thesis
  proof (cases "i = j")
    case False
    from past_detour [OF assms(1) D_Serve False] obtain t where t: "detour who G j s t" "sr_dispatcher (sc_srv t) = D_Scan (i + 1)"
      by blast
    then obtain u where "detour who G j t u" "at_slot j u" using scan_to_slot [of G j t] by (auto simp: detour_def)
    with detour_trans [OF t(1)] show ?thesis by blast
  next
    case True
    then have poll: "sc_worker s = SV_Poll" using assms(3) D_Serve by (simp add: view_def served_def)
    show ?thesis
    proof (cases "sc_timing s")
      case False
      with poll True D_Serve detour_refl [OF assms(1)] show ?thesis by (auto simp: at_slot_def)
    next
      case timing: True
      let ?t = "s\<lparr>sc_timing := False,
        sc_srv := (set_stats j (StopTimer 0 (cx_stats (sc_bank s ! j))) (sc_srv s))\<lparr>sr_dispatcher := D_Scan (j + 1)\<rparr>\<rparr>"
      have st: "serve_step j (sc_bank s ! j) s ?t" by (rule v_stop_timer [OF timing])
      have step: "calm_step who G s ?t" using calm_serve [of s j] D_Serve st True by blast
      have "view G ?t c = view G s c" for c using poll by (simp add: view_def served_def)
      then have d: "detour who G j s ?t"
        using step assms(1) serve_keeps [OF st] in_order_calm [OF r_into_rtranclp [of "calm_step who G", OF step] inv]
        unfolding detour_def keeps_slot_def slot_ready_def by auto
      then obtain u where "detour who G j ?t u" "at_slot j u"
        using scan_to_slot [of G j ?t "j + 1" who] by (auto simp: detour_def)
      with detour_trans [OF d] show ?thesis by blast
    qed
  qed
qed (use assms top_to_slot load_to_slot clear_to_slot scan_to_slot in blast)+

section \<open>Every client gets its answers\<close>

lemma idle_server:
  assumes "sys_inv g s" "sl_elems (sy_queue s) = []" "sy_server s = SV_Poll" "server_step g s t"
  shows "t = s"
  using assms(4)
proof cases
  case (s_empty v x q)
  then have "q = sy_queue s" using assms(1) req_dequeue_empty by (auto simp: sys_inv_def)
  then show ?thesis using s_empty(1) by simp
next
  case (s_dequeue v x q)
  then have "sl_elems (sy_queue s) = x # sl_elems q" using assms(1) req_dequeue_next(1) by (auto simp: sys_inv_def)
  then show ?thesis using assms(2) by simp
qed (use assms(3) in simp_all)

lemma slot_unique:
  assumes "slot_ready G j s" "sr_dispatcher (sc_srv s) = D_Serve i" "cx_id (sc_bank s ! i) = cx_id (sc_bank s ! j)"
  shows "i = j"
proof -
  have inv: "service_inv G s" using assms(1) by (simp add: slot_ready_def in_order_def)
  have "bank_ok (sc_bank s)" using srv_invD(1) [OF service_invD(1) [OF inv]] .
  moreover have "i < MAX_CLIENTS" "cx_subscribed (sc_bank s ! i)" "j < MAX_CLIENTS" "cx_subscribed (sc_bank s ! j)"
    using serving_slot(1,3) [OF inv assms(2)] assms(1) by (simp_all add: slot_ready_def valid_slots_def)
  ultimately show ?thesis using assms(3) unfolding bank_ok_def by (metis linorder_neqE_nat)
qed

text \<open>A step of the dispatcher in the client's slot that finds work to do.\<close>

lemma slot_works:
  assumes "slot_ready G j s" "sr_dispatcher (sc_srv s) = D_Serve j" "c = cx_id (sc_bank s ! j)"
    "sc_worker s \<noteq> SV_Poll \<or> \<not> sc_timing s \<and> sl_elems (sy_queue (view G s c)) \<noteq> []"
  shows "\<exists>t. calm_step who G s t \<and> slot_ready G j t \<and> sr_dispatcher (sc_srv t) = D_Serve j \<and>
    cx_id (sc_bank t ! j) = c \<and> (work_left (G c) (view G t c), work_left (G c) (view G s c)) \<in> less_work"
proof -
  have inv: "in_order G s" using assms(1) by (simp add: slot_ready_def)
  obtain t where t: "serve_step j (sc_bank s ! j) s t" "sr_dispatcher (sc_srv t) = D_Serve j" "sc_worker t \<noteq> sc_worker s"
    using serve_next [OF inv assms(2)] assms(3,4) by (auto simp: view_def)
  note keeps = serve_keeps [OF t(1)]
  have step: "calm_step who G s t" by (rule calm_serve [OF assms(2) t(1)])
  have "sy_server (view G t c) \<noteq> sy_server (view G s c)"
    using t(2,3) assms(2,3) keeps(5) by (simp add: view_def served_def)
  then have "view G t c \<noteq> view G s c" by metis
  then have "server_step (G c) (view G s c) (view G t c)"
    using serve_own [OF _ assms(2) t(1) assms(3)] inv by (auto simp: in_order_def)
  then have "(work_left (G c) (view G t c), work_left (G c) (view G s c)) \<in> less_work"
    using server_step_works [of "G c"] inv \<open>view G t c \<noteq> view G s c\<close> by (auto simp: in_order_def)
  moreover have "slot_ready G j t"
    using assms(1) keeps in_order_calm [OF r_into_rtranclp [of "calm_step who G", OF step] inv] by (simp add: slot_ready_def)
  ultimately show ?thesis using step t(2) keeps(5) assms(3) by auto
qed

lemma service_moves:
  assumes "slot_ready G j s" "sr_dispatcher (sc_srv s) \<noteq> D_Stopped" "c = cx_id (sc_bank s ! j)" "sc_clients s c \<noteq> CL_Done"
  shows "\<exists>t. (calm_step c G)\<^sup>*\<^sup>* s t \<and> slot_ready G j t \<and> sr_dispatcher (sc_srv t) \<noteq> D_Stopped \<and>
    cx_id (sc_bank t ! j) = c \<and> (work_left (G c) (view G t c), work_left (G c) (view G s c)) \<in> less_work"
proof -
  let ?v = "view G s c"
  have inv: "in_order G s" using assms(1) by (simp add: slot_ready_def)
  then have ok: "config_ok (G c)" "sys_inv (G c) ?v" by (simp_all add: in_order_def)
  consider (Busy) "sy_server ?v \<noteq> SV_Poll" | (Queued) "sy_server ?v = SV_Poll" "sl_elems (sy_queue ?v) \<noteq> []"
    | (Client) "sy_server ?v = SV_Poll" "sl_elems (sy_queue ?v) = []" by blast
  then show ?thesis
  proof cases
    case Busy
    then obtain i where i: "sr_dispatcher (sc_srv s) = D_Serve i" "cx_id (sc_bank s ! i) = c" "sc_worker s \<noteq> SV_Poll"
      by (auto simp: view_def served_def split: if_splits dispatcher_pc.splits)
    then have "i = j" using slot_unique [OF assms(1)] assms(3) by blast
    with slot_works [OF assms(1) _ assms(3), of c] i show ?thesis by auto
  next
    case Queued
    obtain u where u: "detour c G j s u" "at_slot j u"
      using reach_slot [OF assms(1,2), of c] Queued(1) assms(3) by auto
    have same: "view G u c = ?v" "cx_id (sc_bank u ! j) = c" "slot_ready G j u" "(calm_step c G)\<^sup>*\<^sup>* s u"
      using u(1) assms(3) by (simp_all add: detour_def keeps_slot_def)
    obtain t where "calm_step c G u t" "slot_ready G j t" "sr_dispatcher (sc_srv t) = D_Serve j"
        "cx_id (sc_bank t ! j) = c" "(work_left (G c) (view G t c), work_left (G c) (view G u c)) \<in> less_work"
      using slot_works [OF same(3) _ same(2) [symmetric], of c] u(2) Queued(2) same(1) by (auto simp: at_slot_def)
    with same show ?thesis by (intro exI [of _ t]) auto
  next
    case Client
    have "sy_client ?v \<noteq> CL_Done" using assms(4) by (simp add: view_def)
    then obtain v where v: "sys_step (G c) ?v v" "(work_left (G c) v, work_left (G c) ?v) \<in> less_work"
      using next_moves [OF ok(2)] wait_moves [OF ok] by (cases "sy_client ?v") blast+
    have "v \<noteq> ?v" using v(2) by (cases "work_left (G c) ?v") auto
    then have cl: "client_step (G c) ?v v"
      using v(1) idle_server [OF ok(2) Client(2,1)] by (auto elim: sys_step.cases)
    let ?t = "s\<lparr>sc_clients := (sc_clients s)(c := sy_client v),
       sc_store := (sc_store s)\<lparr>st_queues := (st_queues (sc_store s))(queue_name c := sy_queue v),
         st_words := (st_words (sc_store s))(futex_name c := sy_word v)\<rparr>\<rparr>"
    have step: "calm_step c G s ?t" by (rule calm_client [OF cl])
    have "view G ?t c = v" using client_keeps [OF cl] by (simp add: view_def)
    moreover have "slot_ready G j ?t"
      using assms(1) in_order_calm [OF r_into_rtranclp [of "calm_step c G", OF step] inv] by (simp add: slot_ready_def)
    ultimately show ?thesis using step v(2) assms(2,3) by (intro exI [of _ ?t]) auto
  qed
qed

lemma service_runs_to_done:
  assumes "slot_ready G j s" "sr_dispatcher (sc_srv s) \<noteq> D_Stopped" "c = cx_id (sc_bank s ! j)"
  shows "\<exists>t. (calm_step c G)\<^sup>*\<^sup>* s t \<and> sc_clients t c = CL_Done"
  using assms
proof (induction "view G s c" arbitrary: s rule: wf_induct_rule [OF wf_work [of "G c"]])
  case (1 s)
  show ?case
  proof (cases "sc_clients s c = CL_Done")
    case False
    obtain t where t: "(calm_step c G)\<^sup>*\<^sup>* s t" "slot_ready G j t" "sr_dispatcher (sc_srv t) \<noteq> D_Stopped"
        "cx_id (sc_bank t ! j) = c" "(work_left (G c) (view G t c), work_left (G c) (view G s c)) \<in> less_work"
      using service_moves [OF "1.prems" False] by blast
    then have "(view G t c, view G s c) \<in> inv_image less_work (work_left (G c))" by simp
    from "1.hyps" [OF this t(2,3) t(4) [symmetric]] t(1) show ?thesis by (meson rtranclp_trans)
  qed blast
qed

section \<open>Properties\<close>

lemma service_in_order:
  assumes "server_main S hardware argv pid net = (Inr (Some (ipc, ws)), net')" "store_ready G store"
    "\<forall>c. config_ok (G c) \<and> sg_threads (G c) = ws_numWorkerThreads ws" "(service_step E G)\<^sup>*\<^sup>* (service_start ws kern store) t"
  shows "in_order G t"
proof (rule in_order_reach [OF assms(4)])
  show "in_order G (service_start ws kern store)"
    using service_start_inv [OF assms(1,2)] assms(2,3) sys_start_inv
    by (auto simp: in_order_def service_start_view [OF assms(2)] store_ready_def)
qed

text \<open>A client that has connected, for the witnesses: one matrix of 64 by 64.\<close>

definition demo_clients :: "u32 \<Rightarrow> sys_config" where
  "demo_clients c = demo_config\<lparr>sg_threads := 1\<rparr>"

definition demo_store :: store where
  "demo_store = \<lparr>st_queues = (\<lambda>_. sl_initial REQ_QUEUE_CAPACITY), st_words = (\<lambda>_. 0), st_matrices = (\<lambda>_. replicate 4096 5)\<rparr>"

lemma demo_range: "word_range 0 (1 :: u32) = [0]"
  by (simp add: word_range_def)

lemma demo_service_ok:
  "store_ready demo_clients demo_store" "\<forall>c. config_ok (demo_clients c) \<and> sg_threads (demo_clients c) = ws_numWorkerThreads demo_workspace"
  by (simp_all add: store_ready_def demo_clients_def demo_store_def demo_config_def results_ok_def config_ok_def
      demo_range demo_workspace_def)

lemma lift_handler:
  assumes "(\<lambda>r r'. handler_step E r r' \<and> honest G (sr_handler r'))\<^sup>*\<^sup>* r r'"
  shows "(service_step E G)\<^sup>*\<^sup>* (s\<lparr>sc_srv := r\<rparr>) (s\<lparr>sc_srv := r'\<rparr>)"
  using assms
proof (induction rule: rtranclp_induct)
  case (step x y)
  have "service_step E G (s\<lparr>sc_srv := x\<rparr>) (s\<lparr>sc_srv := x\<rparr>\<lparr>sc_srv := y\<rparr>)"
    by (rule sv_handler) (use step.hyps(2) in simp_all)
  then have "service_step E G (s\<lparr>sc_srv := x\<rparr>) (s\<lparr>sc_srv := y\<rparr>)" by simp
  with step.IH show ?case by (rule rtranclp.rtrancl_into_rtrancl)
qed simp

lemma demo_connected:
  "\<exists>t. (service_step demo_env demo_clients)\<^sup>*\<^sup>* (service_start demo_workspace [] demo_store) t \<and>
     sr_handler (sc_srv t) = H_Idle \<and> ws_running (sr_ws (sc_srv t)) \<and> sr_dispatcher (sc_srv t) = D_Top \<and>
     cx_subscribed (sc_bank t ! 0) \<and> cx_id (sc_bank t ! 0) = 7"
proof -
  obtain ctx kern where su: "setup_context demo_env 7 6 6 1 5 new_context [] = Some (True, ctx, kern)"
    using demo_server_setup by blast
  have ctx: "cx_id ctx = 7" "cx_subscribed ctx" using setup_context_result [OF su] by simp_all
  let ?s0 = "service_start demo_workspace ([] :: string list) demo_store"
  let ?H = "\<lambda>h. \<forall>sk c m n k' i. h = H_Add_Write sk c m n k' i \<longrightarrow> m = 6 \<and> n = 6 \<and> k' = 1"
  have honest: "?H h \<longleftrightarrow> honest demo_clients h" for h
    by (simp add: honest_def demo_clients_def demo_config_def)
  obtain r where r: "(\<lambda>r r'. handler_step demo_env r r' \<and> honest demo_clients (sr_handler r'))\<^sup>*\<^sup>* (srv_start demo_workspace []) r"
      "sr_handler r = H_Add_Respond 5 7" "sr_dispatcher r = D_Top"
      "sr_ws r = demo_workspace\<lparr>ws_clientBank := (replicate MAX_CLIENTS new_context)[0 := ctx], ws_updateAvailable := True,
        ws_validClientsBitSet := setBit 0 0 True\<rparr>"
    using demo_subscribes [OF su, unfolded honest] by blast
  have "?s0\<lparr>sc_srv := srv_start demo_workspace []\<rparr> = ?s0" by (simp add: service_start_def)
  with lift_handler [OF r(1), of ?s0] have run: "(service_step demo_env demo_clients)\<^sup>*\<^sup>* ?s0 (?s0\<lparr>sc_srv := r\<rparr>)" by simp
  let ?r = "r\<lparr>sr_handler := H_Idle, sr_sent := sr_sent r @ [(5, subscribe_response (sr_ws r)
      \<lparr>msg_type = 0, senderId = 0, param1 = 0, param2 = 0, param3 = 0\<rparr> 7)]\<rparr>"
  have "service_step demo_env demo_clients (?s0\<lparr>sc_srv := r\<rparr>) (?s0\<lparr>sc_srv := r\<rparr>\<lparr>sc_srv := ?r\<rparr>)"
    by (rule sv_handler) (simp_all add: h_respond r(2) honest_def)
  with run have "(service_step demo_env demo_clients)\<^sup>*\<^sup>* ?s0 (?s0\<lparr>sc_srv := ?r\<rparr>)"
    by (auto intro: rtranclp.rtrancl_into_rtrancl)
  then show ?thesis
    by (intro exI conjI, assumption) (simp_all add: r ctx demo_workspace_def MAX_CLIENTS_def)
qed

lemma demo_finished:
  "\<exists>t. (service_step demo_env demo_clients)\<^sup>*\<^sup>* (service_start demo_workspace [] demo_store) t \<and> sc_clients t 7 = CL_Done"
proof -
  obtain t where t: "(service_step demo_env demo_clients)\<^sup>*\<^sup>* (service_start demo_workspace [] demo_store) t"
     "sr_handler (sc_srv t) = H_Idle" "ws_running (sr_ws (sc_srv t))" "sr_dispatcher (sc_srv t) = D_Top"
     "cx_subscribed (sc_bank t ! 0)" "cx_id (sc_bank t ! 0) = 7"
    using demo_connected by blast
  have ord: "in_order demo_clients t" by (rule service_in_order [OF demo_main demo_service_ok t(1)])
  then have "srv_inv (sc_srv t)" by (simp add: in_order_def service_inv_def)
  then have "0 \<in> valid_slots (sc_srv t)"
    using srv_invD(4) [of "sc_srv t"] t(2,5) by (auto simp: subscribed_slots_def MAX_CLIENTS_def)
  with ord t have "slot_ready demo_clients 0 t" by (simp add: slot_ready_def)
  from service_runs_to_done [OF this _ t(6) [symmetric]] t(4)
  obtain u where "(calm_step 7 demo_clients)\<^sup>*\<^sup>* t u" "sc_clients u 7 = CL_Done" by auto
  with calm_run_service have "(service_step demo_env demo_clients)\<^sup>*\<^sup>* t u" "sc_clients u 7 = CL_Done" by blast+
  with t(1) show ?thesis by (meson rtranclp_trans)
qed

text \<open>The whole service is correct. For any number of clients with matrices of at least one
  tile and fewer than \<open>2 ^ 32\<close> elements, subscribing, asking and unsubscribing in any order and
  interleaving with the server's two threads and with the workers: the dispatcher never accesses memory
  out of bounds or through a null handle, and every client that is done finds all its results right and
  exits with status 0.\<close>

theorem all_clients_correct:
  assumes "server_main S hardware argv pid net = (Inr (Some (ipc, ws)), net')" "store_ready G store"
    "\<forall>c. config_ok (G c) \<and> sg_threads (G c) = ws_numWorkerThreads ws" "(service_step E G)\<^sup>*\<^sup>* (service_start ws kern store) t"
  shows "sc_worker t \<noteq> SV_Fault \<and>
    (\<forall>c refs. sc_clients t c = CL_Done \<and> sg_repetitions (G c) \<noteq> 0 \<and> results_ok (G c) refs \<longrightarrow>
       map_option client_status (client_check (sg_rows (G c)) (sg_cols (G c))
         (zip (sg_src (G c)) (zip (map (\<lambda>b. st_matrices (sc_store t) (result_name c b)) (word_range 0 (sg_k (G c)))) refs))) = Some 0)"
proof -
  have view: "(sys_step (G c))\<^sup>*\<^sup>* (sys_start (map (\<lambda>b. st_matrices store (result_name c b)) (word_range 0 (sg_k (G c))))) (view G t c)" for c
    using service_sim.simulates_reach [OF assms(4) service_start_inv [OF assms(1,2)], of c] assms(3)
    by (simp add: service_start_view [OF assms(2)])
  have ready: "results_ok (G c) (map (\<lambda>b. st_matrices store (result_name c b)) (word_range 0 (sg_k (G c))))" for c
    using assms(2) by (simp add: store_ready_def)
  have ok: "config_ok (G c)" for c using assms(3) by blast
  note each = service_correct [OF ok ready view]
  have "sc_worker t \<noteq> SV_Fault"
  proof (cases "served t")
    case None
    then show ?thesis using service_in_order [OF assms] service_invD(4) by (fastforce simp: in_order_def)
  next
    case (Some c)
    then show ?thesis using each(1) [of c] by (simp add: view_def)
  qed
  moreover have "map_option client_status (client_check (sg_rows (G c)) (sg_cols (G c))
         (zip (sg_src (G c)) (zip (map (\<lambda>b. st_matrices (sc_store t) (result_name c b)) (word_range 0 (sg_k (G c)))) refs))) = Some 0"
    if "sc_clients t c = CL_Done \<and> sg_repetitions (G c) \<noteq> 0 \<and> results_ok (G c) refs" for c refs
    using each(2) [of c refs] that by (simp add: view_def)
  ultimately show ?thesis by blast
qed

theorem all_clients_correct_witness:
  "\<exists>t. (service_step demo_env demo_clients)\<^sup>*\<^sup>* (service_start demo_workspace [] demo_store) t \<and> sc_clients t 7 = CL_Done \<and>
     map_option client_status (client_check (sg_rows (demo_clients 7)) (sg_cols (demo_clients 7))
         (zip (sg_src (demo_clients 7)) (zip [st_matrices (sc_store t) (result_name 7 0)] [replicate 4096 0]))) = Some 0"
proof -
  obtain t where t: "(service_step demo_env demo_clients)\<^sup>*\<^sup>* (service_start demo_workspace [] demo_store) t" "sc_clients t 7 = CL_Done"
    using demo_finished by blast
  have k: "sg_k (demo_clients 7) = 1" "sg_repetitions (demo_clients 7) \<noteq> 0" "results_ok (demo_clients 7) [replicate 4096 0]"
    by (simp_all add: demo_clients_def demo_config_def results_ok_def)
  have "map (\<lambda>b. st_matrices (sc_store t) (result_name 7 b)) (word_range 0 (sg_k (demo_clients 7))) = [st_matrices (sc_store t) (result_name 7 0)]"
    using k(1) demo_range by simp
  with all_clients_correct [OF demo_main demo_service_ok t(1)] t k show ?thesis
    by (intro exI [of _ t] conjI) metis+
qed

text \<open>Every client sees the service as if it were alone with the server: projected to the
  objects of one client, each run of the service is a run of that client and one server, whatever the
  other clients and the handler do in between.\<close>

theorem client_view_refines:
  assumes "server_main S hardware argv pid net = (Inr (Some (ipc, ws)), net')" "store_ready G store"
    "\<forall>c. sg_threads (G c) = ws_numWorkerThreads ws" "(service_step E G)\<^sup>*\<^sup>* (service_start ws kern store) t"
  shows "(sys_step (G c))\<^sup>*\<^sup>* (sys_start (map (\<lambda>b. st_matrices store (result_name c b)) (word_range 0 (sg_k (G c))))) (view G t c)"
  using service_sim.simulates_reach [OF assms(4) service_start_inv [OF assms(1-3)], of c]
  by (simp add: service_start_view [OF assms(2)])

theorem client_view_refines_witness:
  "\<exists>t :: string list service. (sys_step (demo_clients 7))\<^sup>*\<^sup>* (sys_start [replicate 4096 5]) (view demo_clients t 7) \<and> sy_client (view demo_clients t 7) = CL_Done"
proof -
  obtain t where t: "(service_step demo_env demo_clients)\<^sup>*\<^sup>* (service_start demo_workspace [] demo_store) t" "sc_clients t 7 = CL_Done"
    using demo_finished by blast
  have threads: "\<forall>c. sg_threads (demo_clients c) = ws_numWorkerThreads demo_workspace" using demo_service_ok(2) by blast
  from client_view_refines [OF demo_main demo_service_ok(1) threads t(1), of 7] t(2)
  show ?thesis
    by (intro exI [of _ t] conjI) (simp_all add: view_simps demo_clients_def demo_config_def demo_range demo_store_def)
qed

text \<open>No client is locked out. Whatever the clients have done so far, a subscribed client
  can still get all its answers as long as the server runs: the dispatcher comes round to its slot
  through any requests of the others, and each answer brings the client nearer to its end.\<close>

theorem no_client_locked_out:
  assumes "server_main S hardware argv pid net = (Inr (Some (ipc, ws)), net')" "store_ready G store"
    "\<forall>c. config_ok (G c) \<and> sg_threads (G c) = ws_numWorkerThreads ws" "(service_step E G)\<^sup>*\<^sup>* (service_start ws kern store) t"
    "j < MAX_CLIENTS" "cx_subscribed (sc_bank t ! j)" "sr_handler (sc_srv t) = H_Idle"
    "ws_running (sr_ws (sc_srv t))" "sr_dispatcher (sc_srv t) \<noteq> D_Stopped"
  shows "\<exists>u. (service_step E G)\<^sup>*\<^sup>* t u \<and> sc_clients u (cx_id (sc_bank t ! j)) = CL_Done"
proof -
  have ord: "in_order G t" by (rule service_in_order [OF assms(1-4)])
  then have "srv_inv (sc_srv t)" by (simp add: in_order_def service_inv_def)
  then have "j \<in> valid_slots (sc_srv t)"
    using srv_invD(4) [of "sc_srv t"] assms(5-7) by (auto simp: subscribed_slots_def)
  with ord assms have "slot_ready G j t" by (simp add: slot_ready_def)
  from service_runs_to_done [OF this assms(9) refl] show ?thesis by (meson calm_run_service)
qed

theorem no_client_locked_out_witness:
  "\<exists>t u. (service_step demo_env demo_clients)\<^sup>*\<^sup>* (service_start demo_workspace [] demo_store) t \<and> cx_id (sc_bank t ! 0) = 7 \<and>
     (service_step demo_env demo_clients)\<^sup>*\<^sup>* t u \<and> sc_clients u 7 = CL_Done"
proof -
  obtain t where t: "(service_step demo_env demo_clients)\<^sup>*\<^sup>* (service_start demo_workspace [] demo_store) t"
     "sr_handler (sc_srv t) = H_Idle" "ws_running (sr_ws (sc_srv t))" "sr_dispatcher (sc_srv t) = D_Top"
     "cx_subscribed (sc_bank t ! 0)" "cx_id (sc_bank t ! 0) = 7"
    using demo_connected by blast
  from no_client_locked_out [OF demo_main demo_service_ok t(1) _ t(5,2,3)] t show ?thesis
    by (simp add: MAX_CLIENTS_def) blast
qed

end
