(* ===== verification/Transpose_Session.thy ===== *)
theory Transpose_Session
  imports Transpose_Service
begin

text \<open>
  The program from the clients' start to their exit: each client subscribes over its socket, waits for
  the response, runs its requests, unsubscribes and checks its results, while the server's handler takes
  the messages one by one. In the preceding theory the handler may get any message that does not lie
  about its sender; here the messages are those the clients send, and the slots of the bank follow the
  life of the clients. The connection of a client lasts as long as there is a message on it; \<open>Transpose_Crash\<close>
  has the processes that end before.
\<close>

section \<open>The state\<close>

text \<open>
  The points of the client's \<open>main\<close> after its set-up: about to subscribe; waiting for the response; in the
  loop of requests; about to log; about to check; and the exit with its status. \<open>M_Fault\<close> is an access
  out of bounds in the check.
\<close>

datatype main_pc = M_Subscribe | M_Await | M_Requests | M_Log | M_Check | M_Exit nat | M_Fault

text \<open>
  \<open>ss_wire\<close> holds the messages a client has sent and the handler has not taken, \<open>ss_read\<close> counts the
  messages the client's communicator has handed to its handler, \<open>ss_out\<close> is what is written to \<open>clog\<close>.
\<close>

record 'k session =
  ss_service :: "'k service"
  ss_point :: "u32 \<Rightarrow> main_pc"
  ss_work :: "u32 \<Rightarrow> ClientWorkspace"
  ss_wire :: "u32 \<Rightarrow> ClientServerMessage list"
  ss_read :: "u32 \<Rightarrow> nat"
  ss_out :: "string list"

abbreviation ss_srv :: "'k session \<Rightarrow> 'k srv" where
  "ss_srv s \<equiv> sc_srv (ss_service s)"

abbreviation ss_bank :: "'k session \<Rightarrow> ClientContext list" where
  "ss_bank s \<equiv> sc_bank (ss_service s)"

abbreviation golden_name :: "u32 \<Rightarrow> u32 \<Rightarrow> string" where
  "golden_name c b \<equiv> mb_CreateShmObjectName c b TR_GOLDEN_MATRIX_BUF_NAME_SUFFIX"

text \<open>What the server has sent to a socket.\<close>

definition sent_to :: "int \<Rightarrow> 'k srv \<Rightarrow> ClientServerMessage list" where
  "sent_to sk r = map snd (filter (\<lambda>p. fst p = sk) (sr_sent r))"

text \<open>The buffers in the order of the check: matrix, result, reference.\<close>

definition checked_buffers :: "ClientWorkspace \<Rightarrow> store \<Rightarrow> (u64 list \<times> u64 list \<times> u64 list) list" where
  "checked_buffers w st =
     (let bs = word_range 0 (cw_k w); c = cw_clientPid w
      in zip (map (\<lambda>b. st_matrices st (matrix_name c b)) bs)
           (zip (map (\<lambda>b. st_matrices st (result_name c b)) bs) (map (\<lambda>b. st_matrices st (golden_name c b)) bs)))"

text \<open>The timer around a request: started before \<open>Enqueue\<close>, stopped after \<open>Wait\<close>.\<close>

fun client_timer :: "requester \<Rightarrow> requester \<Rightarrow> int \<Rightarrow> ClientStats \<Rightarrow> ClientStats" where
  "client_timer (CL_Next rep b) (CL_Wait rep' b') now st = StartTimer now st"
| "client_timer (CL_Wait rep b) (CL_Next rep' b') now st = StopTimer now st"
| "client_timer _ _ now st = st"

section \<open>The steps\<close>

text \<open>
  \<open>socket c\<close> is the descriptor under which the server knows the connection of the client \<open>c\<close>. The messages
  the makers fill in and the two clock readings are uninitialised memory and the time: any value.
\<close>

inductive session_step ::
  "'k server_env \<Rightarrow> (u32 \<Rightarrow> sys_config) \<Rightarrow> (u32 \<Rightarrow> int) \<Rightarrow> 'k session \<Rightarrow> 'k session \<Rightarrow> bool"
  for E :: "'k server_env" and G :: "u32 \<Rightarrow> sys_config" and socket :: "u32 \<Rightarrow> int" where
  m_subscribe: "ss_point s c = M_Subscribe \<Longrightarrow>
     session_step E G socket s (s\<lparr>ss_point := (ss_point s)(c := M_Await),
       ss_wire := (ss_wire s)(c := ss_wire s c @ [client_subscribe msg (ss_work s c)])\<rparr>)"
| m_message: "msgs = sent_to (socket c) (ss_srv s) \<Longrightarrow> ss_read s c < length msgs \<Longrightarrow>
     session_step E G socket s (s\<lparr>ss_read := (ss_read s)(c := ss_read s c + 1),
       ss_work := (ss_work s)(c := ClientMessageHandler (msgs ! ss_read s c) (ss_work s c))\<rparr>)"
| m_answered: "ss_point s c = M_Await \<Longrightarrow> cw_subscribeResponseReceived (ss_work s c) \<Longrightarrow>
     session_step E G socket s (s\<lparr>ss_point := (ss_point s)(c := M_Requests)\<rparr>)"
| m_request: "ss_point s c = M_Requests \<Longrightarrow> sv = ss_service s \<Longrightarrow> client_step (G c) (view G sv c) v \<Longrightarrow>
     w = ss_work s c \<Longrightarrow>
     session_step E G socket s (s\<lparr>
       ss_work := (ss_work s)(c := w\<lparr>cw_stats := client_timer (sc_clients sv c) (sy_client v) now (cw_stats w)\<rparr>),
       ss_service := sv\<lparr>sc_clients := (sc_clients sv)(c := sy_client v),
         sc_store := (sc_store sv)\<lparr>st_queues := (st_queues (sc_store sv))(queue_name c := sy_queue v),
           st_words := (st_words (sc_store sv))(futex_name c := sy_word v)\<rparr>\<rparr>\<rparr>)"
| m_unsubscribe: "ss_point s c = M_Requests \<Longrightarrow> sc_clients (ss_service s) c = CL_Done \<Longrightarrow>
     session_step E G socket s (s\<lparr>ss_point := (ss_point s)(c := M_Log),
       ss_wire := (ss_wire s)(c := ss_wire s c @ [client_unsubscribe msg (ss_work s c)])\<rparr>)"
| m_log: "ss_point s c = M_Log \<Longrightarrow>
     session_step E G socket s (s\<lparr>ss_point := (ss_point s)(c := M_Check), ss_out := ss_out s @ [client_log (ss_work s c)]\<rparr>)"
| m_check: "ss_point s c = M_Check \<Longrightarrow> shift_one (cw_m (ss_work s c)) = Some rows \<Longrightarrow>
     shift_one (cw_n (ss_work s c)) = Some cols \<Longrightarrow>
     client_check rows cols (checked_buffers (ss_work s c) (sc_store (ss_service s))) = Some errorFound \<Longrightarrow>
     session_step E G socket s (s\<lparr>ss_point := (ss_point s)(c := M_Exit (client_status errorFound))\<rparr>)"
| m_bad_check: "ss_point s c = M_Check \<Longrightarrow>
     (case (shift_one (cw_m (ss_work s c)), shift_one (cw_n (ss_work s c))) of
        (Some rows, Some cols) \<Rightarrow> client_check rows cols (checked_buffers (ss_work s c) (sc_store (ss_service s)))
      | _ \<Rightarrow> None) = None \<Longrightarrow>
     session_step E G socket s (s\<lparr>ss_point := (ss_point s)(c := M_Fault)\<rparr>)"
| s_receive: "sr_handler (ss_srv s) = H_Idle \<Longrightarrow> ss_wire s c = msg # rest \<Longrightarrow> ws = sr_ws (ss_srv s) \<Longrightarrow>
     session_step E G socket s (s\<lparr>ss_wire := (ss_wire s)(c := rest), ss_out := ss_out s @ message_log ws msg,
       ss_service := (ss_service s)\<lparr>sc_srv := (ss_srv s)\<lparr>sr_handler := MessageHandler ws (socket c) msg\<rparr>\<rparr>\<rparr>)"
| s_handler: "sr_handler (ss_srv s) \<noteq> H_Idle \<Longrightarrow> handler_step E (ss_srv s) r \<Longrightarrow>
     session_step E G socket s (s\<lparr>ss_service := (ss_service s)\<lparr>sc_srv := r\<rparr>,
       ss_out := ss_out s @ outcome_log (sr_handler (ss_srv s)) (sr_handler r)\<rparr>)"
| s_dispatcher: "dispatcher_step (ss_srv s) r \<Longrightarrow> served (ss_service s) = None \<Longrightarrow>
     session_step E G socket s (s\<lparr>ss_service := (ss_service s)\<lparr>sc_srv := r\<rparr>\<rparr>)"
| s_serve: "sr_dispatcher (ss_srv s) = D_Serve i \<Longrightarrow> serve_step i (ss_bank s ! i) (ss_service s) t \<Longrightarrow>
     session_step E G socket s (s\<lparr>ss_service := t\<rparr>)"
| s_stop: "session_step E G socket s (s\<lparr>ss_service := (ss_service s)\<lparr>sc_srv :=
     (ss_srv s)\<lparr>sr_ws := (sr_ws (ss_srv s))\<lparr>ws_running := False\<rparr>\<rparr>\<rparr>\<rparr>)"

text \<open>The start: every client has set itself up, the server has started its threads.\<close>

definition session_start :: "workspace \<Rightarrow> 'k \<Rightarrow> store \<Rightarrow> (u32 \<Rightarrow> ClientWorkspace) \<Rightarrow> 'k session" where
  "session_start ws kern store work =
     \<lparr>ss_service = service_start ws kern store, ss_point = (\<lambda>_. M_Subscribe), ss_work = work, ss_wire = (\<lambda>_. []),
      ss_read = (\<lambda>_. 0), ss_out = []\<rparr>"

text \<open>The workspace that the set-up of a client makes, and the regions for its references.\<close>

definition workspace_of :: "sys_config \<Rightarrow> u32 \<Rightarrow> ClientWorkspace \<Rightarrow> bool" where
  "workspace_of g c w \<longleftrightarrow> cw_clientPid w = c \<and> cw_m w = sg_m g \<and> cw_n w = sg_n g \<and> cw_k w = sg_k g \<and>
     cw_requestRepetitions w = sg_repetitions g"

definition work_ready :: "(u32 \<Rightarrow> sys_config) \<Rightarrow> (u32 \<Rightarrow> ClientWorkspace) \<Rightarrow> bool" where
  "work_ready G work \<longleftrightarrow> (\<forall>c. workspace_of (G c) c (work c) \<and> \<not> cw_subscribeResponseReceived (work c) \<and>
     cw_stats (work c) = new_stats)"

definition references_ready :: "(u32 \<Rightarrow> sys_config) \<Rightarrow> store \<Rightarrow> bool" where
  "references_ready G store \<longleftrightarrow>
     (\<forall>c. results_ok (G c) (map (\<lambda>b. st_matrices store (golden_name c b)) (word_range 0 (sg_k (G c)))))"

text \<open>This is what \<open>main\<close> has made when it comes to the subscription.\<close>

lemma client_buffers_keeps:
  "client_buffers P bs w k = (ok, w', k') \<Longrightarrow> cw_requestRepetitions w' = cw_requestRepetitions w \<and>
     cw_subscribeResponseReceived w' = cw_subscribeResponseReceived w \<and> cw_stats w' = cw_stats w"
proof (induction P bs w k rule: client_buffers.induct)
  case (2 P bufferIndex bs w k)
  then show ?case by (auto simp: Let_def split: prod.splits sum.splits)
qed simp

lemma client_main_workspace:
  assumes "client_main S P fs lockFree reserve argv c net kern = (Inr (conn, w), net', kern')"
    "ProcessArguments argv = Inr (Some (m, n, k, repetitions))"
    "sg_m g = m" "sg_n g = n" "sg_k g = k" "sg_repetitions g = repetitions"
  shows "workspace_of g c w \<and> \<not> cw_subscribeResponseReceived w \<and> cw_stats w = new_stats"
proof -
  have made: "client_setup S P fs lockFree reserve (new_workspace c m n k repetitions) net kern = ((Some conn, w), net', kern')"
    using assms(1,2) by (auto simp: client_main_def split: prod.splits option.splits)
  then have "cw_requestRepetitions w = repetitions \<and> \<not> cw_subscribeResponseReceived w \<and> cw_stats w = new_stats"
    by (auto simp: client_setup_def new_workspace_def Let_def split: prod.splits sum.splits if_splits dest!: client_buffers_keeps)
  then show ?thesis using client_setup_objects(6-9) [OF made] assms(3-6) by (simp add: workspace_of_def)
qed

section \<open>The life of a slot\<close>

text \<open>What the handler is doing for a client, and whether the client has a slot.\<close>

datatype errand = No_Errand | Setting_Up | Adding | Removing

fun errand_for :: "handler_pc \<Rightarrow> ClientContext list \<Rightarrow> u32 \<Rightarrow> errand" where
  "errand_for (H_Add_Write sk d m n k i) bank c = (if d = c then Setting_Up else No_Errand)"
| "errand_for (H_Add_Wait sk d i) bank c = (if d = c then Adding else No_Errand)"
| "errand_for (H_Add_Set sk d i) bank c = (if d = c then Adding else No_Errand)"
| "errand_for (H_Add_Publish sk d i) bank c = (if d = c then Adding else No_Errand)"
| "errand_for (H_Add_Respond sk d) bank c = (if d = c then Adding else No_Errand)"
| "errand_for (H_Rem_Wait i) bank c = (if cx_id (bank ! i) = c then Removing else No_Errand)"
| "errand_for (H_Rem_Clear i) bank c = (if cx_id (bank ! i) = c then Removing else No_Errand)"
| "errand_for (H_Rem_Publish i) bank c = (if cx_id (bank ! i) = c then Removing else No_Errand)"
| "errand_for (H_Rem_Ack i) bank c = (if cx_id (bank ! i) = c then Removing else No_Errand)"
| "errand_for (H_Rem_Done i) bank c = (if cx_id (bank ! i) = c then Removing else No_Errand)"
| "errand_for _ bank c = No_Errand"

definition subscribed :: "ClientContext list \<Rightarrow> u32 \<Rightarrow> bool" where
  "subscribed bank c \<longleftrightarrow> (\<exists>i < MAX_CLIENTS. cx_subscribed (bank ! i) \<and> cx_id (bank ! i) = c)"

text \<open>The socket the handler answers to is that of the client it works for.\<close>

fun peer_ok :: "(u32 \<Rightarrow> int) \<Rightarrow> handler_pc \<Rightarrow> bool" where
  "peer_ok socket (H_Add_Write sk c m n k i) = (sk = socket c)"
| "peer_ok socket (H_Add_Wait sk c i) = (sk = socket c)"
| "peer_ok socket (H_Add_Set sk c i) = (sk = socket c)"
| "peer_ok socket (H_Add_Publish sk c i) = (sk = socket c)"
| "peer_ok socket (H_Add_Respond sk c) = (sk = socket c)"
| "peer_ok socket _ = True"

text \<open>
  The states a client can be in: its point, the kinds of the messages on its wire, the errand of the
  handler, whether it has a slot, and how many responses it has been sent. A client waiting with nothing
  under way and no slot has been turned away.
\<close>

fun stage_ok :: "main_pc \<Rightarrow> MessageType list \<Rightarrow> errand \<Rightarrow> bool \<Rightarrow> nat \<Rightarrow> bool" where
  "stage_ok M_Subscribe wire e sub sent = (wire = [] \<and> e = No_Errand \<and> \<not> sub \<and> sent = 0)"
| "stage_ok M_Await wire e sub sent =
     (wire = [MT_Subscribe] \<and> e = No_Errand \<and> \<not> sub \<and> sent = 0 \<or>
      wire = [] \<and> e = Setting_Up \<and> \<not> sub \<and> sent = 0 \<or>
      wire = [] \<and> e = Adding \<and> sub \<and> sent = 0 \<or>
      wire = [] \<and> e = No_Errand \<and> (if sub then sent = 1 else sent = 0))"
| "stage_ok M_Requests wire e sub sent = (wire = [] \<and> e = No_Errand \<and> sub \<and> sent = 1)"
| "stage_ok _ wire e sub sent = (sent = 1 \<and>
     (wire = [MT_Unsubscribe] \<and> e = No_Errand \<and> sub \<or>
      wire = [] \<and> e = Removing \<and> sub \<or>
      wire = [] \<and> e = No_Errand \<and> \<not> sub))"

fun requests_ok :: "main_pc \<Rightarrow> requester \<Rightarrow> bool" where
  "requests_ok M_Subscribe r = (r = CL_Next 0 0)"
| "requests_ok M_Await r = (r = CL_Next 0 0)"
| "requests_ok M_Requests r = True"
| "requests_ok _ r = (r = CL_Done)"

definition message_ok :: "sys_config \<Rightarrow> u32 \<Rightarrow> ClientServerMessage \<Rightarrow> bool" where
  "message_ok g c msg \<longleftrightarrow> senderId msg = c \<and>
     (msg_type msg = MT_Subscribe \<and> param1 msg = sg_m g \<and> param2 msg = sg_n g \<and> param3 msg = sg_k g \<or>
      msg_type msg = MT_Unsubscribe)"

definition stage_now :: "(u32 \<Rightarrow> int) \<Rightarrow> 'k srv \<Rightarrow> main_pc \<Rightarrow> ClientServerMessage list \<Rightarrow> u32 \<Rightarrow> bool" where
  "stage_now socket r p wire c \<longleftrightarrow>
     stage_ok p (map msg_type wire) (errand_for (sr_handler r) (ws_clientBank (sr_ws r)) c)
       (subscribed (ws_clientBank (sr_ws r)) c) (length (sent_to (socket c) r))"

definition session_inv :: "(u32 \<Rightarrow> sys_config) \<Rightarrow> (u32 \<Rightarrow> int) \<Rightarrow> 'k session \<Rightarrow> bool" where
  "session_inv G socket s \<longleftrightarrow> service_inv G (ss_service s) \<and> peer_ok socket (sr_handler (ss_srv s)) \<and>
     (\<forall>c. workspace_of (G c) c (ss_work s c) \<and> list_all (message_ok (G c) c) (ss_wire s c) \<and>
        stage_now socket (ss_srv s) (ss_point s c) (ss_wire s c) c \<and>
        requests_ok (ss_point s c) (sc_clients (ss_service s) c) \<and>
        (cw_subscribeResponseReceived (ss_work s c) \<longrightarrow> sent_to (socket c) (ss_srv s) \<noteq> []))"

lemma session_invD:
  assumes "session_inv G socket s"
  shows "service_inv G (ss_service s)" "peer_ok socket (sr_handler (ss_srv s))" "workspace_of (G c) c (ss_work s c)"
    "list_all (message_ok (G c) c) (ss_wire s c)"
    "stage_now socket (ss_srv s) (ss_point s c) (ss_wire s c) c"
    "requests_ok (ss_point s c) (sc_clients (ss_service s) c)"
    "cw_subscribeResponseReceived (ss_work s c) \<Longrightarrow> sent_to (socket c) (ss_srv s) \<noteq> []"
  using assms by (auto simp: session_inv_def)

text \<open>The part of the server a client's stage depends on.\<close>

definition same_stage :: "'k srv \<Rightarrow> 'k srv \<Rightarrow> bool" where
  "same_stage r r' \<longleftrightarrow> sr_handler r' = sr_handler r \<and> sr_sent r' = sr_sent r \<and>
     (\<forall>i. cx_id (ws_clientBank (sr_ws r') ! i) = cx_id (ws_clientBank (sr_ws r) ! i) \<and>
          cx_subscribed (ws_clientBank (sr_ws r') ! i) = cx_subscribed (ws_clientBank (sr_ws r) ! i))"

lemma errand_for_same:
  "(\<And>i. cx_id (bank' ! i) = cx_id (bank ! i)) \<Longrightarrow> errand_for h bank' c = errand_for h bank c"
  by (cases h) simp_all

lemma same_stageD:
  assumes "same_stage r r'"
  shows "sr_handler r' = sr_handler r" "sent_to sk r' = sent_to sk r" "stage_now socket r' p wire c = stage_now socket r p wire c"
proof -
  show same: "sr_handler r' = sr_handler r" "sent_to sk r' = sent_to sk r" for sk
    using assms by (simp_all add: same_stage_def sent_to_def)
  have "subscribed (ws_clientBank (sr_ws r')) c = subscribed (ws_clientBank (sr_ws r)) c"
    using assms by (simp add: same_stage_def subscribed_def)
  moreover have "errand_for h (ws_clientBank (sr_ws r')) c = errand_for h (ws_clientBank (sr_ws r)) c" for h
    by (rule errand_for_same) (use assms in \<open>simp add: same_stage_def\<close>)
  ultimately show "stage_now socket r' p wire c = stage_now socket r p wire c" by (simp add: stage_now_def same)
qed

lemma dispatcher_same_stage:
  assumes "dispatcher_step s t" "\<forall>i. sr_dispatcher s \<noteq> D_Serve i"
  shows "same_stage s t"
proof -
  have "sr_sent t = sr_sent s" using assms(1) by (cases; simp)
  then show ?thesis using dispatcher_keeps [OF assms] by (simp add: same_stage_def)
qed

lemma serve_same_stage:
  assumes "serve_step i ctx s t"
  shows "same_stage (sc_srv s) (sc_srv t)" "sc_clients t = sc_clients s"
proof -
  have "sr_sent (sc_srv t) = sr_sent (sc_srv s)"
    using assms by (induction rule: serve_step.induct) (simp_all add: set_stats_def)
  then show "same_stage (sc_srv s) (sc_srv t)" using serve_keeps [OF assms] by (simp add: same_stage_def)
  show "sc_clients t = sc_clients s" using assms by (induction rule: serve_step.induct) simp_all
qed

lemma session_inv_server:
  assumes "session_inv G socket s" "service_inv G v" "same_stage (ss_srv s) (sc_srv v)" "sc_clients v = sc_clients (ss_service s)"
  shows "session_inv G socket (s\<lparr>ss_service := v\<rparr>)"
  using assms(1,2,4) same_stageD [OF assms(3)] by (simp add: session_inv_def)

text \<open>What the update of a slot means for the subscriptions.\<close>

lemma subscribed_fill:
  assumes "bank_ok bank" "i < MAX_CLIENTS" "\<not> cx_subscribed (bank ! i)"
  shows "subscribed (bank[i := ctx]) c \<longleftrightarrow> cx_subscribed ctx \<and> cx_id ctx = c \<or> subscribed bank c"
proof -
  have "length bank = MAX_CLIENTS" using assms(1) by (simp add: bank_ok_def)
  then show ?thesis
    using assms(2,3) unfolding subscribed_def by (auto simp: nth_list_update split: if_splits)
qed

lemma bank_unique:
  assumes "srv_inv r" "j < MAX_CLIENTS" "cx_subscribed (ws_clientBank (sr_ws r) ! j)"
    "i < MAX_CLIENTS" "cx_subscribed (ws_clientBank (sr_ws r) ! i)"
    "cx_id (ws_clientBank (sr_ws r) ! j) = cx_id (ws_clientBank (sr_ws r) ! i)"
  shows "j = i"
  using srv_invD(1) [OF assms(1)] assms(2-) unfolding bank_ok_def by (metis linorder_neqE_nat)

lemma subscribed_leave:
  assumes "bank_ok bank" "i < MAX_CLIENTS" "cx_subscribed (bank ! i)"
  shows "subscribed (bank[i := (bank ! i)\<lparr>cx_subscribed := False\<rparr>]) c \<longleftrightarrow> subscribed bank c \<and> c \<noteq> cx_id (bank ! i)"
proof -
  have len: "length bank = MAX_CLIENTS" using assms(1) by (simp add: bank_ok_def)
  have "j = i" if "j < MAX_CLIENTS" "cx_subscribed (bank ! j)" "cx_id (bank ! j) = cx_id (bank ! i)" for j
    using assms that unfolding bank_ok_def by (metis linorder_neqE_nat)
  with len assms(2,3) show ?thesis
    unfolding subscribed_def by (auto simp: nth_list_update split: if_splits) metis
qed

lemma sent_to_respond:
  assumes "inj socket"
  shows "sent_to (socket c) (r\<lparr>sr_handler := h, sr_sent := sr_sent r @ [(socket d, msg)]\<rparr>) =
    sent_to (socket c) r @ (if c = d then [msg] else [])"
  using assms by (simp add: sent_to_def inj_eq eq_commute [of "socket d"])

text \<open>How a step of the handler moves the stage of a client.\<close>

definition errand_move :: "errand \<Rightarrow> bool \<Rightarrow> nat \<Rightarrow> errand \<Rightarrow> bool \<Rightarrow> nat \<Rightarrow> bool" where
  "errand_move e sub n e' sub' n' \<longleftrightarrow>
     e' = e \<and> sub' = sub \<and> n' = n \<or>
     e = Setting_Up \<and> e' = Adding \<and> sub' \<and> n' = n \<or>
     e = Setting_Up \<and> e' = No_Errand \<and> sub' = sub \<and> n' = n \<or>
     e = Adding \<and> e' = No_Errand \<and> sub' = sub \<and> n' = n + 1 \<or>
     e = Removing \<and> e' = No_Errand \<and> \<not> sub' \<and> n' = n"

lemma stage_move: "stage_ok p wire e sub n \<Longrightarrow> errand_move e sub n e' sub' n' \<Longrightarrow> stage_ok p wire e' sub' n'"
  by (cases p) (auto simp: errand_move_def split: if_splits)

lemma handler_moves:
  assumes "srv_inv r" "peer_ok socket (sr_handler r)" "inj socket" "sr_handler r \<noteq> H_Idle" "handler_step E r r'"
  shows "peer_ok socket (sr_handler r') \<and>
    errand_move (errand_for (sr_handler r) (ws_clientBank (sr_ws r)) c) (subscribed (ws_clientBank (sr_ws r)) c)
      (length (sent_to (socket c) r))
      (errand_for (sr_handler r') (ws_clientBank (sr_ws r')) c) (subscribed (ws_clientBank (sr_ws r')) c)
      (length (sent_to (socket c) r'))"
  using assms(5)
proof cases
  note inv = srv_invD [OF assms(1)]
  let ?bank = "ws_clientBank (sr_ws r)"
  {
    case (h_written sk d m n k i ctx kern)
    have slot: "i < MAX_CLIENTS" "\<not> cx_subscribed (?bank ! i)" using inv(4) h_written(2) by (auto simp: subscribed_slots_def)
    have ctx: "cx_id ctx = d" "cx_subscribed ctx" using setup_context_result [OF h_written(3)] by simp_all
    show ?thesis
      unfolding h_written(1) using h_written(2) assms(2) ctx subscribed_fill [OF inv(1) slot, of ctx c]
      by (auto simp: errand_move_def sent_to_def)
  next
    case (h_failed sk d m n k i ctx kern)
    have slot: "i < MAX_CLIENTS" "\<not> cx_subscribed (?bank ! i)" using inv(4) h_failed(2) by (auto simp: subscribed_slots_def)
    have ctx: "\<not> cx_subscribed ctx" using setup_context_result [OF h_failed(3)] by simp
    show ?thesis
      unfolding h_failed(1) using h_failed(2) ctx subscribed_fill [OF inv(1) slot, of ctx c]
      by (simp add: errand_move_def sent_to_def)
  next
    case (h_respond sk d msg)
    then have "sk = socket d" using assms(2) by simp
    with h_respond show ?thesis
      using sent_to_respond [OF assms(3), where c = c and r = r and d = d] by (simp add: errand_move_def)
  next
    case (h_rem_done i)
    have slot: "i < MAX_CLIENTS" "cx_subscribed (?bank ! i)" using inv(4) h_rem_done(2) by (auto simp: subscribed_slots_def)
    show ?thesis
      unfolding h_rem_done(1) using h_rem_done(2) subscribed_leave [OF inv(1) slot, of c]
      by (auto simp: errand_move_def sent_to_def)
  }
qed (use assms(2,4) in \<open>simp_all add: errand_move_def sent_to_def\<close>)

text \<open>Taking a message from a client's wire starts the errand for it.\<close>

lemma receive_errand:
  assumes "message_ok g c msg" "ClientExists ws c = None \<longleftrightarrow> \<not> subscribed (ws_clientBank ws) c"
    "bank_ok (ws_clientBank ws)"
  shows "peer_ok socket (MessageHandler ws (socket c) msg)"
    "d \<noteq> c \<Longrightarrow> errand_for (MessageHandler ws (socket c) msg) (ws_clientBank ws) d = No_Errand"
    "msg_type msg = MT_Subscribe \<Longrightarrow> \<not> subscribed (ws_clientBank ws) c \<Longrightarrow>
       errand_for (MessageHandler ws (socket c) msg) (ws_clientBank ws) c \<in> {Setting_Up, No_Errand}"
    "msg_type msg = MT_Unsubscribe \<Longrightarrow> subscribed (ws_clientBank ws) c \<Longrightarrow>
       errand_for (MessageHandler ws (socket c) msg) (ws_clientBank ws) c = Removing"
    "honest G (MessageHandler ws (socket c) msg) \<or> g \<noteq> G c"
proof -
  have unsub: "cx_id (ws_clientBank ws ! indexToRemove ws c) = c" if "ClientExists ws c = Some j" for j
    using indexToRemove_ClientExists [OF assms(3) that] ClientExists_Some [OF that] by simp
  note kinds = assms(1) [unfolded message_ok_def]
  show "peer_ok socket (MessageHandler ws (socket c) msg)"
    "d \<noteq> c \<Longrightarrow> errand_for (MessageHandler ws (socket c) msg) (ws_clientBank ws) d = No_Errand"
    "msg_type msg = MT_Subscribe \<Longrightarrow> \<not> subscribed (ws_clientBank ws) c \<Longrightarrow>
       errand_for (MessageHandler ws (socket c) msg) (ws_clientBank ws) c \<in> {Setting_Up, No_Errand}"
    "msg_type msg = MT_Unsubscribe \<Longrightarrow> subscribed (ws_clientBank ws) c \<Longrightarrow>
       errand_for (MessageHandler ws (socket c) msg) (ws_clientBank ws) c = Removing"
    "honest G (MessageHandler ws (socket c) msg) \<or> g \<noteq> G c"
    using kinds assms(2) unsub
    by (auto simp: MessageHandler_def ProcessSubscribeMessage_def ProcessUnsubscribeMessage_def message_types honest_def
        split: option.splits)
qed

lemma ClientExists_subscribed:
  "ClientExists ws c = None \<longleftrightarrow> \<not> subscribed (ws_clientBank ws) c"
  by (auto simp: ClientExists_def find_None_iff subscribed_def)

lemma busy_handler_honest:
  assumes "handler_step E r r'" "sr_handler r \<noteq> H_Idle"
  shows "honest G (sr_handler r')"
  using busy_handler_adds [OF assms] by (simp add: honest_def)

section \<open>The service under the sessions\<close>

text \<open>Every step of the sessions is, for the service, a step or nothing.\<close>

lemma session_step_service:
  assumes "session_inv G socket s" "session_step E G socket s t"
  shows "ss_service t = ss_service s \<or> service_step E G (ss_service s) (ss_service t)"
  using assms(2)
proof cases
  note inv = session_invD [OF assms(1)]
  {
    case (m_request c sv v w now)
    then show ?thesis using sv_client [of G c "ss_service s" v E] by simp
  next
    case (s_receive c msg rest ws)
    have "message_ok (G c) c msg" using inv(4) [of c] s_receive(3) by simp
    from receive_errand(5) [OF this ClientExists_subscribed, where G = G and socket = socket and ws = ws]
    have "honest G (MessageHandler ws (socket c) msg)"
      using srv_invD(1) [OF service_invD(1) [OF inv(1)]] s_receive(4) by simp
    then show ?thesis
      using sv_handler [OF handler_receives [OF s_receive(2)], of G "socket c" msg E] s_receive(1,4) by simp
  next
    case (s_handler r)
    then show ?thesis using sv_handler [OF s_handler(3) busy_handler_honest] by simp
  next
    case (s_dispatcher r)
    then show ?thesis using service_step.sv_dispatcher [of "ss_service s" r] by simp
  next
    case (s_serve i t')
    then show ?thesis using sv_serve [of "ss_service s" i t' E G] by simp
  next
    case s_stop
    then show ?thesis using sv_stop [of E G "ss_service s"] by simp
  }
qed simp_all

lemma session_inv_client:
  assumes "session_inv G socket s" "service_inv G (ss_service t)" "same_stage (ss_srv s) (ss_srv t)"
    "\<And>d. d \<noteq> c \<Longrightarrow> ss_point t d = ss_point s d \<and> ss_wire t d = ss_wire s d \<and> ss_work t d = ss_work s d \<and>
       sc_clients (ss_service t) d = sc_clients (ss_service s) d"
    "workspace_of (G c) c (ss_work t c)" "list_all (message_ok (G c) c) (ss_wire t c)"
    "stage_now socket (ss_srv s) (ss_point t c) (ss_wire t c) c"
    "requests_ok (ss_point t c) (sc_clients (ss_service t) c)"
    "cw_subscribeResponseReceived (ss_work t c) \<longrightarrow> sent_to (socket c) (ss_srv s) \<noteq> []"
  shows "session_inv G socket t"
  unfolding session_inv_def
proof (intro conjI allI)
  show "service_inv G (ss_service t)" by (rule assms(2))
  show "peer_ok socket (sr_handler (ss_srv t))" using session_invD(2) [OF assms(1)] same_stageD(1) [OF assms(3)] by simp
  note same = same_stageD [OF assms(3)] and old = session_invD(3-) [OF assms(1)]
  fix d
  show "workspace_of (G d) d (ss_work t d)" "list_all (message_ok (G d) d) (ss_wire t d)"
    "stage_now socket (ss_srv t) (ss_point t d) (ss_wire t d) d"
    "requests_ok (ss_point t d) (sc_clients (ss_service t) d)"
    "cw_subscribeResponseReceived (ss_work t d) \<longrightarrow> sent_to (socket d) (ss_srv t) \<noteq> []"
    using old [of d] assms(4) [of d] assms(5-9) by (cases "d = c"; simp add: same)+
qed

lemma same_stage_refl [simp]: "same_stage r r"
  by (simp add: same_stage_def)

lemma stage_answered:
  "stage_now socket r M_Await wire c \<Longrightarrow> sent_to (socket c) r \<noteq> [] \<Longrightarrow> stage_now socket r M_Requests wire c"
  by (auto simp: stage_now_def split: if_splits)

lemma subscribe_message:
  assumes "workspace_of g c w"
  shows "message_ok g c (client_subscribe msg w)" "msg_type (client_subscribe msg w) = MT_Subscribe"
    "message_ok g c (client_unsubscribe msg w)" "msg_type (client_unsubscribe msg w) = MT_Unsubscribe"
  using assms
  by (simp_all add: workspace_of_def message_ok_def client_subscribe_def client_unsubscribe_def
      GenerateSubscribeMessage_def GenerateUnsubscribeMessage_def)

lemma receive_stage:
  assumes "session_inv G socket s" "sr_handler (ss_srv s) = H_Idle" "ss_wire s c = msg # rest"
  shows "stage_now socket ((ss_srv s)\<lparr>sr_handler := MessageHandler (sr_ws (ss_srv s)) (socket c) msg\<rparr>)
    (ss_point s d) (((ss_wire s)(c := rest)) d) d"
proof -
  let ?h = "MessageHandler (sr_ws (ss_srv s)) (socket c) msg"
  have ok: "message_ok (G c) c msg" using session_invD(4) [OF assms(1), of c] assms(3) by simp
  have "bank_ok (ss_bank s)" using srv_invD(1) [OF service_invD(1) [OF session_invD(1) [OF assms(1)]]] .
  note start = receive_errand [OF ok ClientExists_subscribed this, where socket = socket]
  have old: "stage_ok (ss_point s d) (map msg_type (ss_wire s d)) No_Errand (subscribed (ss_bank s) d) (length (sent_to (socket d) (ss_srv s)))" for d
    using session_invD(5) [OF assms(1), of d] assms(2) by (simp add: stage_now_def)
  show ?thesis
  proof (cases "d = c")
    case True
    have "stage_ok (ss_point s c) (map msg_type rest) (errand_for ?h (ss_bank s) c) (subscribed (ss_bank s) c)
        (length (sent_to (socket c) (ss_srv s)))"
      using old [of c] start(3,4) assms(3) by (cases "ss_point s c") auto
    then show ?thesis using True by (simp add: stage_now_def sent_to_def)
  next
    case False
    then show ?thesis using old [of d] start(2) by (simp add: stage_now_def sent_to_def)
  qed
qed

lemma session_step_inv [inv_steps]:
  assumes "inj socket" "session_inv G socket s" "session_step E G socket s t"
  shows "session_inv G socket t"
proof -
  note inv = session_invD [OF assms(2)]
  have service: "service_inv G (ss_service t)"
    using session_step_service [OF assms(2,3)] service_step_inv [OF inv(1)] inv(1) by auto
  from assms(3) show ?thesis
  proof cases
    case (m_subscribe c msg)
    have "stage_now socket (ss_srv s) M_Await (ss_wire s c @ [client_subscribe msg (ss_work s c)]) c"
      using inv(5) [of c] m_subscribe(2) subscribe_message(2) [OF inv(3)] by (simp add: stage_now_def)
    then show ?thesis
      by (intro session_inv_client [OF assms(2) service, of c])
        (use inv(3,4,6,7) [of c] m_subscribe subscribe_message(1) [OF inv(3), of c] in simp_all)
  next
    case (m_message msgs c)
    have "sent_to (socket c) (ss_srv s) \<noteq> []" using m_message(2,3) by auto
    then show ?thesis
      by (intro session_inv_client [OF assms(2) service, of c])
        (use inv(3-6) [of c] m_message(1) in \<open>simp_all add: workspace_of_def ClientMessageHandler_def\<close>)
  next
    case (m_answered c)
    then show ?thesis
      by (intro session_inv_client [OF assms(2) service, of c])
        (use inv(3-7) [of c] stage_answered [of socket "ss_srv s"] in simp_all)
  next
    case (m_request c sv v w now)
    then show ?thesis
      by (intro session_inv_client [OF assms(2) service, of c])
        (use inv(3-7) [of c] in \<open>simp_all add: workspace_of_def\<close>)
  next
    case (m_unsubscribe c msg)
    have "stage_now socket (ss_srv s) M_Log (ss_wire s c @ [client_unsubscribe msg (ss_work s c)]) c"
      using inv(5) [of c] m_unsubscribe(2) subscribe_message(4) [OF inv(3)] by (simp add: stage_now_def)
    then show ?thesis
      by (intro session_inv_client [OF assms(2) service, of c])
        (use inv(3,4,6,7) [of c] m_unsubscribe subscribe_message(3) [OF inv(3), of c] in simp_all)
  next
    case (m_log c)
    then show ?thesis
      by (intro session_inv_client [OF assms(2) service, of c])
        (use inv(3-7) [of c] in \<open>simp_all add: stage_now_def\<close>)
  next
    case (m_check c rows cols errorFound)
    then show ?thesis
      by (intro session_inv_client [OF assms(2) service, of c])
        (use inv(3-7) [of c] in \<open>simp_all add: stage_now_def\<close>)
  next
    case (m_bad_check c)
    then show ?thesis
      by (intro session_inv_client [OF assms(2) service, of c])
        (use inv(3-7) [of c] in \<open>simp_all add: stage_now_def\<close>)
  next
    case (s_receive c msg rest ws)
    note stage = receive_stage [OF assms(2) s_receive(2,3)]
    have "message_ok (G c) c msg" using inv(4) [of c] s_receive(3) by simp
    from receive_errand(1) [OF this ClientExists_subscribed, where socket = socket and ws = ws]
    have "peer_ok socket (MessageHandler ws (socket c) msg)"
      using srv_invD(1) [OF service_invD(1) [OF inv(1)]] s_receive(4) by simp
    moreover have "list_all (message_ok (G d) d) (((ss_wire s)(c := rest)) d)" for d
      using inv(4) [of d] s_receive(3) by (cases "d = c") simp_all
    ultimately show ?thesis
      using service stage inv(3,6,7) s_receive(1,4) by (simp add: session_inv_def sent_to_def)
  next
    case (s_handler r)
    note moves = handler_moves [OF service_invD(1) [OF inv(1)] inv(2) assms(1) s_handler(2,3)]
    have "stage_now socket r (ss_point s c) (ss_wire s c) c" for c
      using stage_move inv(5) [of c] moves [of c] unfolding stage_now_def by blast
    moreover have "sent_to (socket c) r \<noteq> []" if "sent_to (socket c) (ss_srv s) \<noteq> []" for c
      using moves [of c] that by (auto simp: errand_move_def)
    ultimately show ?thesis
      using service moves inv(3,4,6,7) s_handler(1) by (simp add: session_inv_def)
  next
    case (s_dispatcher r)
    have "\<forall>i. sr_dispatcher (ss_srv s) \<noteq> D_Serve i" using s_dispatcher(3) by (auto simp: served_def)
    from session_inv_server [OF assms(2) _ _, of "(ss_service s)\<lparr>sc_srv := r\<rparr>"] dispatcher_same_stage [OF s_dispatcher(2) this]
    show ?thesis using service s_dispatcher(1) by simp
  next
    case (s_serve i v)
    from session_inv_server [OF assms(2) _ serve_same_stage [OF s_serve(3)]] service s_serve(1)
    show ?thesis by simp
  next
    case s_stop
    from session_inv_server [OF assms(2), of "ss_service t"] service s_stop
    show ?thesis by (simp add: same_stage_def)
  qed
qed

interpretation session_sim: stuttering_simulation
  "session_step E G socket" "service_step E G" "\<lambda>s. inj socket \<and> session_inv G socket s" ss_service
  for E :: "'k server_env" and G :: "u32 \<Rightarrow> sys_config" and socket :: "u32 \<Rightarrow> int"
  by unfold_locales (blast intro: session_step_inv, blast dest: session_step_service)

lemma session_start_service [simp]: "ss_service (session_start ws kern store work) = service_start ws kern store"
  by (simp add: session_start_def)

lemma session_start_inv:
  assumes "server_main S hardware argv pid net = (Inr (Some (ipc, ws)), net')" "store_ready G store"
    "\<forall>c. sg_threads (G c) = ws_numWorkerThreads ws" "work_ready G work"
  shows "session_inv G socket (session_start ws kern store work)"
proof -
  have "ws_clientBank ws = replicate MAX_CLIENTS new_context" using server_main_workspace(1) [OF assms(1)] by simp
  then have "\<not> subscribed (ws_clientBank ws) c" for c by (auto simp: subscribed_def new_context_def)
  then show ?thesis
    using service_start_inv [OF assms(1-3), of kern] assms(4)
    by (simp add: session_inv_def session_start_def stage_now_def work_ready_def sent_to_def service_start_def srv_start_def)
qed

lemmas session_reach = session_sim.inv_reach [THEN conjunct2]

section \<open>The check at the end\<close>

text \<open>The service writes the buffers for the results only.\<close>

lemma serve_matrices:
  assumes "service_inv G s" "sr_dispatcher (sc_srv s) = D_Serve i" "serve_step i (sc_bank s ! i) s t"
    "\<And>c b. name \<noteq> result_name c b"
  shows "st_matrices (sc_store t) name = st_matrices (sc_store s) name"
  using assms(3)
proof cases
  case (v_transpose x b r sched tr' progs t0)
  have "mb_GetName r = result_name (cx_id (sc_bank s ! i)) x"
    using slot_buffers [OF serving_slot(4) [OF assms(1,2)]] v_transpose by blast
  then show ?thesis using v_transpose(1) assms(4) by simp
qed simp_all

lemma golden_not_result: "golden_name c b \<noteq> result_name d b'"
  using buffer_name_inj [of c b TR_GOLDEN_MATRIX_BUF_NAME_SUFFIX d b' TR_MATRIX_BUF_NAME_SUFFIX]
  by (auto simp: TR_GOLDEN_MATRIX_BUF_NAME_SUFFIX_def TR_MATRIX_BUF_NAME_SUFFIX_def)

lemma references_kept:
  assumes "session_inv G socket s" "session_step E G socket s t" "references_ready G (sc_store (ss_service s))"
  shows "references_ready G (sc_store (ss_service t))"
proof -
  have "st_matrices (sc_store (ss_service t)) (golden_name c b) = st_matrices (sc_store (ss_service s)) (golden_name c b)" for c b
    using assms(2)
  proof cases
    case (s_serve i v)
    from serve_matrices [OF session_invD(1) [OF assms(1)] s_serve(2,3) golden_not_result] show ?thesis
      using s_serve(1) by simp
  qed simp_all
  with assms(3) show ?thesis by (simp add: references_ready_def)
qed

text \<open>A session in good order: the service under it is, and the references have their regions.\<close>

definition session_ok :: "(u32 \<Rightarrow> sys_config) \<Rightarrow> (u32 \<Rightarrow> int) \<Rightarrow> 'k session \<Rightarrow> bool" where
  "session_ok G socket s \<longleftrightarrow> inj socket \<and> session_inv G socket s \<and> in_order G (ss_service s) \<and>
     references_ready G (sc_store (ss_service s))"

lemma session_okD:
  assumes "session_ok G socket s"
  shows "inj socket" "session_inv G socket s" "in_order G (ss_service s)" "references_ready G (sc_store (ss_service s))"
    "service_inv G (ss_service s)" "srv_inv (ss_srv s)" "config_ok (G c)" "sys_inv (G c) (view G (ss_service s) c)"
  using assms service_invD(1) by (auto simp: session_ok_def in_order_def)

lemma session_step_ok:
  assumes "session_ok G socket s" "session_step E G socket s t"
  shows "session_ok G socket t"
proof -
  note ok = session_okD(1-4) [OF assms(1)]
  have "(service_step E G)\<^sup>*\<^sup>* (ss_service s) (ss_service t)"
    using session_step_service [OF ok(2) assms(2)] by auto
  then have "in_order G (ss_service t)" using ok(3) by (rule in_order_reach)
  then show ?thesis
    using ok(1) session_step_inv [OF ok(1,2) assms(2)] references_kept [OF ok(2) assms(2) ok(4)] by (simp add: session_ok_def)
qed

lemma session_run_ok: "(session_step E G socket)\<^sup>*\<^sup>* s t \<Longrightarrow> session_ok G socket s \<Longrightarrow> session_ok G socket t"
  by (induction rule: rtranclp_induct) (auto intro: session_step_ok)

lemma session_start_ok:
  assumes "server_main S hardware argv pid net = (Inr (Some (ipc, ws)), net')" "store_ready G store"
    "\<forall>c. config_ok (G c) \<and> sg_threads (G c) = ws_numWorkerThreads ws" "work_ready G work"
    "references_ready G store" "inj socket"
  shows "session_ok G socket (session_start ws kern store work)"
proof -
  have "\<forall>c. sg_threads (G c) = ws_numWorkerThreads ws" using assms(3) by blast
  moreover have "sc_store (service_start ws kern store) = store" by (simp add: service_start_def)
  ultimately show ?thesis
    using session_start_inv [OF assms(1,2) _ assms(4)] service_in_order [OF assms(1-3) rtranclp.rtrancl_refl, of kern] assms(5,6)
    by (simp add: session_ok_def)
qed

text \<open>The check that a client makes is defined, and after its requests it finds nothing wrong.\<close>

lemma session_check:
  assumes "session_ok G socket s" "ss_point s c = M_Check"
  shows "\<exists>errorFound. shift_one (cw_m (ss_work s c)) = Some (sg_rows (G c)) \<and> shift_one (cw_n (ss_work s c)) = Some (sg_cols (G c)) \<and>
    client_check (sg_rows (G c)) (sg_cols (G c)) (checked_buffers (ss_work s c) (sc_store (ss_service s))) = Some errorFound \<and>
    (sg_repetitions (G c) \<noteq> 0 \<longrightarrow> client_status errorFound = 0)"
proof -
  note ok = session_okD [OF assms(1)]
  note inv = session_invD(3,6) [OF ok(2), of c]
  let ?st = "sc_store (ss_service s)" and ?v = "view G (ss_service s) c"
  let ?refs = "map (\<lambda>b. st_matrices ?st (golden_name c b)) (word_range 0 (sg_k (G c)))"
  have m: "unat (sg_m (G c)) < 31" "unat (sg_n (G c)) < 31" using ok(7) [of c] by (auto simp: config_ok_def)
  have shifts: "shift_one (cw_m (ss_work s c)) = Some (sg_rows (G c))" "shift_one (cw_n (ss_work s c)) = Some (sg_cols (G c))"
    using m inv(1) by (simp_all add: workspace_of_def shift_one_value word_less_nat_alt)
  have "map (\<lambda>b. st_matrices ?st (matrix_name c b)) (word_range 0 (sg_k (G c))) = sg_src (G c)"
    by (rule service_invD(8) [OF ok(5)])
  then have bufs: "checked_buffers (ss_work s c) ?st = zip (sg_src (G c)) (zip (sy_dst ?v) ?refs)"
    using inv(1) by (simp add: checked_buffers_def workspace_of_def view_simps Let_def)
  have "sy_client ?v = CL_Done" using inv(2) assms(2) by (simp add: view_simps)
  moreover have "results_ok (G c) ?refs" using ok(4) by (simp add: references_ready_def)
  ultimately show ?thesis
    using check_value [OF ok(7,8)] shifts bufs by auto
qed

fun exit_ok :: "sys_config \<Rightarrow> main_pc \<Rightarrow> bool" where
  "exit_ok g M_Fault = False"
| "exit_ok g (M_Exit n) = (sg_repetitions g \<noteq> 0 \<longrightarrow> n = 0)"
| "exit_ok g _ = True"

lemma exit_step:
  assumes "session_ok G socket s" "session_step E G socket s t" "\<forall>c. exit_ok (G c) (ss_point s c)"
  shows "\<forall>c. exit_ok (G c) (ss_point t c)"
  using assms(2)
proof cases
  case (m_check c rows cols errorFound)
  then show ?thesis using session_check [OF assms(1) m_check(2)] assms(3) by auto
next
  case (m_bad_check c)
  then show ?thesis using session_check [OF assms(1) m_bad_check(2)] by auto
qed (use assms(3) in auto)

lemma exit_run:
  assumes "(session_step E G socket)\<^sup>*\<^sup>* s t" "session_ok G socket s" "\<forall>c. exit_ok (G c) (ss_point s c)"
  shows "\<forall>c. exit_ok (G c) (ss_point t c)"
  using assms(1)
proof (induction rule: rtranclp_induct)
  case (step t u)
  show ?case by (rule exit_step [OF session_run_ok [OF step.hyps(1) assms(2)] step.hyps(2) step.IH])
qed (rule assms(3))

text \<open>In good order the dispatcher is not at a fault.\<close>

lemma no_fault: "session_ok G socket s \<Longrightarrow> sc_worker (ss_service s) \<noteq> SV_Fault"
  using service_invD(4) [OF session_okD(5)] session_okD(8) [of G socket s]
proof (cases "served (ss_service s)")
  case (Some c)
  assume "session_ok G socket s"
  from session_okD(8) [OF this, of c] show ?thesis
    using Some by (cases "sc_clients (ss_service s) c") (auto simp: sys_inv_def view_simps)
qed fastforce

section \<open>Runs\<close>

text \<open>A run of the handler alone, and a run of the dispatcher and one requesting client, as sessions.\<close>

lemma handler_run:
  assumes "(\<lambda>r r'. handler_step E r r' \<and> sr_handler r \<noteq> H_Idle)\<^sup>*\<^sup>* (ss_srv s) r"
  shows "\<exists>t. (session_step E G socket)\<^sup>*\<^sup>* s t \<and> ss_service t = (ss_service s)\<lparr>sc_srv := r\<rparr> \<and> ss_point t = ss_point s \<and>
    ss_work t = ss_work s \<and> ss_wire t = ss_wire s \<and> ss_read t = ss_read s"
  using assms
proof (induction rule: rtranclp_induct)
  case base
  show ?case by (intro exI [of _ s]) simp
next
  case (step r r')
  then obtain t where t: "(session_step E G socket)\<^sup>*\<^sup>* s t" "ss_service t = (ss_service s)\<lparr>sc_srv := r\<rparr>" "ss_point t = ss_point s"
    "ss_work t = ss_work s" "ss_wire t = ss_wire s" "ss_read t = ss_read s" by blast
  let ?u = "t\<lparr>ss_service := (ss_service t)\<lparr>sc_srv := r'\<rparr>,
      ss_out := ss_out t @ outcome_log (sr_handler (ss_srv t)) (sr_handler r')\<rparr>"
  have "session_step E G socket t ?u"
    by (rule s_handler) (use step.hyps(2) t(2) in simp_all)
  with t(1) have "(session_step E G socket)\<^sup>*\<^sup>* s ?u" by (rule rtranclp.rtrancl_into_rtrancl)
  then show ?case by (intro exI [of _ ?u]) (simp add: t(2-))
qed

lemma calm_session:
  assumes "calm_step c G (ss_service s) v" "ss_point s c = M_Requests"
  shows "\<exists>t. session_step E G socket s t \<and> ss_service t = v \<and> ss_point t = ss_point s"
  using assms(1)
proof cases
  case (calm_dispatcher r)
  show ?thesis
    by (intro exI conjI, rule s_dispatcher [OF calm_dispatcher(2,3)]) (simp_all add: calm_dispatcher(1))
next
  case (calm_serve i)
  show ?thesis by (intro exI conjI, rule s_serve [OF calm_serve]) simp_all
next
  case (calm_client v')
  show ?thesis
    by (intro exI conjI, rule m_request [OF assms(2) refl calm_client(2) refl]) (simp_all add: calm_client(1))
qed

lemma calm_step_handler: "calm_step who G s t \<Longrightarrow> sr_handler (sc_srv t) = sr_handler (sc_srv s)"
proof (induction rule: calm_step.induct)
  case (calm_dispatcher s r)
  then have "\<forall>i. sr_dispatcher (sc_srv s) \<noteq> D_Serve i" by (auto simp: served_def)
  then show ?case using dispatcher_keeps [OF calm_dispatcher(1)] by simp
qed (simp_all add: serve_keeps)

lemma calm_run_handler: "(calm_step who G)\<^sup>*\<^sup>* s t \<Longrightarrow> sr_handler (sc_srv t) = sr_handler (sc_srv s)"
  by (induction rule: rtranclp_induct) (simp_all add: calm_step_handler)

lemma calm_run_session:
  assumes "(calm_step c G)\<^sup>*\<^sup>* (ss_service s) v" "ss_point s c = M_Requests"
  shows "\<exists>t. (session_step E G socket)\<^sup>*\<^sup>* s t \<and> ss_service t = v \<and> ss_point t = ss_point s"
  using assms(1)
proof (induction rule: rtranclp_induct)
  case base
  show ?case by (intro exI [of _ s]) simp
next
  case (step v v')
  then obtain t where t: "(session_step E G socket)\<^sup>*\<^sup>* s t" "ss_service t = v" "ss_point t = ss_point s" by blast
  from calm_session [of c G t v' E socket] step.hyps(2) t(2,3) assms(2)
  obtain u where "session_step E G socket t u" "ss_service u = v'" "ss_point u = ss_point s" by auto
  moreover from this(1) t(1) have "(session_step E G socket)\<^sup>*\<^sup>* s u" by (meson rtranclp.rtrancl_into_rtrancl)
  ultimately show ?case by blast
qed

text \<open>After its last request a client can only go on to its exit.\<close>

lemma check_exits:
  assumes "session_ok G socket s" "ss_point s c = M_Check"
  shows "\<exists>t n. (session_step E G socket)\<^sup>*\<^sup>* s t \<and> ss_service t = ss_service s \<and> ss_point t c = M_Exit n"
proof -
  obtain err where err: "shift_one (cw_m (ss_work s c)) = Some (sg_rows (G c))"
      "shift_one (cw_n (ss_work s c)) = Some (sg_cols (G c))"
      "client_check (sg_rows (G c)) (sg_cols (G c)) (checked_buffers (ss_work s c) (sc_store (ss_service s))) = Some err"
    using session_check [OF assms] by blast
  let ?t = "s\<lparr>ss_point := (ss_point s)(c := M_Exit (client_status err))\<rparr>"
  have "session_step E G socket s ?t" by (rule m_check [OF assms(2) err])
  then show ?thesis by (intro exI [of _ ?t] exI [of _ "client_status err"]) (simp add: r_into_rtranclp)
qed

lemma log_exits:
  assumes "session_ok G socket s" "ss_point s c = M_Log"
  shows "\<exists>t n. (session_step E G socket)\<^sup>*\<^sup>* s t \<and> ss_service t = ss_service s \<and> ss_point t c = M_Exit n"
proof -
  let ?t = "s\<lparr>ss_point := (ss_point s)(c := M_Check), ss_out := ss_out s @ [client_log (ss_work s c)]\<rparr>"
  have step: "session_step E G socket s ?t" by (rule m_log [OF assms(2)])
  from check_exits [OF session_step_ok [OF assms(1) step], of c E] obtain u n
    where "(session_step E G socket)\<^sup>*\<^sup>* ?t u" "ss_service u = ss_service s" "ss_point u c = M_Exit n" by auto
  with step show ?thesis by (meson converse_rtranclp_into_rtranclp)
qed

lemma requests_exit:
  assumes "session_ok G socket s" "ss_point s c = M_Requests" "sc_clients (ss_service s) c = CL_Done"
  shows "\<exists>t n. (session_step E G socket)\<^sup>*\<^sup>* s t \<and> ss_service t = ss_service s \<and> ss_point t c = M_Exit n"
proof -
  obtain t where step: "session_step E G socket s t" and t: "ss_service t = ss_service s" "ss_point t c = M_Log"
    using m_unsubscribe [OF assms(2,3)] by fastforce
  from log_exits [OF session_step_ok [OF assms(1) step] t(2), of E] obtain u n
    where "(session_step E G socket)\<^sup>*\<^sup>* t u" "ss_service u = ss_service t" "ss_point u c = M_Exit n" by auto
  with step t(1) show ?thesis by (metis converse_rtranclp_into_rtranclp)
qed

section \<open>A client that is turned away\<close>

definition turned_away :: "(u32 \<Rightarrow> int) \<Rightarrow> 'k session \<Rightarrow> u32 \<Rightarrow> bool" where
  "turned_away socket s c \<longleftrightarrow> ss_point s c = M_Await \<and> ss_wire s c = [] \<and> \<not> subscribed (ss_bank s) c \<and>
     errand_for (sr_handler (ss_srv s)) (ss_bank s) c = No_Errand \<and> sent_to (socket c) (ss_srv s) = []"

lemma turned_away_same:
  assumes "same_stage (ss_srv s) (ss_srv t)"
    "ss_point t c = ss_point s c" "ss_wire t c = ss_wire s c" "turned_away socket s c"
  shows "turned_away socket t c"
proof -
  have "stage_now socket (ss_srv s) M_Await [] c" "sent_to (socket c) (ss_srv s) = []" "\<not> subscribed (ss_bank s) c"
    using assms(4) by (simp_all add: turned_away_def stage_now_def)
  moreover have "subscribed (ss_bank t) c = subscribed (ss_bank s) c"
    using assms(1) by (simp add: same_stage_def subscribed_def)
  moreover have "errand_for (sr_handler (ss_srv s)) (ss_bank t) c = errand_for (sr_handler (ss_srv s)) (ss_bank s) c"
    by (rule errand_for_same) (use assms(1) in \<open>simp add: same_stage_def\<close>)
  ultimately show ?thesis
    using assms(2-4) same_stageD(1,2) [OF assms(1)] by (simp add: turned_away_def)
qed

lemma turned_away_step:
  assumes "inj socket" "session_inv G socket s" "session_step E G socket s t" "turned_away socket s c"
  shows "turned_away socket t c"
  using assms(3)
proof cases
  note inv = session_invD [OF assms(2)] and away = assms(4) [unfolded turned_away_def]
  {
    case (m_answered d)
    then have "d \<noteq> c" using inv(7) [of c] away by auto
    then show ?thesis using m_answered(1) assms(4) by (intro turned_away_same [of s t]) simp_all
  next
    case (s_receive d msg rest ws)
    then have "d \<noteq> c" using away by auto
    have "message_ok (G d) d msg" using inv(4) [of d] s_receive(3) by simp
    from receive_errand(2) [OF this ClientExists_subscribed, where socket = socket and ws = ws and d = c]
    have "errand_for (MessageHandler ws (socket d) msg) (ss_bank s) c = No_Errand"
      using srv_invD(1) [OF service_invD(1) [OF inv(1)]] s_receive(4) \<open>d \<noteq> c\<close> by simp
    then show ?thesis using s_receive(1,4) away \<open>d \<noteq> c\<close> by (simp add: turned_away_def sent_to_def)
  next
    case (s_handler r)
    then show ?thesis
      using handler_moves [OF service_invD(1) [OF inv(1)] inv(2) assms(1) s_handler(2,3), of c] away
      by (auto simp: turned_away_def errand_move_def)
  next
    case (s_dispatcher r)
    have "\<forall>i. sr_dispatcher (ss_srv s) \<noteq> D_Serve i" using s_dispatcher(3) by (auto simp: served_def)
    from dispatcher_same_stage [OF s_dispatcher(2) this] show ?thesis
      using s_dispatcher(1) assms(4) by (intro turned_away_same [of s t]) simp_all
  next
    case (s_serve i v)
    from serve_same_stage(1) [OF s_serve(3)] show ?thesis
      using s_serve(1) assms(4) by (intro turned_away_same [of s t]) simp_all
  next
    case s_stop
    then show ?thesis using assms(4) by (intro turned_away_same [of s t]) (simp_all add: same_stage_def)
  }
qed (use assms(4) in \<open>auto simp: turned_away_def\<close>)

text \<open>For the witnesses: a client with one matrix of 64 by 64, up to its first request.\<close>

definition demo_socket :: "u32 \<Rightarrow> int" where
  "demo_socket c = uint c - 2"

definition demo_work :: "u32 \<Rightarrow> ClientWorkspace" where
  "demo_work c = new_workspace c 6 6 1 1"

abbreviation demo_session :: "string list session" where
  "demo_session \<equiv> session_start demo_workspace [] demo_store demo_work"

lemma demo_session_ok:
  "inj demo_socket" "work_ready demo_clients demo_work" "references_ready demo_clients demo_store"
proof -
  show "inj demo_socket" by (rule injI) (simp add: demo_socket_def word_uint_eq_iff)
  show "work_ready demo_clients demo_work"
    by (simp add: work_ready_def demo_work_def new_workspace_def workspace_of_def demo_clients_def demo_config_def)
  show "references_ready demo_clients demo_store"
    by (simp add: references_ready_def demo_clients_def demo_config_def demo_store_def results_ok_def demo_range)
qed

text \<open>The message of the client 7 has been taken.\<close>

lemma demo_taken:
  "\<exists>t. (session_step E demo_clients demo_socket)\<^sup>*\<^sup>* demo_session t \<and> ss_point t = (ss_point demo_session)(7 := M_Await) \<and>
     ss_wire t 7 = [] \<and> ss_work t = demo_work \<and> ss_read t = (\<lambda>_. 0) \<and>
     ss_service t = (service_start demo_workspace [] demo_store)\<lparr>sc_srv := (srv_start demo_workspace [])\<lparr>sr_handler := H_Add_Write 5 7 6 6 1 0\<rparr>\<rparr>"
proof -
  let ?msg = "client_subscribe \<lparr>msg_type = 0, senderId = 0, param1 = 0, param2 = 0, param3 = 0\<rparr> (demo_work 7)"
  let ?s1 = "demo_session\<lparr>ss_point := (ss_point demo_session)(7 := M_Await), ss_wire := (ss_wire demo_session)(7 := ss_wire demo_session 7 @ [?msg])\<rparr>"
  have a: "session_step E demo_clients demo_socket demo_session ?s1"
    using m_subscribe [of demo_session 7 E demo_clients demo_socket "\<lparr>msg_type = 0, senderId = 0, param1 = 0, param2 = 0, param3 = 0\<rparr>"]
    by (simp add: session_start_def)
  have msg: "ProcessSubscribeMessage ?msg = Some (7, 6, 6, 1)"
    by (simp add: client_subscribe_def demo_work_def new_workspace_def ProcessSubscribeMessage_def GenerateSubscribeMessage_def)
  have sock: "demo_socket 7 = 5" by (simp add: demo_socket_def)
  have idle: "sr_handler (ss_srv ?s1) = H_Idle" "ss_wire ?s1 7 = ?msg # []" "sr_ws (ss_srv ?s1) = demo_workspace"
    "ss_srv ?s1 = srv_start demo_workspace []"
    by (simp_all add: session_start_def service_start_def srv_start_def)
  have b: "session_step E demo_clients demo_socket ?s1 (?s1\<lparr>ss_wire := (ss_wire ?s1)(7 := []),
      ss_out := ss_out ?s1 @ message_log demo_workspace ?msg,
      ss_service := (ss_service ?s1)\<lparr>sc_srv := (ss_srv ?s1)\<lparr>sr_handler := H_Add_Write 5 7 6 6 1 0\<rparr>\<rparr>\<rparr>)"
    (is "session_step _ _ _ _ ?s2")
    using s_receive [OF idle(1,2) idle(3) [symmetric], of E demo_clients demo_socket] unfolding sock demo_received [OF msg] .
  have "(session_step E demo_clients demo_socket)\<^sup>*\<^sup>* demo_session ?s2"
    by (rule converse_rtranclp_into_rtranclp, rule a, rule r_into_rtranclp, rule b)
  then show ?thesis by (intro exI [of _ ?s2]) (simp add: session_start_def service_start_def)
qed

text \<open>The client 7 is in its loop, and the server at rest; or the server has not found the memory for it.\<close>

lemma demo_requesting:
  "\<exists>t. (session_step demo_env demo_clients demo_socket)\<^sup>*\<^sup>* demo_session t \<and> ss_point t 7 = M_Requests \<and>
     sr_handler (ss_srv t) = H_Idle \<and> sr_dispatcher (ss_srv t) = D_Top \<and> ws_running (sr_ws (ss_srv t)) \<and>
     cx_subscribed (ss_bank t ! 0) \<and> cx_id (ss_bank t ! 0) = 7 \<and> sc_clients (ss_service t) 7 = CL_Next 0 0"
proof -
  let ?E = "demo_env" and ?S = "session_step demo_env demo_clients demo_socket"
  obtain ctx kern where su: "setup_context demo_env 7 6 6 1 5 new_context [] = Some (True, ctx, kern)"
    using demo_server_setup by blast
  have ctx: "cx_id ctx = 7" "cx_subscribed ctx" using setup_context_result [OF su] by simp_all
  obtain a where a: "?S\<^sup>*\<^sup>* demo_session a" "ss_point a = (ss_point demo_session)(7 := M_Await)" "ss_read a = (\<lambda>_. 0)"
      "ss_service a = (service_start demo_workspace [] demo_store)\<lparr>sc_srv := (srv_start demo_workspace [])\<lparr>sr_handler := H_Add_Write 5 7 6 6 1 0\<rparr>\<rparr>"
    using demo_taken [of demo_env] by blast
  then have srv: "ss_srv a = (srv_start demo_workspace [])\<lparr>sr_handler := H_Add_Write 5 7 6 6 1 0\<rparr>" by simp
  obtain r where r: "(\<lambda>r r'. handler_step demo_env r r' \<and> sr_handler r \<noteq> H_Idle)\<^sup>*\<^sup>* (ss_srv a) r"
      "sr_handler r = H_Add_Respond 5 7" "sr_dispatcher r = D_Top" "sr_sent r = []"
      "sr_ws r = demo_workspace\<lparr>ws_clientBank := (replicate MAX_CLIENTS new_context)[0 := ctx], ws_updateAvailable := True,
        ws_validClientsBitSet := setBit 0 0 True\<rparr>"
    using demo_adds [OF su] unfolding srv by blast
  let ?resp = "subscribe_response (sr_ws r) \<lparr>msg_type = 0, senderId = 0, param1 = 0, param2 = 0, param3 = 0\<rparr> 7"
  let ?r = "r\<lparr>sr_handler := H_Idle, sr_sent := [(5, ?resp)]\<rparr>"
  have "handler_step demo_env r ?r"
    using h_respond [OF r(2), of demo_env "\<lparr>msg_type = 0, senderId = 0, param1 = 0, param2 = 0, param3 = 0\<rparr>"] r(4) by simp
  then have "(\<lambda>r r'. handler_step demo_env r r' \<and> sr_handler r \<noteq> H_Idle)\<^sup>*\<^sup>* (ss_srv a) ?r"
    using r(1,2) by (auto intro: rtranclp.rtrancl_into_rtrancl)
  from handler_run [OF this] obtain b where b: "?S\<^sup>*\<^sup>* a b" "ss_srv b = ?r" "ss_point b = ss_point a" "ss_read b = ss_read a"
      "sc_clients (ss_service b) = sc_clients (ss_service a)"
    by fastforce
  have sent: "sent_to (demo_socket 7) (ss_srv b) = [?resp]" by (simp add: b(2) sent_to_def demo_socket_def)
  let ?c = "b\<lparr>ss_read := (ss_read b)(7 := ss_read b 7 + 1), ss_work := (ss_work b)(7 := ClientMessageHandler ([?resp] ! ss_read b 7) (ss_work b 7))\<rparr>"
  have c: "?S b ?c" by (rule m_message) (simp_all add: sent b(4) a(3))
  have "?S ?c (?c\<lparr>ss_point := (ss_point ?c)(7 := M_Requests)\<rparr>)"
    by (rule m_answered) (simp_all add: a(2) b(3) ClientMessageHandler_def)
  with c have "?S\<^sup>*\<^sup>* b (?c\<lparr>ss_point := (ss_point ?c)(7 := M_Requests)\<rparr>)"
    by (meson converse_rtranclp_into_rtranclp r_into_rtranclp)
  with a(1) b(1) have "?S\<^sup>*\<^sup>* demo_session (?c\<lparr>ss_point := (ss_point ?c)(7 := M_Requests)\<rparr>)" by (meson rtranclp_trans)
  then show ?thesis
    by (intro exI conjI, assumption) (simp_all add: b(2,5) a(4) r ctx demo_workspace_def MAX_CLIENTS_def service_start_def)
qed

lemma demo_rejected:
  "\<exists>t. (session_step (demo_env\<lparr>se_reserve := (\<lambda>_. False)\<rparr>) demo_clients demo_socket)\<^sup>*\<^sup>* demo_session t \<and>
     ss_point t 7 = M_Await \<and> ss_wire t 7 = [] \<and> sr_handler (ss_srv t) = H_Idle \<and> \<not> subscribed (ss_bank t) 7"
proof -
  let ?E = "demo_env\<lparr>se_reserve := (\<lambda>_. False)\<rparr>"
  let ?S = "session_step ?E demo_clients demo_socket"
  obtain a where a: "?S\<^sup>*\<^sup>* demo_session a" "ss_point a = (ss_point demo_session)(7 := M_Await)" "ss_wire a 7 = []"
      "ss_service a = (service_start demo_workspace [] demo_store)\<lparr>sc_srv := (srv_start demo_workspace [])\<lparr>sr_handler := H_Add_Write 5 7 6 6 1 0\<rparr>\<rparr>"
    using demo_taken [of ?E] by blast
  have h: "sr_handler (ss_srv a) = H_Add_Write 5 7 6 6 1 0" "ws_clientBank (sr_ws (ss_srv a)) ! 0 = new_context"
    "ss_bank a = replicate MAX_CLIENTS new_context"
    by (simp_all add: a(4) srv_start_def demo_workspace_def MAX_CLIENTS_def)
  have "shift_one 6 = Some 64" by (simp add: shift_one_def push_bit_eq_mult)
  then obtain ctx kern where su: "setup_context ?E 7 6 6 1 5 (ws_clientBank (sr_ws (ss_srv a)) ! 0) (sr_kernel (ss_srv a)) = Some (False, ctx, kern)"
    by (simp add: setup_context_def Let_def)
  have ctx: "\<not> cx_subscribed ctx" using setup_context_result [OF su] by simp
  from s_handler [OF _ h_failed [OF h(1) su], of demo_clients demo_socket] h(1)
  have step: "?S a (a\<lparr>ss_service := (ss_service a)\<lparr>sc_srv := (ss_srv a)\<lparr>sr_handler := H_Idle, sr_kernel := kern,
       sr_ws := (sr_ws (ss_srv a))\<lparr>ws_clientBank := (ss_bank a)[0 := ctx]\<rparr>\<rparr>\<rparr>,
       ss_out := ss_out a @ outcome_log (sr_handler (ss_srv a)) H_Idle\<rparr>)" (is "session_step _ _ _ _ ?t") by simp
  with a(1) have "?S\<^sup>*\<^sup>* demo_session ?t" by (rule rtranclp.rtrancl_into_rtrancl)
  moreover have "\<not> subscribed ((replicate MAX_CLIENTS new_context)[0 := ctx]) 7"
    using ctx by (auto simp: subscribed_def nth_list_update new_context_def)
  ultimately show ?thesis by (intro exI [of _ ?t] conjI) (simp_all add: a(2,3) h(3))
qed

lemma demo_done:
  "\<exists>t. (session_step demo_env demo_clients demo_socket)\<^sup>*\<^sup>* demo_session t \<and> ss_point t 7 = M_Requests \<and>
     sr_handler (ss_srv t) = H_Idle \<and> sc_clients (ss_service t) 7 = CL_Done"
proof -
  obtain a where a: "(session_step demo_env demo_clients demo_socket)\<^sup>*\<^sup>* demo_session a" "ss_point a 7 = M_Requests"
      "sr_handler (ss_srv a) = H_Idle" "sr_dispatcher (ss_srv a) = D_Top" "ws_running (sr_ws (ss_srv a))"
      "cx_subscribed (ss_bank a ! 0)" "cx_id (ss_bank a ! 0) = 7"
    using demo_requesting by blast
  have ok: "session_ok demo_clients demo_socket a"
    by (rule session_run_ok [OF a(1) session_start_ok [OF demo_main demo_service_ok demo_session_ok(2,3,1)]])
  have "0 \<in> valid_slots (ss_srv a)"
    using srv_invD(4) [OF session_okD(6) [OF ok]] a(3,6) by (auto simp: subscribed_slots_def MAX_CLIENTS_def)
  then have "slot_ready demo_clients 0 (ss_service a)" using session_okD(3) [OF ok] a by (simp add: slot_ready_def)
  from service_runs_to_done [OF this _ a(7) [symmetric]] a(4)
  obtain v where v: "(calm_step 7 demo_clients)\<^sup>*\<^sup>* (ss_service a) v" "sc_clients v 7 = CL_Done" by auto
  obtain b where b: "(session_step demo_env demo_clients demo_socket)\<^sup>*\<^sup>* a b" "ss_service b = v" "ss_point b = ss_point a"
    using calm_run_session [OF v(1) a(2)] by blast
  have "sr_handler (sc_srv v) = H_Idle" using calm_run_handler [OF v(1)] a(3) by simp
  with a(1,2) b v(2) show ?thesis by (intro exI [of _ b]) (auto intro: rtranclp_trans)
qed

text \<open>The client can be at its exit before the handler has read its unsubscription.\<close>

lemma demo_exits_early:
  "\<exists>t. (session_step demo_env demo_clients demo_socket)\<^sup>*\<^sup>* demo_session t \<and> ss_point t 7 = M_Exit 0 \<and>
     sr_handler (ss_srv t) = H_Idle \<and> ss_wire t 7 \<noteq> []"
proof -
  note start = session_start_ok [OF demo_main demo_service_ok demo_session_ok(2,3,1)]
  obtain b where b: "(session_step demo_env demo_clients demo_socket)\<^sup>*\<^sup>* demo_session b" "ss_point b 7 = M_Requests"
      "sr_handler (ss_srv b) = H_Idle" "sc_clients (ss_service b) 7 = CL_Done"
    using demo_done by blast
  have ok: "session_ok demo_clients demo_socket b" by (rule session_run_ok [OF b(1) start])
  obtain t n where t: "(session_step demo_env demo_clients demo_socket)\<^sup>*\<^sup>* b t" "ss_service t = ss_service b" "ss_point t 7 = M_Exit n"
    using requests_exit [OF ok b(2,4), of demo_env] by blast
  have run: "(session_step demo_env demo_clients demo_socket)\<^sup>*\<^sup>* demo_session t" using b(1) t(1) by (rule rtranclp_trans)
  have "exit_ok (demo_clients 7) (ss_point t 7)" using exit_run [OF run start] by (simp add: session_start_def)
  then have "n = 0" using t(3) by (simp add: demo_clients_def demo_config_def)
  moreover have "subscribed (ss_bank t) 7" using session_invD(5) [OF session_okD(2) [OF ok], of 7] b(2) t(2) by (simp add: stage_now_def)
  then have "ss_wire t 7 \<noteq> []"
    using session_invD(5) [OF session_okD(2) [OF session_run_ok [OF run start]], of 7] b(3) t(2,3) by (auto simp: stage_now_def)
  ultimately show ?thesis using run t(2,3) b(3) by metis
qed

lemma demo_exits:
  "\<exists>t. (session_step demo_env demo_clients demo_socket)\<^sup>*\<^sup>* demo_session t \<and> ss_point t 7 = M_Exit 0"
  using demo_exits_early by blast

section \<open>Properties\<close>

text \<open>Property C1: the program is correct from the first message to the exit, for matrices that its tiles fit.
  For a server with at least one worker thread and any number of clients, each with \<open>2 ^ m\<close> by \<open>2 ^ n\<close> matrices
  where \<open>m\<close> and \<open>n\<close> are at least 6 and \<open>m + n\<close> less than 32 (\<open>config_ok\<close>; the client's default of 4 and 4
  is not among them, see \<open>default_client_never_served\<close>), that subscribe, run their requests, unsubscribe
  and check, under every interleaving with the server's handler, its dispatcher and its workers: the dispatcher never accesses memory out of bounds or through a null handle, the
  check of a client stays in bounds, and every client that has made requests exits with status 0.\<close>

theorem sessions_correct:
  assumes "server_main S hardware argv pid net = (Inr (Some (ipc, ws)), net')" "store_ready G store"
    "\<forall>c. config_ok (G c) \<and> sg_threads (G c) = ws_numWorkerThreads ws" "work_ready G work" "references_ready G store"
    "inj socket" "(session_step E G socket)\<^sup>*\<^sup>* (session_start ws kern store work) t"
  shows "sc_worker (ss_service t) \<noteq> SV_Fault \<and> ss_point t c \<noteq> M_Fault \<and>
    (ss_point t c = M_Exit status \<and> sg_repetitions (G c) \<noteq> 0 \<longrightarrow> status = 0)"
proof -
  have start: "session_ok G socket (session_start ws kern store work)" by (rule session_start_ok [OF assms(1-6)])
  have "exit_ok (G c) (ss_point t c)" using exit_run [OF assms(7) start] by (simp add: session_start_def)
  with no_fault [OF session_run_ok [OF assms(7) start]] show ?thesis by (cases "ss_point t c") auto
qed

theorem sessions_correct_witness:
  "\<exists>t. (session_step demo_env demo_clients demo_socket)\<^sup>*\<^sup>* demo_session t \<and> ss_point t 7 = M_Exit 0 \<and>
     sc_worker (ss_service t) \<noteq> SV_Fault"
  using demo_exits sessions_correct [OF demo_main demo_service_ok demo_session_ok(2,3,1)] by metis

text \<open>Property C5: the sessions refine the service, and the service the system of one client and one
  server. Forgetting the messages, every run of the clients' programs with the server is a run of the
  service; and seen through the objects of one client it is a run of the two-party system, whatever the
  other clients do.\<close>

theorem sessions_refine_service:
  assumes "server_main S hardware argv pid net = (Inr (Some (ipc, ws)), net')" "store_ready G store"
    "\<forall>c. sg_threads (G c) = ws_numWorkerThreads ws" "work_ready G work" "inj socket"
    "(session_step E G socket)\<^sup>*\<^sup>* (session_start ws kern store work) t"
  shows "(service_step E G)\<^sup>*\<^sup>* (service_start ws kern store) (ss_service t) \<and>
    (sys_step (G c))\<^sup>*\<^sup>* (sys_start (map (\<lambda>b. st_matrices store (result_name c b)) (word_range 0 (sg_k (G c)))))
      (view G (ss_service t) c)"
proof -
  have run: "(service_step E G)\<^sup>*\<^sup>* (service_start ws kern store) (ss_service t)"
    using session_sim.simulates_reach [OF assms(6)] session_start_inv [OF assms(1-4), of socket kern] assms(5) by simp
  moreover have "(sys_step (G c))\<^sup>*\<^sup>* (view G (service_start ws kern store) c) (view G (ss_service t) c)"
    by (rule service_sim.simulates_reach [OF run service_start_inv [OF assms(1-3)]])
  ultimately show ?thesis by (simp add: service_start_view [OF assms(2)])
qed

theorem sessions_refine_service_witness:
  "\<exists>t :: string list session. (service_step demo_env demo_clients)\<^sup>*\<^sup>* (service_start demo_workspace [] demo_store) (ss_service t) \<and>
     ss_point t 7 = M_Exit 0"
proof -
  have threads: "\<forall>c. sg_threads (demo_clients c) = ws_numWorkerThreads demo_workspace" using demo_service_ok(2) by blast
  obtain t where t: "(session_step demo_env demo_clients demo_socket)\<^sup>*\<^sup>* demo_session t" "ss_point t 7 = M_Exit 0"
    using demo_exits by blast
  show ?thesis
    by (intro exI [of _ t] conjI t(2))
      (rule sessions_refine_service [OF demo_main demo_service_ok(1) threads demo_session_ok(2,1) t(1), THEN conjunct1])
qed

text \<open>Property C4: the slots follow the life of the clients. In its loop of requests a client has exactly
  one slot, whose handles name the objects the client has made, and the handler is not at work on it.
  Outside the loop (before the response, and from the unsubscription on, also while the slot is being given
  up) its queue is empty, its futex word 0, and the dispatcher has nothing under way for it.\<close>

theorem slot_lifetime:
  assumes "server_main S hardware argv pid net = (Inr (Some (ipc, ws)), net')" "store_ready G store"
    "\<forall>c. config_ok (G c) \<and> sg_threads (G c) = ws_numWorkerThreads ws" "work_ready G work" "references_ready G store"
    "inj socket" "(session_step E G socket)\<^sup>*\<^sup>* (session_start ws kern store work) t"
  shows "if ss_point t c = M_Requests
    then \<exists>i < MAX_CLIENTS. cx_subscribed (ss_bank t ! i) \<and> cx_id (ss_bank t ! i) = c \<and> slot_of_client G (ss_bank t ! i) \<and>
      errand_for (sr_handler (ss_srv t)) (ss_bank t) c = No_Errand \<and>
      (\<forall>j < MAX_CLIENTS. cx_subscribed (ss_bank t ! j) \<and> cx_id (ss_bank t ! j) = c \<longrightarrow> j = i)
    else sl_elems (st_queues (sc_store (ss_service t)) (queue_name c)) = [] \<and>
      st_words (sc_store (ss_service t)) (futex_name c) = 0 \<and>
      (served (ss_service t) = Some c \<longrightarrow> sc_worker (ss_service t) = SV_Poll)"
proof -
  have ok: "session_ok G socket t" by (rule session_run_ok [OF assms(7) session_start_ok [OF assms(1-6)]])
  note inv = session_invD [OF session_okD(2) [OF ok]]
  show ?thesis
  proof (cases "ss_point t c = M_Requests")
    case True
    then have stage: "subscribed (ss_bank t) c" "errand_for (sr_handler (ss_srv t)) (ss_bank t) c = No_Errand"
      using inv(5) [of c] by (simp_all add: stage_now_def)
    then obtain i where i: "i < MAX_CLIENTS" "cx_subscribed (ss_bank t ! i)" "cx_id (ss_bank t ! i) = c"
      by (auto simp: subscribed_def)
    moreover have "slot_of_client G (ss_bank t ! i)" by (rule service_invD(2) [OF inv(1) i(1,2)])
    moreover have "j = i" if "j < MAX_CLIENTS" "cx_subscribed (ss_bank t ! j)" "cx_id (ss_bank t ! j) = c" for j
      by (rule bank_unique [OF session_okD(6) [OF ok] that(1,2) i(1,2)]) (simp add: that(3) i(3))
    ultimately show ?thesis
      unfolding if_P [OF True] using stage(2) by blast
  next
    case False
    let ?v = "view G (ss_service t) c"
    have "sy_client ?v = CL_Next 0 0 \<or> sy_client ?v = CL_Done"
      using inv(6) [of c] False by (cases "ss_point t c") (simp_all add: view_simps)
    then have "sl_elems (sy_queue ?v) = [] \<and> sy_word ?v = 0 \<and> sy_server ?v = SV_Poll"
      using session_okD(8) [OF ok, of c] by (auto simp: sys_inv_def)
    with False show ?thesis by (simp add: view_simps split: if_splits)
  qed
qed

theorem slot_lifetime_witness:
  "\<exists>t. (session_step demo_env demo_clients demo_socket)\<^sup>*\<^sup>* demo_session t \<and>
     (\<exists>i < MAX_CLIENTS. cx_subscribed (ss_bank t ! i) \<and> cx_id (ss_bank t ! i) = 7 \<and> slot_of_client demo_clients (ss_bank t ! i))"
proof -
  obtain t where t: "(session_step demo_env demo_clients demo_socket)\<^sup>*\<^sup>* demo_session t" "ss_point t 7 = M_Requests"
    using demo_requesting by blast
  from slot_lifetime [OF demo_main demo_service_ok demo_session_ok(2,3,1) t(1), of 7] t show ?thesis by auto
qed

text \<open>Property C36: a client that the server does not accept is never told. Once its subscription has been
  taken and the set-up of its slot has failed (or the handler has ended in undefined behaviour), no
  response is ever sent to it, and it stays in the loop that waits for the response.\<close>

theorem rejected_client_waits:
  assumes "server_main S hardware argv pid net = (Inr (Some (ipc, ws)), net')" "store_ready G store"
    "\<forall>c. sg_threads (G c) = ws_numWorkerThreads ws" "work_ready G work" "inj socket"
    "(session_step E G socket)\<^sup>*\<^sup>* (session_start ws kern store work) s" "(session_step E G socket)\<^sup>*\<^sup>* s t"
    "ss_point s c = M_Await" "ss_wire s c = []" "errand_for (sr_handler (ss_srv s)) (ss_bank s) c = No_Errand"
    "\<not> subscribed (ss_bank s) c"
  shows "ss_point t c = M_Await \<and> sent_to (socket c) (ss_srv t) = []"
proof -
  have inv: "session_inv G socket s"
    by (rule session_reach [OF assms(6)]) (use session_start_inv [OF assms(1-4)] assms(5) in simp)
  then have "turned_away socket s c"
    using session_invD(5) [OF inv, of c] assms(8-11) by (simp add: turned_away_def stage_now_def)
  with assms(7) have "turned_away socket t c"
  proof (induction rule: rtranclp_induct)
    case (step t u)
    have "session_inv G socket t" using session_reach [OF step.hyps(1)] inv assms(5) by blast
    from turned_away_step [OF assms(5) this step.hyps(2)] step show ?case by blast
  qed
  then show ?thesis by (simp add: turned_away_def)
qed

theorem rejected_client_waits_witness:
  "\<exists>s. (session_step (demo_env\<lparr>se_reserve := (\<lambda>_. False)\<rparr>) demo_clients demo_socket)\<^sup>*\<^sup>* demo_session s \<and>
     (\<forall>t. (session_step (demo_env\<lparr>se_reserve := (\<lambda>_. False)\<rparr>) demo_clients demo_socket)\<^sup>*\<^sup>* s t \<longrightarrow> ss_point t 7 = M_Await)"
proof -
  have threads: "\<forall>c. sg_threads (demo_clients c) = ws_numWorkerThreads demo_workspace" using demo_service_ok(2) by blast
  obtain s where s: "(session_step (demo_env\<lparr>se_reserve := (\<lambda>_. False)\<rparr>) demo_clients demo_socket)\<^sup>*\<^sup>* demo_session s"
     "ss_point s 7 = M_Await" "ss_wire s 7 = []" "sr_handler (ss_srv s) = H_Idle" "\<not> subscribed (ss_bank s) 7"
    using demo_rejected by blast
  have "errand_for (sr_handler (ss_srv s)) (ss_bank s) 7 = No_Errand" using s(4) by simp
  from rejected_client_waits [OF demo_main demo_service_ok(1) threads demo_session_ok(2,1) s(1) _ s(2,3) this s(5)] s(1)
  show ?thesis by blast
qed

end
