(* ===== verification/Transpose_Progress.thy ===== *)
theory Transpose_Progress
  imports Transpose_Session
begin

text \<open>
  No reachable state of the sessions is a dead end: as long as the server runs, the dispatcher takes
  every update, the handler finishes every message, and every client comes to its exit and gives up its
  slot, unless the server has turned it away or has no slot left for it.
\<close>

section \<open>The dispatcher by itself\<close>

definition server_moves :: "'k service \<Rightarrow> 'k service \<Rightarrow> bool" where
  "server_moves s t \<longleftrightarrow>
     (\<exists>r. dispatcher_step (sc_srv s) r \<and> served s = None \<and> t = s\<lparr>sc_srv := r\<rparr>) \<or>
     (\<exists>i. sr_dispatcher (sc_srv s) = D_Serve i \<and> serve_step i (sc_bank s ! i) s t)"

lemma server_moves_session:
  assumes "server_moves (ss_service s) v"
  shows "session_step E G socket s (s\<lparr>ss_service := v\<rparr>)"
  using assms s_dispatcher s_serve unfolding server_moves_def by blast

lemma server_run_session:
  assumes "server_moves\<^sup>*\<^sup>* (ss_service s) v"
  shows "(session_step E G socket)\<^sup>*\<^sup>* s (s\<lparr>ss_service := v\<rparr>)"
  using assms
proof (induction rule: rtranclp_induct)
  case (step v v')
  have "session_step E G socket (s\<lparr>ss_service := v\<rparr>) (s\<lparr>ss_service := v\<rparr>\<lparr>ss_service := v'\<rparr>)"
    by (rule server_moves_session) (use step.hyps(2) in simp)
  then have "session_step E G socket (s\<lparr>ss_service := v\<rparr>) (s\<lparr>ss_service := v'\<rparr>)" by simp
  with step.IH show ?case by (rule rtranclp.rtrancl_into_rtrancl)
qed simp

lemma server_moves_in_order:
  assumes "server_moves s t" "in_order G s"
  shows "in_order G t"
proof -
  have "service_step E G s t" for E
    using assms(1) sv_dispatcher sv_serve unfolding server_moves_def by blast
  from in_order_reach [OF r_into_rtranclp [of "service_step undefined G", OF this] assms(2)] show ?thesis .
qed

text \<open>A run of the dispatcher that leaves the handler, the flag and the stop alone.\<close>

definition quiet_run :: "(u32 \<Rightarrow> sys_config) \<Rightarrow> 'k service \<Rightarrow> 'k service \<Rightarrow> bool" where
  "quiet_run G s t \<longleftrightarrow> server_moves\<^sup>*\<^sup>* s t \<and> in_order G t \<and> sr_handler (sc_srv t) = sr_handler (sc_srv s) \<and>
     ws_running (sr_ws (sc_srv t)) = ws_running (sr_ws (sc_srv s)) \<and>
     ws_updateAvailable (sr_ws (sc_srv t)) = ws_updateAvailable (sr_ws (sc_srv s))"

lemma quiet_refl: "in_order G s \<Longrightarrow> quiet_run G s s"
  by (simp add: quiet_run_def)

lemma quiet_trans: "quiet_run G s t \<Longrightarrow> quiet_run G t u \<Longrightarrow> quiet_run G s u"
  unfolding quiet_run_def by (metis rtranclp_trans)

lemma quiet_dispatcher:
  assumes "in_order G s" "served s = None" "dispatcher_step (sc_srv s) r" "sr_handler r = sr_handler (sc_srv s)"
    "ws_running (sr_ws r) = ws_running (sr_ws (sc_srv s))" "ws_updateAvailable (sr_ws r) = ws_updateAvailable (sr_ws (sc_srv s))"
  shows "quiet_run G s (s\<lparr>sc_srv := r\<rparr>)"
proof -
  have "server_moves s (s\<lparr>sc_srv := r\<rparr>)" using assms(2,3) by (auto simp: server_moves_def)
  from server_moves_in_order [OF this assms(1)] r_into_rtranclp [of server_moves, OF this] assms(4-6)
  show ?thesis by (simp add: quiet_run_def)
qed

lemma serve_to_scan:
  assumes "in_order G s" "sr_dispatcher (sc_srv s) = D_Serve i"
  shows "\<exists>t. quiet_run G s t \<and> sr_dispatcher (sc_srv t) = D_Scan (i + 1)"
  using assms
proof (induction "serve_rank s" arbitrary: s rule: less_induct)
  case less
  obtain t where t: "serve_step i (sc_bank s ! i) s t"
      "sr_dispatcher (sc_srv t) = D_Scan (i + 1) \<or> sr_dispatcher (sc_srv t) = D_Serve i \<and> serve_rank t < serve_rank s"
    using serve_next [OF less.prems] by blast
  have "server_moves s t" using t(1) less.prems(2) by (auto simp: server_moves_def)
  from server_moves_in_order [OF this less.prems(1)] r_into_rtranclp [of server_moves, OF this] serve_keeps(1,2,7) [OF t(1)]
  have q: "quiet_run G s t" by (simp add: quiet_run_def)
  from t(2) show ?case
  proof
    assume again: "sr_dispatcher (sc_srv t) = D_Serve i \<and> serve_rank t < serve_rank s"
    have "in_order G t" using q by (simp add: quiet_run_def)
    with less.hyps [of t] again quiet_trans [OF q] show ?thesis by blast
  qed (use q in blast)
qed

lemma scan_to_top:
  assumes "in_order G s" "sr_dispatcher (sc_srv s) = D_Scan i"
  shows "\<exists>t. quiet_run G s t \<and> sr_dispatcher (sc_srv t) = D_Top"
  using assms
proof (induction "MAX_CLIENTS - i" arbitrary: i s)
  case 0
  have "served s = None" using "0.prems"(2) by (simp add: served_def)
  from quiet_dispatcher [OF "0.prems"(1) this d_round [OF "0.prems"(2)]] "0.hyps"
  show ?case by (intro exI [of _ "s\<lparr>sc_srv := (sc_srv s)\<lparr>sr_dispatcher := D_Top\<rparr>\<rparr>"]) simp
next
  case (Suc d)
  have i: "i < MAX_CLIENTS" and none: "served s = None" using Suc.hyps(2) Suc.prems(2) by (simp_all add: served_def)
  have "\<exists>t. quiet_run G s t \<and> sr_dispatcher (sc_srv t) = D_Scan (i + 1)"
  proof (cases "getBit (sr_local (sc_srv s)) i")
    case False
    from quiet_dispatcher [OF Suc.prems(1) none d_skip [OF Suc.prems(2) i False]]
    show ?thesis by (intro exI [of _ "s\<lparr>sc_srv := (sc_srv s)\<lparr>sr_dispatcher := D_Scan (i + 1)\<rparr>\<rparr>"]) simp
  next
    case True
    let ?t = "s\<lparr>sc_srv := (sc_srv s)\<lparr>sr_dispatcher := D_Serve i\<rparr>\<rparr>"
    from quiet_dispatcher [OF Suc.prems(1) none d_serve [OF Suc.prems(2) i True]] have q: "quiet_run G s ?t" by simp
    then have "in_order G ?t" by (simp add: quiet_run_def)
    with serve_to_scan [of G ?t i] quiet_trans [OF q] show ?thesis by auto
  qed
  then obtain t where t: "quiet_run G s t" "sr_dispatcher (sc_srv t) = D_Scan (i + 1)" by blast
  moreover from t(1) have "in_order G t" by (simp add: quiet_run_def)
  moreover have "d = MAX_CLIENTS - (i + 1)" using Suc.hyps(2) by simp
  ultimately obtain u where "quiet_run G t u" "sr_dispatcher (sc_srv u) = D_Top" using Suc.hyps(1) by blast
  with quiet_trans [OF t(1)] show ?case by blast
qed

text \<open>With the flag up the dispatcher comes to the head of its loop and takes the update.\<close>

definition alive :: "'k srv \<Rightarrow> bool" where
  "alive r \<longleftrightarrow> ws_running (sr_ws r) \<and> sr_dispatcher r \<noteq> D_Stopped"

lemma clear_flag:
  assumes "in_order G s" "sr_dispatcher (sc_srv s) = D_Clear"
  shows "\<exists>t. server_moves\<^sup>*\<^sup>* s t \<and> \<not> ws_updateAvailable (sr_ws (sc_srv t)) \<and> sr_handler (sc_srv t) = sr_handler (sc_srv s) \<and>
    ws_running (sr_ws (sc_srv t)) = ws_running (sr_ws (sc_srv s)) \<and> sr_dispatcher (sc_srv t) \<noteq> D_Stopped"
proof -
  let ?r = "(sc_srv s)\<lparr>sr_dispatcher := D_Scan 0, sr_ws := (sr_ws (sc_srv s))\<lparr>ws_updateAvailable := False\<rparr>\<rparr>"
  have "server_moves s (s\<lparr>sc_srv := ?r\<rparr>)"
    using d_clear [OF assms(2)] assms(2) by (auto simp: server_moves_def served_def)
  then show ?thesis by (intro exI [of _ "s\<lparr>sc_srv := ?r\<rparr>"] conjI r_into_rtranclp) simp_all
qed

lemma server_clears:
  assumes "in_order G s" "alive (sc_srv s)" "ws_updateAvailable (sr_ws (sc_srv s))"
  shows "\<exists>t. server_moves\<^sup>*\<^sup>* s t \<and> \<not> ws_updateAvailable (sr_ws (sc_srv t)) \<and> sr_handler (sc_srv t) = sr_handler (sc_srv s) \<and>
    alive (sc_srv t)"
proof -
  have clear: ?thesis if q: "quiet_run G s t" and at: "sr_dispatcher (sc_srv t) = D_Clear" for t
  proof -
    have "in_order G t" using q by (simp add: quiet_run_def)
    from clear_flag [OF this at] obtain u where "server_moves\<^sup>*\<^sup>* t u" "\<not> ws_updateAvailable (sr_ws (sc_srv u))"
        "sr_handler (sc_srv u) = sr_handler (sc_srv t)" "ws_running (sr_ws (sc_srv u)) = ws_running (sr_ws (sc_srv t))"
        "sr_dispatcher (sc_srv u) \<noteq> D_Stopped" by blast
    with q assms(2) show ?thesis
      unfolding quiet_run_def alive_def by (metis rtranclp_trans)
  qed
  have load: ?thesis if q: "quiet_run G s t" and at: "sr_dispatcher (sc_srv t) = D_Load" for t
  proof -
    let ?u = "t\<lparr>sc_srv := (sc_srv t)\<lparr>sr_dispatcher := D_Clear, sr_local := ws_validClientsBitSet (sr_ws (sc_srv t))\<rparr>\<rparr>"
    have "served t = None" using at by (simp add: served_def)
    moreover have "in_order G t" using q by (simp add: quiet_run_def)
    ultimately have "quiet_run G t ?u" using quiet_dispatcher [OF _ _ d_load [OF at]] by simp
    from clear [OF quiet_trans [OF q this]] show ?thesis by simp
  qed
  have top: ?thesis if q: "quiet_run G s t" and at: "sr_dispatcher (sc_srv t) = D_Top" for t
  proof -
    let ?u = "t\<lparr>sc_srv := (sc_srv t)\<lparr>sr_dispatcher := D_Load\<rparr>\<rparr>"
    have run: "ws_running (sr_ws (sc_srv t))" "ws_updateAvailable (sr_ws (sc_srv t))"
      using q assms(2,3) by (simp_all add: quiet_run_def alive_def)
    have "served t = None" using at by (simp add: served_def)
    moreover have "in_order G t" using q by (simp add: quiet_run_def)
    ultimately have "quiet_run G t ?u" using quiet_dispatcher [OF _ _ d_update [OF at run]] by simp
    from load [OF quiet_trans [OF q this]] show ?thesis by simp
  qed
  have scan: ?thesis if q: "quiet_run G s t" and at: "sr_dispatcher (sc_srv t) = D_Scan i" for t i
  proof -
    have "in_order G t" using q by (simp add: quiet_run_def)
    from scan_to_top [OF this at] show ?thesis using top quiet_trans [OF q] by blast
  qed
  note q = quiet_refl [OF assms(1)]
  show ?thesis
  proof (cases "sr_dispatcher (sc_srv s)")
    case (D_Serve i)
    with serve_to_scan [OF assms(1) this] show ?thesis using scan by blast
  qed (use assms(2) top [OF q] load [OF q] clear [OF q] scan [OF q] in \<open>auto simp: alive_def\<close>)
qed

section \<open>The handler finishes\<close>

text \<open>A run of the server that leaves the clients where they are.\<close>

definition server_run :: "'k server_env \<Rightarrow> (u32 \<Rightarrow> sys_config) \<Rightarrow> (u32 \<Rightarrow> int) \<Rightarrow> 'k session \<Rightarrow> 'k session \<Rightarrow> bool" where
  "server_run E G socket s t \<longleftrightarrow> (session_step E G socket)\<^sup>*\<^sup>* s t \<and> ss_point t = ss_point s \<and> ss_wire t = ss_wire s"

lemma server_run_trans: "server_run E G socket s t \<Longrightarrow> server_run E G socket t u \<Longrightarrow> server_run E G socket s u"
  unfolding server_run_def by (metis rtranclp_trans)

lemma flag_comes_down:
  assumes "session_ok G socket s" "alive (ss_srv s)"
  shows "\<exists>t. server_run E G socket s t \<and> \<not> ws_updateAvailable (sr_ws (ss_srv t)) \<and>
    sr_handler (ss_srv t) = sr_handler (ss_srv s) \<and> alive (ss_srv t)"
proof (cases "ws_updateAvailable (sr_ws (ss_srv s))")
  case True
  from server_clears [OF session_okD(3) [OF assms(1)] assms(2) True] obtain v where v: "server_moves\<^sup>*\<^sup>* (ss_service s) v"
      "\<not> ws_updateAvailable (sr_ws (sc_srv v))" "sr_handler (sc_srv v) = sr_handler (ss_srv s)" "alive (sc_srv v)" by blast
  from server_run_session [OF v(1), of E G socket] v show ?thesis
    by (intro exI [of _ "s\<lparr>ss_service := v\<rparr>"]) (simp add: server_run_def)
next
  case False
  then show ?thesis using assms(2) by (intro exI [of _ s]) (simp add: server_run_def)
qed

lemma handler_goes:
  assumes "sr_handler (ss_srv s) \<noteq> H_Idle" "handler_step E (ss_srv s) r"
  shows "\<exists>t. server_run E G socket s t \<and> ss_srv t = r"
proof -
  let ?t = "s\<lparr>ss_service := (ss_service s)\<lparr>sc_srv := r\<rparr>, ss_out := ss_out s @ outcome_log (sr_handler (ss_srv s)) (sr_handler r)\<rparr>"
  have "session_step E G socket s ?t" by (rule s_handler [OF assms])
  then show ?thesis by (intro exI [of _ ?t]) (simp add: server_run_def r_into_rtranclp)
qed

fun handler_rank :: "handler_pc \<Rightarrow> nat" where
  "handler_rank (H_Add_Write sk c m n k i) = 5"
| "handler_rank (H_Add_Wait sk c i) = 4"
| "handler_rank (H_Add_Set sk c i) = 3"
| "handler_rank (H_Add_Publish sk c i) = 2"
| "handler_rank (H_Add_Respond sk c) = 1"
| "handler_rank (H_Rem_Wait i) = 5"
| "handler_rank (H_Rem_Clear i) = 4"
| "handler_rank (H_Rem_Publish i) = 3"
| "handler_rank (H_Rem_Ack i) = 2"
| "handler_rank (H_Rem_Done i) = 1"
| "handler_rank _ = 0"

lemma setup_context_defined:
  assumes "shift_one m \<noteq> None" "shift_one n \<noteq> None"
  shows "setup_context E c m n k sk old kern \<noteq> None"
  using assms by (auto simp: setup_context_def Let_def split: option.splits prod.splits sum.splits bool.splits if_splits)

text \<open>The handler's next step, once the flag is down, brings it nearer to its end.\<close>

lemma busy_handler_next:
  assumes "sr_handler r \<notin> {H_Idle, H_Undefined}" "\<not> ws_updateAvailable (sr_ws r)" "honest G (sr_handler r)" "\<forall>c. config_ok (G c)"
  shows "\<exists>r'. handler_step E r r' \<and> handler_rank (sr_handler r') < handler_rank (sr_handler r) \<and> sr_handler r' \<noteq> H_Undefined \<and>
    sr_dispatcher r' = sr_dispatcher r \<and> ws_running (sr_ws r') = ws_running (sr_ws r)"
proof (cases "sr_handler r")
  case (H_Add_Write sk c m n k i)
  have "m = sg_m (G c)" "n = sg_n (G c)" using assms(3) H_Add_Write by (simp_all add: honest_def)
  moreover have "unat (sg_m (G c)) < 32" "unat (sg_n (G c)) < 32" using assms(4) [rule_format, of c] unfolding config_ok_def by linarith+
  ultimately have "unat m < 32" "unat n < 32" by simp_all
  then have "shift_one m \<noteq> None" "shift_one n \<noteq> None" by (simp_all add: shift_one_def word_less_nat_alt)
  from setup_context_defined [OF this, of E c k sk "ws_clientBank (sr_ws r) ! i" "sr_kernel r"] obtain b ctx kern
    where su: "setup_context E c m n k sk (ws_clientBank (sr_ws r) ! i) (sr_kernel r) = Some (b, ctx, kern)" by auto
  show ?thesis
  proof (cases b)
    case True
    with su have "setup_context E c m n k sk (ws_clientBank (sr_ws r) ! i) (sr_kernel r) = Some (True, ctx, kern)" by simp
    from h_written [OF H_Add_Write this] show ?thesis
      by (intro exI conjI, assumption) (simp_all add: H_Add_Write)
  next
    case False
    with su have "setup_context E c m n k sk (ws_clientBank (sr_ws r) ! i) (sr_kernel r) = Some (False, ctx, kern)" by simp
    from h_failed [OF H_Add_Write this] show ?thesis
      by (intro exI conjI, assumption) (simp_all add: H_Add_Write)
  qed
next
  case (H_Add_Wait sk c i)
  from h_add_go [OF this assms(2)] show ?thesis by (intro exI conjI, assumption) (simp_all add: H_Add_Wait)
next
  case (H_Add_Set sk c i)
  from h_add_set [OF this] show ?thesis by (intro exI conjI, assumption) (simp_all add: H_Add_Set)
next
  case (H_Add_Publish sk c i)
  from h_add_publish [OF this] show ?thesis by (intro exI conjI, assumption) (simp_all add: H_Add_Publish)
next
  case (H_Add_Respond sk c)
  from h_respond [OF this] show ?thesis by (intro exI conjI, assumption) (simp_all add: H_Add_Respond)
next
  case (H_Rem_Wait i)
  from h_rem_go [OF this assms(2)] show ?thesis by (intro exI conjI, assumption) (simp_all add: H_Rem_Wait)
next
  case (H_Rem_Clear i)
  from h_rem_clear [OF this] show ?thesis by (intro exI conjI, assumption) (simp_all add: H_Rem_Clear)
next
  case (H_Rem_Publish i)
  from h_rem_publish [OF this] show ?thesis by (intro exI conjI, assumption) (simp_all add: H_Rem_Publish)
next
  case (H_Rem_Ack i)
  from h_rem_ack [OF this assms(2)] show ?thesis by (intro exI conjI, assumption) (simp_all add: H_Rem_Ack)
next
  case (H_Rem_Done i)
  from h_rem_done [OF this] show ?thesis by (intro exI conjI, assumption) (simp_all add: H_Rem_Done)
qed (use assms(1) in simp_all)

lemma handler_settles:
  assumes "session_ok G socket s" "alive (ss_srv s)" "sr_handler (ss_srv s) \<noteq> H_Undefined"
  shows "\<exists>t. server_run E G socket s t \<and> session_ok G socket t \<and> alive (ss_srv t) \<and> sr_handler (ss_srv t) = H_Idle"
  using assms
proof (induction "handler_rank (sr_handler (ss_srv s))" arbitrary: s rule: less_induct)
  case less
  show ?case
  proof (cases "sr_handler (ss_srv s) = H_Idle")
    case True
    with less.prems show ?thesis by (intro exI [of _ s]) (simp add: server_run_def)
  next
    case False
    obtain a where a: "server_run E G socket s a" "\<not> ws_updateAvailable (sr_ws (ss_srv a))"
        "sr_handler (ss_srv a) = sr_handler (ss_srv s)" "alive (ss_srv a)"
      using flag_comes_down [OF less.prems(1,2)] by blast
    have ok: "session_ok G socket a" using session_run_ok less.prems(1) a(1) unfolding server_run_def by blast
    have busy: "sr_handler (ss_srv a) \<notin> {H_Idle, H_Undefined}" using False less.prems(3) a(3) by simp
    have "honest G (sr_handler (ss_srv a))" "\<forall>c. config_ok (G c)"
      using service_invD(3) [OF session_okD(5) [OF ok]] session_okD(7) [OF ok] by blast+
    from busy_handler_next [OF busy a(2) this] obtain r where r: "handler_step E (ss_srv a) r"
        "handler_rank (sr_handler r) < handler_rank (sr_handler (ss_srv a))" "sr_handler r \<noteq> H_Undefined"
        "sr_dispatcher r = sr_dispatcher (ss_srv a)" "ws_running (sr_ws r) = ws_running (sr_ws (ss_srv a))" by blast
    have "sr_handler (ss_srv a) \<noteq> H_Idle" using busy by simp
    from handler_goes [OF this r(1)] obtain b where b: "server_run E G socket a b" "ss_srv b = r" by blast
    have ok': "session_ok G socket b" using session_run_ok ok b(1) unfolding server_run_def by blast
    have "alive (ss_srv b)" using a(4) r(4,5) b(2) by (simp add: alive_def)
    with less.hyps [of b] ok' r(2,3) a(3) b(2) server_run_trans [OF server_run_trans [OF a(1) b(1)]]
    show ?thesis by auto
  qed
qed

section \<open>The clients finish\<close>

text \<open>A client that has been answered has read the answer.\<close>

definition reads_ok :: "'k session \<Rightarrow> bool" where
  "reads_ok s \<longleftrightarrow> (\<forall>c. ss_read s c \<noteq> 0 \<longrightarrow> cw_subscribeResponseReceived (ss_work s c))"

lemma reads_step:
  assumes "reads_ok s" "session_step E G socket s t"
  shows "reads_ok t"
  using assms(2)
proof cases
  case (m_message msgs c)
  then show ?thesis using assms(1) by (simp add: reads_ok_def ClientMessageHandler_def)
qed (use assms(1) in \<open>auto simp: reads_ok_def\<close>)

lemma reads_run: "(session_step E G socket)\<^sup>*\<^sup>* s t \<Longrightarrow> reads_ok s \<Longrightarrow> reads_ok t"
  by (induction rule: rtranclp_induct) (auto intro: reads_step)

text \<open>The good states from which runs go on.\<close>

definition session_alive :: "(u32 \<Rightarrow> sys_config) \<Rightarrow> (u32 \<Rightarrow> int) \<Rightarrow> 'k session \<Rightarrow> bool" where
  "session_alive G socket s \<longleftrightarrow> session_ok G socket s \<and> reads_ok s \<and> (\<forall>c. exit_ok (G c) (ss_point s c)) \<and> alive (ss_srv s)"

text \<open>What a client can come to: its exit, with its slot given up; or a refusal; or a bank without a free slot.\<close>

definition exited :: "(u32 \<Rightarrow> sys_config) \<Rightarrow> 'k session \<Rightarrow> u32 \<Rightarrow> bool" where
  "exited G s c \<longleftrightarrow> (\<exists>n. ss_point s c = M_Exit n \<and> (sg_repetitions (G c) \<noteq> 0 \<longrightarrow> n = 0)) \<and> \<not> subscribed (ss_bank s) c"

definition bank_full :: "'k session \<Rightarrow> bool" where
  "bank_full s \<longleftrightarrow> (\<forall>i < MAX_CLIENTS. getBit (ws_validClientsBitSet (sr_ws (ss_srv s))) i)"

definition outcome :: "(u32 \<Rightarrow> sys_config) \<Rightarrow> (u32 \<Rightarrow> int) \<Rightarrow> 'k session \<Rightarrow> u32 \<Rightarrow> bool" where
  "outcome G socket s c \<longleftrightarrow> exited G s c \<or> turned_away socket s c \<or> bank_full s"

lemma session_aliveD:
  assumes "session_alive G socket s"
  shows "session_ok G socket s" "reads_ok s" "exit_ok (G c) (ss_point s c)" "alive (ss_srv s)" "session_inv G socket s"
    "stage_now socket (ss_srv s) (ss_point s c) (ss_wire s c) c"
  using assms session_invD(5) by (auto simp: session_alive_def session_ok_def)

lemma alive_run:
  assumes "(session_step E G socket)\<^sup>*\<^sup>* s t" "session_alive G socket s" "alive (ss_srv t)"
  shows "session_alive G socket t"
  using assms session_run_ok [OF assms(1)] reads_run [OF assms(1)] exit_run [OF assms(1)]
  unfolding session_alive_def by blast

lemma alive_settles:
  assumes "session_alive G socket s" "sr_handler (ss_srv s) \<noteq> H_Undefined"
  shows "\<exists>t. server_run E G socket s t \<and> session_alive G socket t \<and> sr_handler (ss_srv t) = H_Idle"
  using handler_settles [OF session_aliveD(1,4) [OF assms(1)] assms(2), of E] alive_run [OF _ assms(1)]
  unfolding server_run_def by blast

text \<open>The handler takes a message and finishes with it.\<close>

lemma message_taken:
  assumes "session_alive G socket s" "sr_handler (ss_srv s) = H_Idle" "ss_wire s c = msg # rest"
    "MessageHandler (sr_ws (ss_srv s)) (socket c) msg \<noteq> H_Undefined"
  shows "\<exists>t. (session_step E G socket)\<^sup>*\<^sup>* s t \<and> session_alive G socket t \<and> sr_handler (ss_srv t) = H_Idle \<and>
    ss_point t = ss_point s \<and> ss_wire t = (ss_wire s)(c := rest)"
proof -
  let ?h = "MessageHandler (sr_ws (ss_srv s)) (socket c) msg"
  let ?t = "s\<lparr>ss_wire := (ss_wire s)(c := rest), ss_out := ss_out s @ message_log (sr_ws (ss_srv s)) msg,
       ss_service := (ss_service s)\<lparr>sc_srv := (ss_srv s)\<lparr>sr_handler := ?h\<rparr>\<rparr>\<rparr>"
  have step: "session_step E G socket s ?t" by (rule s_receive [OF assms(2,3) refl])
  have "alive (ss_srv ?t)" using session_aliveD(4) [OF assms(1)] by (simp add: alive_def)
  from alive_run [OF r_into_rtranclp [of "session_step E G socket", OF step] assms(1) this] have ok: "session_alive G socket ?t" .
  moreover have "sr_handler (ss_srv ?t) \<noteq> H_Undefined" using assms(4) by simp
  ultimately obtain u where u: "server_run E G socket ?t u" "session_alive G socket u" "sr_handler (ss_srv u) = H_Idle"
    using alive_settles by blast
  have "ss_point u = ss_point s" "ss_wire u = (ss_wire s)(c := rest)" "(session_step E G socket)\<^sup>*\<^sup>* ?t u"
    using u(1) by (simp_all add: server_run_def)
  with step u(2,3) show ?thesis by (meson converse_rtranclp_into_rtranclp)
qed

text \<open>After the exit the handler gives up the slot.\<close>

lemma slot_given_up:
  assumes "session_alive G socket s" "ss_point s c = M_Exit n" "sr_handler (ss_srv s) = H_Idle"
  shows "\<exists>t. (session_step E G socket)\<^sup>*\<^sup>* s t \<and> exited G t c"
proof -
  have ends: "exited G t c" if "session_alive G socket t" "ss_point t c = M_Exit n" "\<not> subscribed (ss_bank t) c" for t
    using session_aliveD(3) [OF that(1), of c] that(2,3) by (auto simp: exited_def)
  have stage: "ss_wire t c = [] \<and> \<not> subscribed (ss_bank t) c \<or> (\<exists>msg. ss_wire t c = [msg] \<and> msg_type msg = MT_Unsubscribe \<and> subscribed (ss_bank t) c)"
    if "session_alive G socket t" "ss_point t c = M_Exit n" "sr_handler (ss_srv t) = H_Idle" for t
    using session_aliveD(6) [OF that(1), of c] that(2,3) by (auto simp: stage_now_def)
  from stage [OF assms] show ?thesis
  proof (elim disjE exE conjE)
    assume "\<not> subscribed (ss_bank s) c"
    from ends [OF assms(1,2) this] show ?thesis by blast
  next
    fix msg assume msg: "ss_wire s c = [msg]" "msg_type msg = MT_Unsubscribe" "subscribed (ss_bank s) c"
    have "MessageHandler (sr_ws (ss_srv s)) (socket c) msg \<noteq> H_Undefined"
      using msg(2) by (simp add: MessageHandler_def ProcessSubscribeMessage_def message_types split: option.split)
    from message_taken [OF assms(1,3) msg(1) this, of E] obtain t
      where t: "(session_step E G socket)\<^sup>*\<^sup>* s t" "session_alive G socket t" "sr_handler (ss_srv t) = H_Idle"
        "ss_point t c = M_Exit n" "ss_wire t c = []" using assms(2) by auto
    from stage [OF t(2,4,3)] t(5) ends [OF t(2,4)] t(1) show ?thesis by auto
  qed
qed

text \<open>A client that has logged, that has made its requests, that is making them, that waits, that starts.\<close>

lemma calm_keeps:
  assumes "calm_step c G s t"
  shows "sr_handler (sc_srv t) = sr_handler (sc_srv s)" "alive (sc_srv s) \<Longrightarrow> alive (sc_srv t)"
proof -
  show "sr_handler (sc_srv t) = sr_handler (sc_srv s)"
    using assms
  proof cases
    case (calm_dispatcher r)
    then show ?thesis by (auto elim: dispatcher_step.cases)
  next
    case (calm_serve i)
    then show ?thesis using serve_keeps(1) by blast
  qed simp
  show "alive (sc_srv t)" if "alive (sc_srv s)"
    using assms
  proof cases
    case (calm_dispatcher r)
    then show ?thesis using that by (auto simp: alive_def elim: dispatcher_step.cases)
  next
    case (calm_serve i)
    have "sr_dispatcher (sc_srv t) \<noteq> D_Stopped"
      using calm_serve(2,1) by (induction rule: serve_step.induct) simp_all
    then show ?thesis using serve_keeps(2) [OF calm_serve(2)] that by (simp add: alive_def)
  qed (use that in \<open>simp add: alive_def\<close>)
qed

lemma calm_run_keeps:
  assumes "(calm_step c G)\<^sup>*\<^sup>* s t"
  shows "sr_handler (sc_srv t) = sr_handler (sc_srv s) \<and> (alive (sc_srv s) \<longrightarrow> alive (sc_srv t))"
  using assms by (induction rule: rtranclp_induct) (auto simp: calm_keeps(1) intro: calm_keeps(2))

lemma exit_ends:
  assumes "session_alive G socket s" "sr_handler (ss_srv s) = H_Idle"
    "(session_step E G socket)\<^sup>*\<^sup>* s t" "ss_service t = ss_service s" "ss_point t c = M_Exit n"
  shows "\<exists>u. (session_step E G socket)\<^sup>*\<^sup>* s u \<and> exited G u c"
proof -
  have "session_alive G socket t"
    using alive_run [OF assms(3,1)] session_aliveD(4) [OF assms(1)] assms(4) by simp
  from slot_given_up [OF this assms(5), of E] assms(2,4) obtain u
    where "(session_step E G socket)\<^sup>*\<^sup>* t u" "exited G u c" by auto
  with assms(3) show ?thesis by (meson rtranclp_trans)
qed

lemma requests_end:
  assumes "session_alive G socket s" "sr_handler (ss_srv s) = H_Idle" "ss_point s c = M_Requests"
  shows "\<exists>u. (session_step E G socket)\<^sup>*\<^sup>* s u \<and> exited G u c"
proof -
  have ok: "session_ok G socket s" and live: "alive (ss_srv s)" using session_aliveD(1,4) [OF assms(1)] by simp_all
  have "subscribed (ss_bank s) c" using session_aliveD(6) [OF assms(1), of c] assms(3) by (simp add: stage_now_def)
  then obtain j where j: "j < MAX_CLIENTS" "cx_subscribed (ss_bank s ! j)" "cx_id (ss_bank s ! j) = c"
    by (auto simp: subscribed_def)
  have "j \<in> valid_slots (ss_srv s)"
    using srv_invD(4) [OF session_okD(6) [OF ok]] assms(2) j(1,2) by (auto simp: subscribed_slots_def)
  then have "slot_ready G j (ss_service s)"
    using session_okD(3) [OF ok] live assms(2) j(2) by (simp add: slot_ready_def alive_def)
  from service_runs_to_done [OF this _ j(3) [symmetric]] live
  obtain v where v: "(calm_step c G)\<^sup>*\<^sup>* (ss_service s) v" "sc_clients v c = CL_Done" by (auto simp: alive_def)
  obtain t where t: "(session_step E G socket)\<^sup>*\<^sup>* s t" "ss_service t = v" "ss_point t = ss_point s"
    using calm_run_session [OF v(1) assms(3)] by blast
  have rest: "sr_handler (ss_srv t) = H_Idle" "alive (ss_srv t)"
    using calm_run_keeps [OF v(1)] assms(2) live t(2) by simp_all
  have alive: "session_alive G socket t" by (rule alive_run [OF t(1) assms(1) rest(2)])
  obtain u n where u: "(session_step E G socket)\<^sup>*\<^sup>* t u" "ss_service u = ss_service t" "ss_point u c = M_Exit n"
    using requests_exit [OF session_aliveD(1) [OF alive], of c E] t(2,3) assms(3) v(2) by auto
  from exit_ends [OF alive rest(1) u] t(1) show ?thesis by (meson rtranclp_trans)
qed

lemma answered_ends:
  assumes "session_alive G socket s" "sr_handler (ss_srv s) = H_Idle" "ss_point s c = M_Await" "ss_wire s c = []"
  shows "\<exists>u. (session_step E G socket)\<^sup>*\<^sup>* s u \<and> outcome G socket u c"
proof (cases "subscribed (ss_bank s) c")
  case False
  then have "turned_away socket s c"
    using session_aliveD(6) [OF assms(1), of c] assms(2-4) by (simp add: turned_away_def stage_now_def)
  then show ?thesis unfolding outcome_def by blast
next
  case True
  then have sent: "length (sent_to (socket c) (ss_srv s)) = 1"
    using session_aliveD(6) [OF assms(1), of c] assms(2-4) by (simp add: stage_now_def)
  have "\<exists>t. (session_step E G socket)\<^sup>*\<^sup>* s t \<and> ss_service t = ss_service s \<and> ss_point t = ss_point s \<and>
      cw_subscribeResponseReceived (ss_work t c)"
  proof (cases "ss_read s c = 0")
    case True
    let ?t = "s\<lparr>ss_read := (ss_read s)(c := ss_read s c + 1),
       ss_work := (ss_work s)(c := ClientMessageHandler (sent_to (socket c) (ss_srv s) ! ss_read s c) (ss_work s c))\<rparr>"
    have "session_step E G socket s ?t" by (rule m_message) (simp_all add: True sent)
    then show ?thesis by (intro exI [of _ ?t]) (simp add: ClientMessageHandler_def r_into_rtranclp)
  next
    case False
    then show ?thesis using session_aliveD(2) [OF assms(1)] by (intro exI [of _ s]) (simp add: reads_ok_def)
  qed
  then obtain t where t: "(session_step E G socket)\<^sup>*\<^sup>* s t" "ss_service t = ss_service s" "ss_point t c = M_Await"
      "cw_subscribeResponseReceived (ss_work t c)" using assms(3) by auto
  let ?u = "t\<lparr>ss_point := (ss_point t)(c := M_Requests)\<rparr>"
  have "session_step E G socket t ?u" by (rule m_answered [OF t(3,4)])
  with t(1) have run: "(session_step E G socket)\<^sup>*\<^sup>* s ?u" by (rule rtranclp.rtrancl_into_rtrancl)
  have "session_alive G socket ?u" using alive_run [OF run assms(1)] session_aliveD(4) [OF assms(1)] t(2) by simp
  from requests_end [OF this, of c E] assms(2) t(2) run show ?thesis unfolding outcome_def by (auto dest: rtranclp_trans)
qed

lemma waiting_ends:
  assumes "session_alive G socket s" "sr_handler (ss_srv s) = H_Idle" "ss_point s c = M_Await"
  shows "\<exists>u. (session_step E G socket)\<^sup>*\<^sup>* s u \<and> outcome G socket u c"
proof (cases "ss_wire s c")
  case Nil
  from answered_ends [OF assms Nil] show ?thesis .
next
  case (Cons msg rest)
  then have msg: "rest = []" "msg_type msg = MT_Subscribe" "\<not> subscribed (ss_bank s) c"
    using session_aliveD(6) [OF assms(1), of c] assms(2,3) by (auto simp: stage_now_def)
  have unknown: "ClientExists (sr_ws (ss_srv s)) (senderId msg) = None"
    using msg(3) session_invD(4) [OF session_aliveD(5) [OF assms(1)], of c] Cons
    by (simp add: ClientExists_subscribed message_ok_def)
  show ?thesis
  proof (cases "indexToAdd (sr_ws (ss_srv s))")
    case None
    then have "bank_full s" by (simp add: bank_full_def indexToAdd_None)
    then show ?thesis unfolding outcome_def by blast
  next
    case (Some i)
    then have "MessageHandler (sr_ws (ss_srv s)) (socket c) msg \<noteq> H_Undefined"
      using msg(2) unknown by (simp add: MessageHandler_def ProcessSubscribeMessage_def)
    from message_taken [OF assms(1,2) Cons this, of E] obtain t
      where t: "(session_step E G socket)\<^sup>*\<^sup>* s t" "session_alive G socket t" "sr_handler (ss_srv t) = H_Idle"
        "ss_point t c = M_Await" "ss_wire t c = []" using assms(3) msg(1) by auto
    from answered_ends [OF t(2-5)] t(1) show ?thesis by (meson rtranclp_trans)
  qed
qed

lemma client_ends:
  assumes "session_alive G socket s" "sr_handler (ss_srv s) = H_Idle"
  shows "\<exists>u. (session_step E G socket)\<^sup>*\<^sup>* s u \<and>
    (exited G u c \<or> ss_point s c \<in> {M_Subscribe, M_Await} \<and> (turned_away socket u c \<or> bank_full u))"
proof (cases "ss_point s c")
  case M_Subscribe
  let ?t = "s\<lparr>ss_point := (ss_point s)(c := M_Await), ss_wire := (ss_wire s)(c := ss_wire s c @ [client_subscribe undefined (ss_work s c)])\<rparr>"
  have step: "session_step E G socket s ?t" by (rule m_subscribe [OF M_Subscribe])
  have "session_alive G socket ?t"
    using alive_run [OF r_into_rtranclp [of "session_step E G socket", OF step] assms(1)] session_aliveD(4) [OF assms(1)] by simp
  from waiting_ends [OF this, of c E] assms(2) step M_Subscribe show ?thesis
    unfolding outcome_def by (auto intro: converse_rtranclp_into_rtranclp)
next
  case M_Await
  from waiting_ends [OF assms M_Await] M_Await show ?thesis unfolding outcome_def by auto
next
  case M_Requests
  from requests_end [OF assms M_Requests] show ?thesis by blast
next
  case M_Log
  from log_exits [OF session_aliveD(1) [OF assms(1)] M_Log] exit_ends [OF assms] show ?thesis by blast
next
  case M_Check
  from check_exits [OF session_aliveD(1) [OF assms(1)] M_Check] exit_ends [OF assms] show ?thesis by blast
next
  case (M_Exit n)
  from exit_ends [OF assms rtranclp.rtrancl_refl refl M_Exit] show ?thesis by blast
next
  case M_Fault
  then show ?thesis using session_aliveD(3) [OF assms(1), of c] by simp
qed

section \<open>Properties\<close>



end
