(* ===== verification/Transpose_Counts.thy ===== *)
theory Transpose_Counts
  imports Transpose_Progress
begin

text \<open>
  The statistics of client and server. The client counts exactly its requests; the server stops its
  timer after it has woken the client, so that its count of a client may be one behind when the client
  has gone on to unsubscribe and its line is logged.
\<close>

section \<open>The client's count\<close>

fun requests_done :: "sys_config \<Rightarrow> requester \<Rightarrow> nat" where
  "requests_done g (CL_Next rep b) = unat rep * unat (sg_k g) + unat b"
| "requests_done g (CL_Wait rep b) = unat rep * unat (sg_k g) + unat b"
| "requests_done g CL_Done = unat (sg_repetitions g) * unat (sg_k g)"

fun place_ok :: "sys_config \<Rightarrow> requester \<Rightarrow> bool" where
  "place_ok g (CL_Next rep b) = (rep < sg_repetitions g \<and> b \<le> sg_k g \<or> rep = sg_repetitions g \<and> b = 0)"
| "place_ok g (CL_Wait rep b) = (rep < sg_repetitions g \<and> b < sg_k g)"
| "place_ok g CL_Done = True"

definition answers :: "requester \<Rightarrow> requester \<Rightarrow> nat" where
  "answers r r' = (case (r, r') of (CL_Wait rep b, CL_Next rep' b') \<Rightarrow> 1 | _ \<Rightarrow> 0)"

lemma client_step_counts:
  assumes "client_step g s t" "place_ok g (sy_client s)"
  shows "place_ok g (sy_client t)"
    "requests_done g (sy_client t) = requests_done g (sy_client s) + answers (sy_client s) (sy_client t)"
    "sy_word s = 1 \<or> sy_word s = 0 \<Longrightarrow> (if sy_word s = 1 then 1 else 0) = (if sy_word t = 1 then 1 else 0) + answers (sy_client s) (sy_client t)"
proof -
  have "place_ok g (sy_client t) \<and>
      requests_done g (sy_client t) = requests_done g (sy_client s) + answers (sy_client s) (sy_client t) \<and>
      (if sy_word s = 1 then 1 else 0) = (if sy_word t = 1 then 1 else 0) + answers (sy_client s) (sy_client t)"
    using assms(1)
  proof cases
    case (c_enqueue rep b ok q)
    then show ?thesis using assms(2) by (simp add: answers_def)
  next
    case (c_wait rep b)
    then have b: "rep < sg_repetitions g" "b < sg_k g" using assms(2) by simp_all
    have "unat (b + 1) = unat b + 1" using unat_Suc_less [OF b(2)] by simp
    moreover from this b(2) have "b + 1 \<le> sg_k g" by (simp add: word_le_nat_alt word_less_nat_alt)
    ultimately show ?thesis using c_wait b by (simp add: answers_def)
  next
    case (c_repeat rep b)
    then have "b = sg_k g" using assms(2) by auto
    have "unat (rep + 1) = unat rep + 1" using unat_Suc_less [OF c_repeat(3)] by simp
    moreover from this c_repeat(3) have "rep + 1 < sg_repetitions g \<or> rep + 1 = sg_repetitions g"
      by (auto simp: word_less_nat_alt word_unat_eq_iff)
    ultimately show ?thesis using c_repeat \<open>b = sg_k g\<close> by (auto simp: answers_def)
  next
    case (c_done rep b)
    then have "rep = sg_repetitions g" "b = 0" using assms(2) by auto
    then show ?thesis using c_done by (simp add: answers_def)
  qed
  then show "place_ok g (sy_client t)"
    "requests_done g (sy_client t) = requests_done g (sy_client s) + answers (sy_client s) (sy_client t)"
    "sy_word s = 1 \<or> sy_word s = 0 \<Longrightarrow> (if sy_word s = 1 then 1 else 0) = (if sy_word t = 1 then 1 else 0) + answers (sy_client s) (sy_client t)"
    by simp_all
qed

lemma client_timer_counts:
  "st_TotalRequests (client_timer r r' now st) = st_TotalRequests st + of_nat (answers r r')"
  by (cases r; cases r') (simp_all add: answers_def StartTimer_def StopTimer_def)

section \<open>The server's count\<close>

text \<open>The signal the client has not taken yet, and the request whose timer still runs after the wake-up.\<close>

definition signalled :: "'k service \<Rightarrow> u32 \<Rightarrow> nat" where
  "signalled s c = (if st_words (sc_store s) (futex_name c) = 1 then 1 else 0)"

definition untimed :: "'k service \<Rightarrow> u32 \<Rightarrow> nat" where
  "untimed s c = (if served s = Some c \<and> sc_timing s then 1 else 0)"

definition slot_count_ok :: "'k service \<Rightarrow> u64 \<Rightarrow> u32 \<Rightarrow> ClientContext \<Rightarrow> bool" where
  "slot_count_ok s n c ctx \<longleftrightarrow> st_TotalRequests (cx_stats ctx) + of_nat (untimed s c) = n + of_nat (signalled s c)"

definition counts_inv :: "(u32 \<Rightarrow> sys_config) \<Rightarrow> 'k session \<Rightarrow> bool" where
  "counts_inv G s \<longleftrightarrow> (\<forall>c. place_ok (G c) (sc_clients (ss_service s) c) \<and>
     st_TotalRequests (cw_stats (ss_work s c)) = of_nat (requests_done (G c) (sc_clients (ss_service s) c)) \<and>
     (\<forall>i < MAX_CLIENTS. cx_subscribed (ss_bank s ! i) \<and> cx_id (ss_bank s ! i) = c \<longrightarrow>
        slot_count_ok (ss_service s) (st_TotalRequests (cw_stats (ss_work s c))) c (ss_bank s ! i)))"

lemma counts_invD:
  assumes "counts_inv G s"
  shows "place_ok (G c) (sc_clients (ss_service s) c)"
    "st_TotalRequests (cw_stats (ss_work s c)) = of_nat (requests_done (G c) (sc_clients (ss_service s) c))"
    "i < MAX_CLIENTS \<Longrightarrow> cx_subscribed (ss_bank s ! i) \<Longrightarrow> cx_id (ss_bank s ! i) = c \<Longrightarrow>
       slot_count_ok (ss_service s) (st_TotalRequests (cw_stats (ss_work s c))) c (ss_bank s ! i)"
  using assms unfolding counts_inv_def by blast+

lemma counts_server:
  assumes "counts_inv G s" "\<And>c. cw_stats (ss_work t c) = cw_stats (ss_work s c)" "sc_clients (ss_service t) = sc_clients (ss_service s)"
    "\<And>j. j < MAX_CLIENTS \<Longrightarrow> cx_subscribed (ss_bank t ! j) \<Longrightarrow>
       slot_count_ok (ss_service t) (st_TotalRequests (cw_stats (ss_work s (cx_id (ss_bank t ! j))))) (cx_id (ss_bank t ! j)) (ss_bank t ! j)"
  shows "counts_inv G t"
  unfolding counts_inv_def
proof (intro allI conjI impI)
  fix c
  show "place_ok (G c) (sc_clients (ss_service t) c)"
    "st_TotalRequests (cw_stats (ss_work t c)) = of_nat (requests_done (G c) (sc_clients (ss_service t) c))"
    using counts_invD(1,2) [OF assms(1), of c] assms(2,3) by simp_all
  fix i assume i: "i < MAX_CLIENTS" "cx_subscribed (ss_bank t ! i) \<and> cx_id (ss_bank t ! i) = c"
  then show "slot_count_ok (ss_service t) (st_TotalRequests (cw_stats (ss_work t c))) c (ss_bank t ! i)"
    using assms(4) [of i] assms(2) by simp
qed

lemma counts_same:
  assumes "counts_inv G s" "ss_service t = ss_service s" "\<And>c. cw_stats (ss_work t c) = cw_stats (ss_work s c)"
  shows "counts_inv G t"
  by (rule counts_server [OF assms(1,3)]) (use assms(2) counts_invD(3) [OF assms(1) _ _ refl] in simp_all)

lemma add_buffers_stats:
  "add_buffers P clientId m n bs c k = (b, c', k') \<Longrightarrow> cx_stats c' = cx_stats c"
proof (induction P clientId m n bs c k rule: add_buffers.induct)
  case (2 P clientId m n bufferIndex bs c k)
  then show ?case by (auto simp: Let_def split: prod.splits sum.splits)
qed simp

lemma setup_context_stats:
  assumes "setup_context E clientId m n k socket old kern = Some (b, c, kern')"
  shows "cx_stats c = new_stats"
  using assms
  by (auto simp: setup_context_def new_context_def Let_def
      split: option.splits prod.splits sum.splits if_splits bool.splits dest!: add_buffers_stats)

text \<open>The word of a client in good order.\<close>

lemma word_cases:
  assumes "in_order G s"
  shows "st_words (sc_store s) (futex_name c) = 1 \<or> st_words (sc_store s) (futex_name c) = 0"
proof -
  have "sys_inv (G c) (view G s c)" using assms by (simp add: in_order_def)
  then show ?thesis by (cases "sc_clients s c") (auto simp: sys_inv_def view_simps)
qed

text \<open>Serving a slot keeps the books.\<close>

lemma serve_counts:
  assumes "in_order G s" "sr_dispatcher (sc_srv s) = D_Serve i" "serve_step i (sc_bank s ! i) s t"
    "j < MAX_CLIENTS" "cx_subscribed (sc_bank s ! j)" "slot_count_ok s n (cx_id (sc_bank s ! j)) (sc_bank s ! j)"
  shows "slot_count_ok t n (cx_id (sc_bank s ! j)) (sc_bank t ! j)"
proof -
  let ?c = "cx_id (sc_bank s ! i)" and ?d = "cx_id (sc_bank s ! j)"
  have inv: "service_inv G s" using assms(1) by (simp add: in_order_def)
  note slot = serving_slot [OF inv assms(2)]
  have len: "length (sc_bank s) = MAX_CLIENTS" using srv_invD(2) [OF service_invD(1) [OF inv]] .
  have same: "?d = ?c \<longleftrightarrow> j = i"
    using bank_unique [OF service_invD(1) [OF inv] assms(4,5) slot(1,3)] by blast
  have served: "served s = Some ?c" using assms(2) by (simp add: served_def)
  note book = assms(6) [unfolded slot_count_ok_def]
  from assms(3) show ?thesis
  proof cases
    case (v_transpose x b r sched tr' progs t0)
    then have timing: "\<not> sc_timing s" using service_invD(6) [OF inv] by auto
    have "sc_bank t ! j = (if j = i then (sc_bank s ! i)\<lparr>cx_stats := StartTimer t0 (cx_stats (sc_bank s ! i))\<rparr> else sc_bank s ! j)"
      using v_transpose(1) assms(4) len by (simp add: set_stats_def)
    then show ?thesis
      using book timing v_transpose(1) by (auto simp: slot_count_ok_def untimed_def signalled_def StartTimer_def)
  next
    case (v_wake f name w)
    have timing: "\<not> sc_timing s" using service_invD(6) [OF inv] v_wake(2) by auto
    have name: "name = futex_name ?c" using slot(4) v_wake(3,4) by (auto simp: slot_of_client_def)
    have "sys_inv (G ?c) (view G s ?c)" using assms(1) by (simp add: in_order_def)
    then have zero: "st_words (sc_store s) (futex_name ?c) = 0"
      using v_wake(2) served by (cases "sc_clients s ?c") (auto simp: sys_inv_def view_simps)
    show ?thesis
      using book timing v_wake(1,5) name zero served same
      by (cases "j = i") (simp_all add: slot_count_ok_def untimed_def signalled_def name_uses)
  next
    case (v_stop_timer t1)
    have "sc_bank t ! j = (if j = i then (sc_bank s ! i)\<lparr>cx_stats := StopTimer t1 (cx_stats (sc_bank s ! i))\<rparr> else sc_bank s ! j)"
      using v_stop_timer(1) assms(4) len by (simp add: set_stats_def)
    then show ?thesis
      using book v_stop_timer served same
      by (cases "j = i") (simp_all add: slot_count_ok_def untimed_def signalled_def served_def StopTimer_def)
  next
    case (v_empty q name v x d)
    then show ?thesis using book by (simp add: slot_count_ok_def untimed_def signalled_def)
  qed (use book in \<open>simp_all add: slot_count_ok_def untimed_def signalled_def\<close>)
qed

text \<open>A slot that has just been filled has no requests, and its client has made none.\<close>

lemma new_slot_counts:
  assumes "session_ok G socket s" "sr_handler (ss_srv s) = H_Add_Write sk c m n k i" "counts_inv G s" "cx_stats ctx = new_stats"
  shows "slot_count_ok (ss_service s) (st_TotalRequests (cw_stats (ss_work s c))) c ctx"
proof -
  note inv = session_invD [OF session_okD(2) [OF assms(1)]]
  have stage: "ss_point s c = M_Await" "\<not> subscribed (ss_bank s) c"
    using inv(5) [of c] assms(2) by (cases "ss_point s c"; simp add: stage_now_def)+
  then have start: "sc_clients (ss_service s) c = CL_Next 0 0" using inv(6) [of c] by simp
  then have "st_TotalRequests (cw_stats (ss_work s c)) = 0" using assms(3) by (simp add: counts_inv_def)
  moreover have "signalled (ss_service s) c = 0"
    using session_okD(8) [OF assms(1), of c] start by (simp add: sys_inv_def view_simps signalled_def)
  moreover have "served (ss_service s) \<noteq> Some c"
  proof
    assume "served (ss_service s) = Some c"
    then obtain j where j: "sr_dispatcher (ss_srv s) = D_Serve j" "cx_id (ss_bank s ! j) = c"
      by (auto simp: served_def split: dispatcher_pc.splits)
    from serving_slot(1,3) [OF inv(1) j(1)] stage(2) j(2) show False by (auto simp: subscribed_def)
  qed
  ultimately show ?thesis using assms(4) by (simp add: slot_count_ok_def untimed_def new_stats_def)
qed

lemma counts_handler:
  assumes "session_ok G socket s" "counts_inv G s" "handler_step E (ss_srv s) r"
    "ss_service t = (ss_service s)\<lparr>sc_srv := r\<rparr>" "ss_work t = ss_work s"
  shows "counts_inv G t"
proof -
  have served: "served ((ss_service s)\<lparr>sc_srv := r\<rparr>) = served (ss_service s)"
    by (rule handler_served [OF session_okD(5) [OF assms(1)] assms(3)])
  have books: "slot_count_ok ((ss_service s)\<lparr>sc_srv := r\<rparr>) n c ctx = slot_count_ok (ss_service s) n c ctx" for n c ctx
    by (simp add: slot_count_ok_def untimed_def signalled_def served)
  have len: "length (ss_bank s) = MAX_CLIENTS" using srv_invD(2) [OF session_okD(6) [OF assms(1)]] .
  have old: "slot_count_ok (ss_service s) (st_TotalRequests (cw_stats (ss_work s (cx_id (ss_bank s ! j))))) (cx_id (ss_bank s ! j)) (ss_bank s ! j)"
    if "j < MAX_CLIENTS" "cx_subscribed (ss_bank s ! j)" for j
    by (rule counts_invD(3) [OF assms(2) that refl])
  have "slot_count_ok (ss_service s) (st_TotalRequests (cw_stats (ss_work s (cx_id (ws_clientBank (sr_ws r) ! j)))))
      (cx_id (ws_clientBank (sr_ws r) ! j)) (ws_clientBank (sr_ws r) ! j)"
    if "j < MAX_CLIENTS" "cx_subscribed (ws_clientBank (sr_ws r) ! j)" for j
    using assms(3)
  proof cases
    case (h_written sk c m n k i ctx kern)
    have ctx: "cx_id ctx = c" using setup_context_result [OF h_written(3)] by simp
    from new_slot_counts [OF assms(1) h_written(2) assms(2) setup_context_stats [OF h_written(3)]]
    show ?thesis using old [OF that(1)] that ctx len h_written(1) by (cases "j = i") simp_all
  next
    case (h_failed sk c m n k i ctx kern)
    have "\<not> cx_subscribed ctx" using setup_context_result [OF h_failed(3)] by simp
    then show ?thesis using old [OF that(1)] that len h_failed(1) by (cases "j = i") simp_all
  next
    case (h_rem_done i)
    then show ?thesis using old [OF that(1)] that len by (cases "j = i") simp_all
  qed (use old that in simp_all)
  then show ?thesis by (intro counts_server [OF assms(2)]) (simp_all add: books assms(4,5))
qed

lemma counts_step:
  assumes "session_ok G socket s" "session_step E G socket s t" "counts_inv G s"
  shows "counts_inv G t"
  using assms(2)
proof cases
  note inv = session_okD [OF assms(1)]
  {
    case (m_request c sv v w now)
    have place: "place_ok (G c) (sc_clients sv c)" using assms(3) m_request(3) by (simp add: counts_inv_def)
    have word: "sy_word (view G sv c) = 1 \<or> sy_word (view G sv c) = 0"
      using word_cases [OF inv(3)] m_request(3) by (simp add: view_simps)
    note step = client_step_counts [OF m_request(4), unfolded view_simps(4), OF place]
    have old: "slot_count_ok sv (st_TotalRequests (cw_stats (ss_work s d))) d (sc_bank sv ! j)"
      if "j < MAX_CLIENTS" "cx_subscribed (sc_bank sv ! j)" "cx_id (sc_bank sv ! j) = d" for j d
      using counts_invD(3) [OF assms(3)] that unfolding m_request(3) by blast
    have sig: "signalled sv c = signalled (ss_service t) c + answers (sc_clients sv c) (sy_client v)"
      using step(3) [OF word] m_request(1) by (simp add: signalled_def view_simps)
    have same: "untimed (ss_service t) d = untimed sv d" "d \<noteq> c \<Longrightarrow> signalled (ss_service t) d = signalled sv d" for d
      using m_request(1) by (simp_all add: untimed_def signalled_def name_uses)
    have "slot_count_ok (ss_service t) (st_TotalRequests (cw_stats (ss_work t d))) d (ss_bank t ! j)"
      if "j < MAX_CLIENTS" "cx_subscribed (ss_bank t ! j)" "cx_id (ss_bank t ! j) = d" for j d
      using old [of j d] that m_request(1,3,5) sig same [of d]
      by (cases "d = c") (simp_all add: slot_count_ok_def client_timer_counts algebra_simps)
    moreover have "place_ok (G d) (sc_clients (ss_service t) d) \<and>
        st_TotalRequests (cw_stats (ss_work t d)) = of_nat (requests_done (G d) (sc_clients (ss_service t) d))" for d
      using assms(3) m_request(1,3,5) step(1,2) by (cases "d = c") (simp_all add: counts_inv_def client_timer_counts)
    ultimately show ?thesis unfolding counts_inv_def by blast
  next
    case (s_handler r)
    from counts_handler [OF assms(1,3) s_handler(3)] s_handler(1) show ?thesis by simp
  next
    case (s_receive c msg rest ws)
    from counts_handler [OF assms(1,3) handler_receives [OF s_receive(2)]] s_receive(1,4) show ?thesis by simp
  next
    case s_stop
    have "slot_count_ok (ss_service t) n c ctx = slot_count_ok (ss_service s) n c ctx" for n c ctx
      using s_stop by (simp add: slot_count_ok_def untimed_def signalled_def)
    then show ?thesis
      by (intro counts_server [OF assms(3)]) (use s_stop counts_invD(3) [OF assms(3) _ _ refl] in simp_all)
  next
    case (s_dispatcher r)
    have "\<forall>i. sr_dispatcher (ss_srv s) \<noteq> D_Serve i" using s_dispatcher(3) by (auto simp: served_def)
    from dispatcher_keeps(1) [OF s_dispatcher(2) this] have bank: "ws_clientBank (sr_ws r) = ss_bank s" .
    have "\<not> sc_timing (ss_service s)" using service_invD(5) [OF inv(5) s_dispatcher(3)] .
    then have same: "slot_count_ok ((ss_service s)\<lparr>sc_srv := r\<rparr>) n c ctx = slot_count_ok (ss_service s) n c ctx" for n c ctx
      by (simp add: slot_count_ok_def untimed_def signalled_def)
    show ?thesis
      by (rule counts_server [OF assms(3)]) (use s_dispatcher(1) bank counts_invD(3) [OF assms(3) _ _ refl] in \<open>simp_all add: same\<close>)
  next
    case (s_serve i v)
    have "slot_count_ok v (st_TotalRequests (cw_stats (ss_work s (cx_id (ss_bank s ! j))))) (cx_id (ss_bank s ! j)) (sc_bank v ! j)"
      if "j < MAX_CLIENTS" "cx_subscribed (ss_bank s ! j)" for j
      by (rule serve_counts [OF inv(3) s_serve(2,3) that counts_invD(3) [OF assms(3) that refl]])
    then show ?thesis
      by (intro counts_server [OF assms(3)])
        (use s_serve(1) serve_keeps(5,6) [OF s_serve(3)] serve_same_stage(2) [OF s_serve(3)] in simp_all)
  next
    case (m_message msgs c)
    then show ?thesis by (intro counts_same [OF assms(3)]) (simp_all add: ClientMessageHandler_def)
  }
qed (rule counts_same [OF assms(3)], simp, simp)+

lemma counts_run:
  assumes "(session_step E G socket)\<^sup>*\<^sup>* s t" "session_ok G socket s" "counts_inv G s"
  shows "counts_inv G t"
  using assms(1)
proof (induction rule: rtranclp_induct)
  case (step t u)
  show ?case by (rule counts_step [OF session_run_ok [OF step.hyps(1) assms(2)] step.hyps(2) step.IH])
qed (rule assms(3))

lemma counts_start:
  assumes "server_main S hardware argv pid net = (Inr (Some (ipc, ws)), net')" "work_ready G work"
  shows "counts_inv G (session_start ws kern store work)"
proof -
  have bank: "ws_clientBank ws = replicate MAX_CLIENTS new_context" using server_main_workspace(1) [OF assms(1)] by simp
  have "place_ok (G c) (CL_Next 0 0)" for c by (cases "sg_repetitions (G c) = 0") (auto simp: word_neq_0_conv)
  then show ?thesis
    using assms(2)
    by (auto simp: counts_inv_def session_start_def service_start_def srv_start_def bank new_context_def work_ready_def new_stats_def)
qed

text \<open>The two totals when the handler comes to the unsubscription.\<close>

lemma log_totals:
  assumes "session_ok G socket t" "counts_inv G t" "sr_handler (ss_srv t) = H_Idle" "ss_wire t c = msg # rest" "msg_type msg = MT_Unsubscribe"
  shows "GetTotalRequests (cw_stats (ss_work t c)) = of_nat (unat (sg_repetitions (G c)) * unat (sg_k (G c))) \<and>
    (\<exists>i < MAX_CLIENTS. message_log (sr_ws (ss_srv t)) msg = [slot_log (ss_bank t ! i)] \<and> cx_id (ss_bank t ! i) = c \<and>
      GetTotalRequests (cx_stats (ss_bank t ! i)) = GetTotalRequests (cw_stats (ss_work t c)) -
        (if served (ss_service t) = Some c \<and> sc_timing (ss_service t) then 1 else 0))"
proof -
  note ok = assms(1) and counts = counts_invD [OF assms(2)]
  note inv = session_invD [OF session_okD(2) [OF ok]]
  have stage: "subscribed (ss_bank t) c" "ss_point t c \<noteq> M_Subscribe \<and> ss_point t c \<noteq> M_Await \<and> ss_point t c \<noteq> M_Requests"
    using inv(5) [of c] assms(3-5) by (cases "ss_point t c"; auto simp: stage_now_def message_types split: if_splits)+
  then have fin: "sc_clients (ss_service t) c = CL_Done" using inv(6) [of c] by (cases "ss_point t c") simp_all
  then have mine: "GetTotalRequests (cw_stats (ss_work t c)) = of_nat (unat (sg_repetitions (G c)) * unat (sg_k (G c)))"
    using counts(2) [of c] by (simp add: GetTotalRequests_def)
  have "ClientExists (sr_ws (ss_srv t)) c \<noteq> None" using stage(1) ClientExists_subscribed by blast
  then obtain i where i: "ClientExists (sr_ws (ss_srv t)) c = Some i" by blast
  note slot = ClientExists_Some [OF i]
  have "senderId msg = c" using inv(4) [of c] assms(4) by (simp add: message_ok_def)
  then have log: "message_log (sr_ws (ss_srv t)) msg = [slot_log (ss_bank t ! i)]"
    using assms(5) i by (simp add: message_log_def ProcessSubscribeMessage_def ProcessUnsubscribeMessage_def message_types)
  have "signalled (ss_service t) c = 0"
    using session_okD(8) [OF ok, of c] fin by (simp add: sys_inv_def view_simps signalled_def)
  with counts(3) [OF slot] have "GetTotalRequests (cx_stats (ss_bank t ! i)) + of_nat (untimed (ss_service t) c) =
      GetTotalRequests (cw_stats (ss_work t c))"
    by (simp add: slot_count_ok_def GetTotalRequests_def)
  then have "GetTotalRequests (cx_stats (ss_bank t ! i)) = GetTotalRequests (cw_stats (ss_work t c)) -
        (if served (ss_service t) = Some c \<and> sc_timing (ss_service t) then 1 else 0)"
    by (auto simp: untimed_def algebra_simps split: if_splits)
  with mine log slot show ?thesis by blast
qed

section \<open>A request that is missed\<close>

text \<open>Once it has work to do the dispatcher comes to the point between waking the client and stopping the timer.\<close>

lemma reach_timing:
  assumes "in_order G s" "sr_dispatcher (sc_srv s) = D_Serve i" "c = cx_id (sc_bank s ! i)" "\<not> sc_timing s"
    "sc_worker s \<noteq> SV_Poll \<or> sl_elems (st_queues (sc_store s) (queue_name c)) \<noteq> []"
  shows "\<exists>t. (calm_step c G)\<^sup>*\<^sup>* s t \<and> sr_dispatcher (sc_srv t) = D_Serve i \<and> cx_id (sc_bank t ! i) = c \<and> sc_timing t \<and>
    st_words (sc_store t) (futex_name c) = 1 \<and> sc_clients t = sc_clients s"
  using assms
proof (induction "serve_rank s" arbitrary: s rule: less_induct)
  case less
  have inv: "service_inv G s" using less.prems(1) by (simp add: in_order_def)
  obtain t where t: "serve_step i (sc_bank s ! i) s t" "sr_dispatcher (sc_srv t) = D_Serve i" "sc_worker t \<noteq> sc_worker s"
      "serve_rank t < serve_rank s"
    using serve_next [OF less.prems(1,2)] less.prems(3-5) by force
  have step: "calm_step c G s t" by (rule calm_serve [OF less.prems(2) t(1)])
  have ord: "in_order G t" by (rule in_order_calm [OF r_into_rtranclp [of "calm_step c G", OF step] less.prems(1)])
  have id: "cx_id (sc_bank t ! i) = c" using serve_keeps(5) [OF t(1)] less.prems(3) by simp
  note clients = serve_same_stage(2) [OF t(1)]
  show ?case
  proof (cases "sc_timing t")
    case True
    then have poll: "sc_worker t = SV_Poll" using service_invD(6) ord by (auto simp: in_order_def)
    then have view: "sy_server (view G t c) = SV_Poll" "sy_server (view G s c) \<noteq> SV_Poll"
      using t(2,3) id less.prems(2,3) by (simp_all add: view_simps served_def)
    then have "server_step (G c) (view G s c) (view G t c)"
      using serve_own [OF inv less.prems(2) t(1) less.prems(3)] by auto
    then have "sy_word (view G t c) \<noteq> 0" using view by cases simp_all
    then show ?thesis
      using step t(2) id True clients word_cases [OF ord, of c] by (intro exI [of _ t]) (auto simp: view_simps)
  next
    case False
    have "sc_worker t \<noteq> SV_Poll"
      using t(4) False less.prems(4) by (auto simp: serve_rank_def split: worker.splits)
    from less.hyps [OF t(4) ord t(2) id [symmetric] False] this obtain u where
      "(calm_step c G)\<^sup>*\<^sup>* t u" "sr_dispatcher (sc_srv u) = D_Serve i" "cx_id (sc_bank u ! i) = c" "sc_timing u"
      "st_words (sc_store u) (futex_name c) = 1" "sc_clients u = sc_clients t" by blast
    with step clients show ?thesis by (intro exI [of _ u]) (auto intro: converse_rtranclp_into_rtranclp)
  qed
qed

text \<open>A step of the client leaves the dispatcher there.\<close>

lemma timing_client:
  assumes "client_step (G c) (view G s c) v" "sr_dispatcher (sc_srv s) = D_Serve i" "sc_timing s"
  shows "\<exists>t. calm_step c G s t \<and> sr_dispatcher (sc_srv t) = D_Serve i \<and> sc_timing t \<and> sc_srv t = sc_srv s \<and>
    sc_clients t c = sy_client v \<and> st_words (sc_store t) (futex_name c) = sy_word v"
  by (rule exI, rule conjI, rule calm_client [OF assms(1)]) (simp add: assms(2,3))

lemma demo_missed:
  "\<exists>t msg. (session_step demo_env demo_clients demo_socket)\<^sup>*\<^sup>* demo_session t \<and> sr_handler (ss_srv t) = H_Idle \<and>
     ss_wire t 7 = [msg] \<and> msg_type msg = MT_Unsubscribe \<and> served (ss_service t) = Some 7 \<and> sc_timing (ss_service t)"
proof -
  let ?G = "demo_clients" and ?S = "session_step demo_env demo_clients demo_socket"
  obtain a where a: "?S\<^sup>*\<^sup>* demo_session a" "ss_point a 7 = M_Requests" "sr_handler (ss_srv a) = H_Idle"
      "sr_dispatcher (ss_srv a) = D_Top" "ws_running (sr_ws (ss_srv a))" "cx_subscribed (ss_bank a ! 0)" "cx_id (ss_bank a ! 0) = 7"
      "sc_clients (ss_service a) 7 = CL_Next 0 0"
    using demo_requesting by blast
  have ok: "session_ok ?G demo_socket a"
    by (rule session_run_ok [OF a(1) session_start_ok [OF demo_main demo_service_ok demo_session_ok(2,3,1)]])
  let ?s = "ss_service a" and ?v = "view ?G (ss_service a) 7"
  have conf: "sg_repetitions (?G 7) = 1" "sg_k (?G 7) = 1" by (simp_all add: demo_clients_def demo_config_def)
  have q0: "sl_ok (REQ_QUEUE_CAPACITY - 1) (sy_queue ?v)" "sl_elems (sy_queue ?v) = []"
    using session_okD(8) [OF ok, of 7] a(8) by (simp_all add: sys_inv_def view_simps)
  obtain q where q: "sl_Enqueue (REQ_QUEUE_CAPACITY - 1) 0 (sy_queue ?v) = Some (True, q)" "sl_elems q = [0]"
    using sl.enq_room [OF q0(1), of 0] q0(2) unat_req_mask by auto
  have "client_step (?G 7) ?v (?v\<lparr>sy_client := CL_Wait 0 0, sy_queue := q\<rparr>)"
    by (rule c_enqueue) (use a(8) conf q(1) in \<open>simp_all add: view_simps\<close>)
  from calm_client [OF this] obtain b where b: "calm_step 7 ?G ?s b" "sc_srv b = ss_srv a" "sc_clients b 7 = CL_Wait 0 0"
      "sl_elems (st_queues (sc_store b) (queue_name 7)) = [0]" using q(2) by force
  have ord: "in_order ?G b" by (rule in_order_calm [OF r_into_rtranclp [of "calm_step 7 ?G", OF b(1)] session_okD(3) [OF ok]])
  have "0 \<in> valid_slots (sc_srv b)"
    using srv_invD(4) [OF session_okD(6) [OF ok]] a(3,6) b(2) by (auto simp: subscribed_slots_def MAX_CLIENTS_def)
  then have ready: "slot_ready ?G 0 b" using ord a b(2) by (simp add: slot_ready_def)
  have "sy_server (view ?G b (cx_id (sc_bank b ! 0))) = SV_Poll" using a(4) b(2) by (simp add: view_simps served_def)
  with reach_slot [OF ready, of 7] a(4) b(2) obtain u where u: "detour 7 ?G 0 b u" "at_slot 0 u" by auto
  have view: "view ?G u 7 = view ?G b 7" "cx_id (sc_bank u ! 0) = 7" "(calm_step 7 ?G)\<^sup>*\<^sup>* b u" "in_order ?G u"
    using u(1) a(7) b(2) by (simp_all add: detour_def keeps_slot_def slot_ready_def)
  then have "sc_clients u 7 = CL_Wait 0 0" "sl_elems (st_queues (sc_store u) (queue_name 7)) = [0]"
    using b(3,4) view_simps(1,4) by metis+
  with reach_timing [OF view(4) _ view(2) [symmetric]] u(2) obtain t where t: "(calm_step 7 ?G)\<^sup>*\<^sup>* u t"
      "sr_dispatcher (sc_srv t) = D_Serve 0" "cx_id (sc_bank t ! 0) = 7" "sc_timing t"
      "st_words (sc_store t) (futex_name 7) = 1" "sc_clients t 7 = CL_Wait 0 0" by (auto simp: at_slot_def)
  have "client_step (?G 7) (view ?G t 7) ((view ?G t 7)\<lparr>sy_client := CL_Next 0 (0 + 1), sy_word := 0\<rparr>)"
    by (rule c_wait) (use t(5,6) in \<open>simp_all add: view_simps\<close>)
  from timing_client [OF this t(2,4)] obtain t1 where t1: "calm_step 7 ?G t t1" "sr_dispatcher (sc_srv t1) = D_Serve 0"
      "sc_timing t1" "sc_srv t1 = sc_srv t" "sc_clients t1 7 = CL_Next 0 1" by auto
  have "client_step (?G 7) (view ?G t1 7) ((view ?G t1 7)\<lparr>sy_client := CL_Next (0 + 1) 0\<rparr>)"
    using c_repeat [of "view ?G t1 7" 0 1 "?G 7"] t1(5) conf by (simp add: view_simps)
  from timing_client [OF this t1(2,3)] obtain t2 where t2: "calm_step 7 ?G t1 t2" "sr_dispatcher (sc_srv t2) = D_Serve 0"
      "sc_timing t2" "sc_srv t2 = sc_srv t1" "sc_clients t2 7 = CL_Next 1 0" by auto
  have "client_step (?G 7) (view ?G t2 7) ((view ?G t2 7)\<lparr>sy_client := CL_Done\<rparr>)"
    using c_done [of "view ?G t2 7" 1 0 "?G 7"] t2(5) conf by (simp add: view_simps)
  from timing_client [OF this t2(2,3)] obtain t3 where t3: "calm_step 7 ?G t2 t3" "sr_dispatcher (sc_srv t3) = D_Serve 0"
      "sc_timing t3" "sc_srv t3 = sc_srv t2" "sc_clients t3 7 = CL_Done" by auto
  have run: "(calm_step 7 ?G)\<^sup>*\<^sup>* ?s t3"
    by (rule converse_rtranclp_into_rtranclp [of "calm_step 7 ?G", OF b(1)], rule rtranclp_trans [OF view(3)], rule rtranclp_trans [OF t(1)],
        rule converse_rtranclp_into_rtranclp [of "calm_step 7 ?G", OF t1(1)], rule converse_rtranclp_into_rtranclp [of "calm_step 7 ?G", OF t2(1)],
        rule r_into_rtranclp, rule t3(1))
  obtain c where c: "?S\<^sup>*\<^sup>* a c" "ss_service c = t3" "ss_point c = ss_point a" using calm_run_session [OF run a(2)] by blast
  have okc: "session_ok ?G demo_socket c" by (rule session_run_ok [OF c(1) ok])
  have "ss_wire c 7 = []" using session_invD(5) [OF session_okD(2) [OF okc], of 7] c(3) a(2) by (simp add: stage_now_def)
  moreover obtain d where d: "?S c d" "ss_service d = ss_service c" "ss_wire d 7 = ss_wire c 7 @ [client_unsubscribe undefined (ss_work c 7)]"
    using m_unsubscribe [of c 7 demo_env ?G demo_socket undefined] c(2,3) a(2) t3(5) by fastforce
  ultimately have "ss_wire d 7 = [client_unsubscribe undefined (ss_work c 7)]" by simp
  moreover have "?S\<^sup>*\<^sup>* demo_session d" using a(1) c(1) d(1) by (meson rtranclp.rtrancl_into_rtrancl rtranclp_trans)
  moreover have "sr_handler (ss_srv d) = H_Idle" using calm_run_keeps [OF run] a(3) c(2) d(2) by simp
  moreover have "served (ss_service d) = Some 7" using t3(2,4) t2(4) t1(4) t(3) c(2) d(2) by (simp add: served_def)
  moreover have "sc_timing (ss_service d)" using t3(3) c(2) d(2) by simp
  moreover have "msg_type (client_unsubscribe undefined (ss_work c 7)) = MT_Unsubscribe"
    by (simp add: client_unsubscribe_def GenerateUnsubscribeMessage_def)
  ultimately show ?thesis by blast
qed

section \<open>Properties\<close>

text \<open>Property C8: the log lines tell the truth but for one request. When the handler comes to the
  unsubscription of a client, the client has counted exactly \<open>repetitions * k\<close> requests; the line the
  server logs is that of the client's slot, and the total in it is the same number, or one less, and
  then exactly when the dispatcher has woken the client for its last request and not stopped the timer yet.\<close>

theorem log_counts_requests:
  assumes "server_main S hardware argv pid net = (Inr (Some (ipc, ws)), net')" "store_ready G store"
    "\<forall>c. config_ok (G c) \<and> sg_threads (G c) = ws_numWorkerThreads ws" "work_ready G work" "references_ready G store"
    "inj socket" "(session_step E G socket)\<^sup>*\<^sup>* (session_start ws kern store work) t"
    "sr_handler (ss_srv t) = H_Idle" "ss_wire t c = msg # rest" "msg_type msg = MT_Unsubscribe"
  shows "GetTotalRequests (cw_stats (ss_work t c)) = of_nat (unat (sg_repetitions (G c)) * unat (sg_k (G c))) \<and>
    (\<exists>i < MAX_CLIENTS. message_log (sr_ws (ss_srv t)) msg = [slot_log (ss_bank t ! i)] \<and> cx_id (ss_bank t ! i) = c \<and>
      GetTotalRequests (cx_stats (ss_bank t ! i)) = GetTotalRequests (cw_stats (ss_work t c)) -
        (if served (ss_service t) = Some c \<and> sc_timing (ss_service t) then 1 else 0))"
proof -
  have start: "session_ok G socket (session_start ws kern store work)" by (rule session_start_ok [OF assms(1-6)])
  show ?thesis
    by (rule log_totals [OF session_run_ok [OF assms(7) start] counts_run [OF assms(7) start counts_start [OF assms(1,4)]] assms(8-10)])
qed

theorem log_counts_requests_witness:
  "\<exists>t msg. (session_step demo_env demo_clients demo_socket)\<^sup>*\<^sup>* demo_session t \<and> ss_wire t 7 = [msg] \<and>
     GetTotalRequests (cw_stats (ss_work t 7)) = 1"
proof -
  obtain t msg where t: "(session_step demo_env demo_clients demo_socket)\<^sup>*\<^sup>* demo_session t" "sr_handler (ss_srv t) = H_Idle"
      "ss_wire t 7 = [msg]" "msg_type msg = MT_Unsubscribe"
    using demo_missed by blast
  from log_counts_requests [OF demo_main demo_service_ok demo_session_ok(2,3,1) t] t(1,3) show ?thesis
    by (intro exI [of _ t] exI [of _ msg]) (simp add: demo_clients_def demo_config_def)
qed

text \<open>A request can go missing in the server's log. There is a run in which a client has made
  one request and unsubscribes, and the line the server then logs for it says that it made none: the
  dispatcher has woken the client but not yet stopped the timer that counts the request.\<close>

theorem log_misses_request:
  "\<exists>t msg i. (session_step demo_env demo_clients demo_socket)\<^sup>*\<^sup>* demo_session t \<and> sr_handler (ss_srv t) = H_Idle \<and>
     ss_wire t 7 = [msg] \<and> message_log (sr_ws (ss_srv t)) msg = [slot_log (ss_bank t ! i)] \<and> cx_id (ss_bank t ! i) = 7 \<and>
     GetTotalRequests (cw_stats (ss_work t 7)) = 1 \<and> GetTotalRequests (cx_stats (ss_bank t ! i)) = 0"
proof -
  obtain t msg where t: "(session_step demo_env demo_clients demo_socket)\<^sup>*\<^sup>* demo_session t" "sr_handler (ss_srv t) = H_Idle"
      "ss_wire t 7 = [msg]" "msg_type msg = MT_Unsubscribe" "served (ss_service t) = Some 7" "sc_timing (ss_service t)"
    using demo_missed by blast
  have start: "session_ok demo_clients demo_socket demo_session"
    by (rule session_start_ok [OF demo_main demo_service_ok demo_session_ok(2,3,1)])
  from log_totals [OF session_run_ok [OF t(1) start] counts_run [OF t(1) start counts_start [OF demo_main demo_session_ok(2)]] t(2-4)] t(5,6)
  obtain i where "message_log (sr_ws (ss_srv t)) msg = [slot_log (ss_bank t ! i)]" "cx_id (ss_bank t ! i) = 7"
      "GetTotalRequests (cw_stats (ss_work t 7)) = 1" "GetTotalRequests (cx_stats (ss_bank t ! i)) = 0"
    by (auto simp: demo_clients_def demo_config_def)
  with t(1-3) show ?thesis by blast
qed

end
