(* ===== verification/Weak_Memory.thy ===== *)
theory Weak_Memory
  imports Prelude
begin

text \<open>
  The memory of the C++ abstract machine as far as the program uses it: atomic objects with relaxed,
  acquire and release accesses, and plain objects on which a data race is undefined behaviour. An atomic
  object is the list of the values stored to it (its modification order); a load may return any value that
  is not older than one the thread has seen. Each thread has a view: how far it has seen each atomic object,
  and up to which event of each thread what has happened there happens before its own next event. A release
  store attaches the view of the thread to the value, an acquire load takes it over. That is how
  happens-before arises, and an access to a plain object races when an earlier conflicting access is not in
  the view.
\<close>

section \<open>Views\<close>

datatype memory_order = MO_Relaxed | MO_Acquire | MO_Release | MO_AcqRel

fun acquires :: "memory_order \<Rightarrow> bool" where
  "acquires MO_Relaxed = False"
| "acquires MO_Acquire = True"
| "acquires MO_Release = False"
| "acquires MO_AcqRel = True"

fun releases :: "memory_order \<Rightarrow> bool" where
  "releases MO_Relaxed = False"
| "releases MO_Acquire = False"
| "releases MO_Release = True"
| "releases MO_AcqRel = True"

text \<open>An entry for each atomic object, the index of the newest value seen, and a clock for each thread.\<close>

datatype ('l, 't) stamp = Seen 'l | Clk 't

type_synonym ('l, 't) view = "('l, 't) stamp \<Rightarrow> nat"

definition join :: "('l, 't) view \<Rightarrow> ('l, 't) view \<Rightarrow> ('l, 't) view" where
  "join v w = (\<lambda>k. max (v k) (w k))"

lemma join_apply [simp]: "join v w k = max (v k) (w k)"
  by (simp add: join_def)

text \<open>
  \<open>'l\<close> are the atomic objects, with values \<open>'a\<close>; \<open>'n\<close> the plain ones, with values \<open>'b\<close>; \<open>'t\<close> the threads.
  \<open>mm_writes\<close> and \<open>mm_reads\<close> are the clocks at which each thread has last written and read a plain object.
\<close>

record ('l, 'n, 't, 'a, 'b) memory =
  mm_hist :: "'l \<Rightarrow> ('a \<times> ('l, 't) view) list"
  mm_view :: "'t \<Rightarrow> ('l, 't) view"
  mm_plain :: "'n \<Rightarrow> 'b"
  mm_writes :: "'n \<Rightarrow> 't \<Rightarrow> nat"
  mm_reads :: "'n \<Rightarrow> 't \<Rightarrow> nat"

text \<open>A memory that all threads know: each atomic object has its initial value.\<close>

definition new_memory :: "('l \<Rightarrow> 'a) \<Rightarrow> ('n \<Rightarrow> 'b) \<Rightarrow> ('l, 'n, 't, 'a, 'b) memory" where
  "new_memory init plain = \<lparr>mm_hist = (\<lambda>l. [(init l, \<lambda>_. 0)]), mm_view = (\<lambda>_ _. 0), mm_plain = plain,
     mm_writes = (\<lambda>_ _. 0), mm_reads = (\<lambda>_ _. 0)\<rparr>"

section \<open>Atomic accesses\<close>

text \<open>A load returns the value with the index \<open>i\<close>; \<open>None\<close> when this value cannot be returned.\<close>

definition atomic_load ::
  "memory_order \<Rightarrow> 't \<Rightarrow> 'l \<Rightarrow> nat \<Rightarrow> ('l, 'n, 't, 'a, 'b) memory \<Rightarrow> ('a \<times> ('l, 'n, 't, 'a, 'b) memory) option" where
  "atomic_load ord t l i M =
     (if mm_view M t (Seen l) \<le> i \<and> i < length (mm_hist M l)
      then (let (v, w) = mm_hist M l ! i; view = (mm_view M t)(Seen l := i)
            in Some (v, M\<lparr>mm_view := (mm_view M)(t := if acquires ord then join view w else view)\<rparr>))
      else None)"

text \<open>
  A store appends its value. The modification order need not be the order in time: a store comes after the
  values its thread has seen, and could come before others. \<open>None\<close> stands for a store of a thread that has
  not seen the newest value, and the programs below are shown to make none.
\<close>

definition atomic_store ::
  "memory_order \<Rightarrow> 't \<Rightarrow> 'l \<Rightarrow> 'a \<Rightarrow> ('l, 'n, 't, 'a, 'b) memory \<Rightarrow> ('l, 'n, 't, 'a, 'b) memory option" where
  "atomic_store ord t l v M =
     (let h = mm_hist M l; view = (mm_view M t)(Seen l := length h)
      in if Suc (mm_view M t (Seen l)) = length h
         then Some (M\<lparr>mm_hist := (mm_hist M)(l := h @ [(v, if releases ord then view else (\<lambda>_. 0)(Seen l := length h))]),
                      mm_view := (mm_view M)(t := view)\<rparr>)
         else None)"

text \<open>A read-modify-write reads the newest value and keeps the view attached to it.\<close>

definition atomic_rmw ::
  "memory_order \<Rightarrow> 't \<Rightarrow> 'l \<Rightarrow> ('a \<Rightarrow> 'a) \<Rightarrow> ('l, 'n, 't, 'a, 'b) memory \<Rightarrow> 'a \<times> ('l, 'n, 't, 'a, 'b) memory" where
  "atomic_rmw ord t l f M =
     (let h = mm_hist M l; (v, w) = last h; own = (mm_view M t)(Seen l := length h);
          view = (if acquires ord then join own w else own)
      in (v, M\<lparr>mm_hist := (mm_hist M)(l := h @ [(f v, if releases ord then join view w else w(Seen l := length h))]),
               mm_view := (mm_view M)(t := view)\<rparr>))"

lemma atomic_rmw_acqrel:
  fixes t :: 't and l :: 'l
  defines "view M \<equiv> join ((mm_view M t)(Seen l := length (mm_hist M l))) (snd (last (mm_hist M l)))"
  shows "snd (atomic_rmw MO_AcqRel t l f M) =
    M\<lparr>mm_hist := (mm_hist M)(l := mm_hist M l @ [(f (fst (last (mm_hist M l))), view M)]), mm_view := (mm_view M)(t := view M)\<rparr>"
proof -
  have "join (join v w) w = join v w" for v w :: "('l, 't) view" by (simp add: join_def)
  then show ?thesis by (simp add: atomic_rmw_def Let_def view_def split: prod.split)
qed

text \<open>
  A compare-and-swap succeeds as a read-modify-write, or fails as a load of a value other than the expected
  one, which need not be the newest (the second argument is the order it fails with). The choice \<open>Some i\<close> is
  the failure with the value of index \<open>i\<close>.
\<close>

definition atomic_cas ::
  "memory_order \<Rightarrow> memory_order \<Rightarrow> 't \<Rightarrow> 'l \<Rightarrow> 'a \<Rightarrow> 'a \<Rightarrow> nat option \<Rightarrow> ('l, 'n, 't, 'a, 'b) memory \<Rightarrow>
   (bool \<times> ('l, 'n, 't, 'a, 'b) memory) option" where
  "atomic_cas ord fail t l expected desired choice M =
     (case choice of
        None \<Rightarrow> if fst (last (mm_hist M l)) = expected then Some (True, snd (atomic_rmw ord t l (\<lambda>_. desired) M)) else None
      | Some i \<Rightarrow> (case atomic_load fail t l i M of
            None \<Rightarrow> None
          | Some (v, M') \<Rightarrow> if v = expected then None else Some (False, M')))"

section \<open>Plain accesses\<close>

text \<open>\<open>None\<close> is a data race.\<close>

definition plain_read ::
  "'t \<Rightarrow> 'n \<Rightarrow> ('l, 'n, 't, 'a, 'b) memory \<Rightarrow> ('b \<times> ('l, 'n, 't, 'a, 'b) memory) option" where
  "plain_read t n M =
     (if \<forall>u. mm_writes M n u \<le> mm_view M t (Clk u)
      then (let c = Suc (mm_view M t (Clk t))
            in Some (mm_plain M n, M\<lparr>mm_reads := (mm_reads M)(n := (mm_reads M n)(t := c)),
                                     mm_view := (mm_view M)(t := (mm_view M t)(Clk t := c))\<rparr>))
      else None)"

definition plain_write ::
  "'t \<Rightarrow> 'n \<Rightarrow> 'b \<Rightarrow> ('l, 'n, 't, 'a, 'b) memory \<Rightarrow> ('l, 'n, 't, 'a, 'b) memory option" where
  "plain_write t n b M =
     (if \<forall>u. mm_writes M n u \<le> mm_view M t (Clk u) \<and> mm_reads M n u \<le> mm_view M t (Clk u)
      then (let c = Suc (mm_view M t (Clk t))
            in Some (M\<lparr>mm_plain := (mm_plain M)(n := b), mm_writes := (mm_writes M)(n := (mm_writes M n)(t := c)),
                       mm_view := (mm_view M)(t := (mm_view M t)(Clk t := c))\<rparr>))
      else None)"

lemmas memory_defs = atomic_load_def atomic_store_def atomic_rmw_def plain_read_def plain_write_def

text \<open>
  Without the views this is the memory of the interleavings: a thread that has seen the newest value of an
  atomic object can load that value only.
\<close>

lemma atomic_load_newest:
  assumes "Suc (mm_view M t (Seen l)) = length (mm_hist M l)" "atomic_load ord t l i M = Some (v, M')"
  shows "i = mm_view M t (Seen l)" "v = fst (mm_hist M l ! i)"
  using assms by (auto simp: atomic_load_def Let_def split: if_splits prod.splits)

text \<open>Views only grow.\<close>

lemma views_grow:
  "atomic_load ord t l i M = Some (v, M') \<Longrightarrow> mm_view M u k \<le> mm_view M' u k"
  "plain_read t n M = Some (b, M') \<Longrightarrow> mm_view M u k \<le> mm_view M' u k"
  "plain_write t n b M = Some M' \<Longrightarrow> mm_view M u k \<le> mm_view M' u k"
  by (auto simp: memory_defs Let_def split: if_splits prod.splits)

end
