(* ===== verification/Spsc_RingBuffer_RA.thy ===== *)
theory Spsc_RingBuffer_RA
  imports Spsc_RingBuffer Weak_Memory
begin

text \<open>
  The ring buffer queue with the memory orders it is written with, in the memory of \<open>Weak_Memory\<close>: the
  slots are plain objects, the indices atomic ones, and a thread may see an old value of the index of the
  other one.
\<close>

section \<open>The accesses and their orders\<close>

datatype ring_index = Head | Tail

datatype party = Producer | Consumer

text \<open>The four orders that synchronise; the loads of a thread's own index are relaxed.\<close>

record ring_orders =
  ro_enq_load_tail :: memory_order
  ro_enq_store_head :: memory_order
  ro_deq_load_head :: memory_order
  ro_deq_store_tail :: memory_order

definition rb_orders :: ring_orders where
  "rb_orders = \<lparr>ro_enq_load_tail = MO_Acquire, ro_enq_store_head = MO_Release,
     ro_deq_load_head = MO_Acquire, ro_deq_store_tail = MO_Release\<rparr>"

type_synonym ring_memory = "(ring_index, nat, party, u64, u32) memory"

text \<open>\<open>ra_undefined\<close> is set by a data race and by an access outside of the buffer.\<close>

record ra_sys =
  ra_mem :: ring_memory
  ra_prod :: rb_producer
  ra_cons :: rb_consumer
  ra_sent :: "u32 list"
  ra_received :: "u32 list"
  ra_undefined :: bool

text \<open>
  The next access of the producer and of the consumer. The item of a new \<open>Enqueue\<close> is \<open>x\<close>; a load returns
  the value with the index \<open>i\<close>, and \<open>None\<close> means that it cannot.
\<close>

definition ra_producer :: "ring_orders \<Rightarrow> u64 \<Rightarrow> u32 \<Rightarrow> nat \<Rightarrow> ra_sys \<Rightarrow> ra_sys option" where
  "ra_producer ords capacity x i s =
     (case ra_prod s of
        RP_Idle \<Rightarrow>
          (case atomic_load MO_Relaxed Producer Head i (ra_mem s) of
             None \<Rightarrow> None
           | Some (head, M) \<Rightarrow> Some (s\<lparr>ra_mem := M, ra_prod := RP_Loaded x head\<rparr>))
      | RP_Loaded item head \<Rightarrow>
          (case atomic_load (ro_enq_load_tail ords) Producer Tail i (ra_mem s) of
             None \<Rightarrow> None
           | Some (tail, M) \<Rightarrow>
               let nextHead = (head + 1) AND (capacity - 1)
               in Some (s\<lparr>ra_mem := M, ra_prod := if nextHead = tail then RP_Idle else RP_Checked item head nextHead\<rparr>))
      | RP_Checked item head nextHead \<Rightarrow>
          Some (case (if head < capacity then plain_write Producer (unat head) item (ra_mem s) else None) of
             None \<Rightarrow> s\<lparr>ra_undefined := True\<rparr>
           | Some M \<Rightarrow> s\<lparr>ra_mem := M, ra_prod := RP_Written item nextHead\<rparr>)
      | RP_Written item nextHead \<Rightarrow>
          Some (case atomic_store (ro_enq_store_head ords) Producer Head nextHead (ra_mem s) of
             None \<Rightarrow> s\<lparr>ra_undefined := True\<rparr>
           | Some M \<Rightarrow> s\<lparr>ra_mem := M, ra_prod := RP_Idle, ra_sent := ra_sent s @ [item]\<rparr>))"

definition ra_consumer :: "ring_orders \<Rightarrow> u64 \<Rightarrow> nat \<Rightarrow> ra_sys \<Rightarrow> ra_sys option" where
  "ra_consumer ords capacity i s =
     (case ra_cons s of
        RC_Idle \<Rightarrow>
          (case atomic_load MO_Relaxed Consumer Tail i (ra_mem s) of
             None \<Rightarrow> None
           | Some (tail, M) \<Rightarrow> Some (s\<lparr>ra_mem := M, ra_cons := RC_Loaded tail\<rparr>))
      | RC_Loaded tail \<Rightarrow>
          (case atomic_load (ro_deq_load_head ords) Consumer Head i (ra_mem s) of
             None \<Rightarrow> None
           | Some (head, M) \<Rightarrow> Some (s\<lparr>ra_mem := M, ra_cons := if tail = head then RC_Idle else RC_Checked tail\<rparr>))
      | RC_Checked tail \<Rightarrow>
          Some (case (if tail < capacity then plain_read Consumer (unat tail) (ra_mem s) else None) of
             None \<Rightarrow> s\<lparr>ra_undefined := True\<rparr>
           | Some (item, M) \<Rightarrow> s\<lparr>ra_mem := M, ra_cons := RC_Read tail item\<rparr>)
      | RC_Read tail item \<Rightarrow>
          Some (case atomic_store (ro_deq_store_tail ords) Consumer Tail ((tail + 1) AND (capacity - 1)) (ra_mem s) of
             None \<Rightarrow> s\<lparr>ra_undefined := True\<rparr>
           | Some M \<Rightarrow> s\<lparr>ra_mem := M, ra_cons := RC_Idle, ra_received := ra_received s @ [item]\<rparr>))"

inductive ra_step :: "ring_orders \<Rightarrow> u64 \<Rightarrow> ra_sys \<Rightarrow> ra_sys \<Rightarrow> bool" for ords :: ring_orders and capacity :: u64 where
  ra_producer: "ra_producer ords capacity x i s = Some t \<Longrightarrow> ra_step ords capacity s t"
| ra_consumer: "ra_consumer ords capacity i s = Some t \<Longrightarrow> ra_step ords capacity s t"

text \<open>What the producer's constructor has made, and the consumer has opened after it.\<close>

definition ra_start :: ra_sys where
  "ra_start = \<lparr>ra_mem = new_memory (\<lambda>_. 0) (\<lambda>_. 0), ra_prod = RP_Idle, ra_cons = RC_Idle, ra_sent = [],
     ra_received = [], ra_undefined = False\<rparr>"

section \<open>The invariant\<close>

text \<open>
  The histories of the two indices have one value for each item ever enqueued and dequeued, and the number
  of a value is the number of items. \<open>numbered\<close> is that, \<open>fresh\<close> says which slots a thread may touch: the
  slots that are not those of the items after the value \<open>i\<close> have last been used before it was stored.
\<close>

definition numbered :: "nat \<Rightarrow> nat \<Rightarrow> (u64 \<times> ('l, 't) view) list \<Rightarrow> bool" where
  "numbered N n h \<longleftrightarrow> length h = Suc n \<and> (\<forall>i \<le> n. unat (fst (h ! i)) = i mod N)"

definition slots_from :: "nat \<Rightarrow> nat \<Rightarrow> nat \<Rightarrow> nat set" where
  "slots_from N i j = (\<lambda>k. k mod N) ` {i..<j}"

definition fresh :: "nat \<Rightarrow> nat \<Rightarrow> nat \<Rightarrow> (u64 \<times> ('l, 't) view) list \<Rightarrow> 't \<Rightarrow> (nat \<Rightarrow> 't \<Rightarrow> nat) \<Rightarrow> bool" where
  "fresh N n n' h t use \<longleftrightarrow> (\<forall>i \<le> n. \<forall>slot. slot \<notin> slots_from N i n' \<longrightarrow> use slot t \<le> snd (h ! i) (Clk t))"

abbreviation enqueued :: "ra_sys \<Rightarrow> nat" where
  "enqueued s \<equiv> length (ra_sent s)"

abbreviation dequeued :: "ra_sys \<Rightarrow> nat" where
  "dequeued s \<equiv> length (ra_received s)"

text \<open>The item that a thread has put into, or taken from, its slot and not yet announced counts as well.\<close>

fun writing :: "rb_producer \<Rightarrow> nat" where
  "writing (RP_Written x nh) = 1"
| "writing _ = 0"

fun reading :: "rb_consumer \<Rightarrow> nat" where
  "reading (RC_Read t x) = 1"
| "reading _ = 0"

fun ra_prod_ok :: "nat \<Rightarrow> ra_sys \<Rightarrow> rb_producer \<Rightarrow> bool" where
  "ra_prod_ok N s RP_Idle = True"
| "ra_prod_ok N s (RP_Loaded x h) = (unat h = enqueued s mod N)"
| "ra_prod_ok N s (RP_Checked x h nh) = (unat h = enqueued s mod N \<and> unat nh = Suc (enqueued s) mod N \<and>
     Suc (enqueued s) < N + mm_view (ra_mem s) Producer (Seen Tail))"
| "ra_prod_ok N s (RP_Written x nh) = (unat nh = Suc (enqueued s) mod N \<and>
     Suc (enqueued s) < N + mm_view (ra_mem s) Producer (Seen Tail) \<and> mm_plain (ra_mem s) (enqueued s mod N) = x)"

fun ra_cons_ok :: "nat \<Rightarrow> ra_sys \<Rightarrow> rb_consumer \<Rightarrow> bool" where
  "ra_cons_ok N s RC_Idle = True"
| "ra_cons_ok N s (RC_Loaded t) = (unat t = dequeued s mod N)"
| "ra_cons_ok N s (RC_Checked t) = (unat t = dequeued s mod N \<and> dequeued s < mm_view (ra_mem s) Consumer (Seen Head))"
| "ra_cons_ok N s (RC_Read t x) = (unat t = dequeued s mod N \<and> dequeued s < mm_view (ra_mem s) Consumer (Seen Head) \<and>
     x = ra_sent s ! dequeued s)"

text \<open>What is known of the views, and of the accesses to the slots.\<close>

definition ra_views_ok :: "nat \<Rightarrow> ra_sys \<Rightarrow> bool" where
  "ra_views_ok N s \<longleftrightarrow>
     (let M = ra_mem s; p = mm_view M Producer; c = mm_view M Consumer
      in p (Seen Head) = enqueued s \<and> c (Seen Tail) = dequeued s \<and>
         p (Seen Tail) \<le> dequeued s \<and> enqueued s < N + p (Seen Tail) \<and>
         dequeued s \<le> c (Seen Head) \<and> c (Seen Head) \<le> enqueued s \<and>
         (\<forall>i \<le> enqueued s. snd (mm_hist M Head ! i) (Seen Head) \<le> i \<and> snd (mm_hist M Head ! i) (Seen Tail) \<le> dequeued s) \<and>
         (\<forall>i \<le> dequeued s. snd (mm_hist M Tail ! i) (Seen Tail) \<le> i \<and> snd (mm_hist M Tail ! i) (Seen Head) \<le> enqueued s) \<and>
         snd (mm_hist M Head ! c (Seen Head)) (Clk Producer) \<le> c (Clk Producer) \<and>
         snd (mm_hist M Tail ! p (Seen Tail)) (Clk Consumer) \<le> p (Clk Consumer))"

definition ra_uses_ok :: "nat \<Rightarrow> ra_sys \<Rightarrow> bool" where
  "ra_uses_ok N s \<longleftrightarrow>
     (let M = ra_mem s
      in fresh N (enqueued s) (enqueued s + writing (ra_prod s)) (mm_hist M Head) Producer (mm_writes M) \<and>
         fresh N (dequeued s) (dequeued s + reading (ra_cons s)) (mm_hist M Tail) Consumer (mm_reads M) \<and>
         (\<forall>slot. mm_writes M slot Consumer = 0 \<and> mm_reads M slot Producer = 0 \<and>
            mm_writes M slot Producer \<le> mm_view M Producer (Clk Producer) \<and>
            mm_reads M slot Consumer \<le> mm_view M Consumer (Clk Consumer)))"

definition ra_inv :: "u64 \<Rightarrow> ra_sys \<Rightarrow> bool" where
  "ra_inv capacity s \<longleftrightarrow>
     (let N = unat capacity
      in is_capacity N (capacity - 1) \<and> \<not> ra_undefined s \<and>
         numbered N (enqueued s) (mm_hist (ra_mem s) Head) \<and> numbered N (dequeued s) (mm_hist (ra_mem s) Tail) \<and>
         ra_views_ok N s \<and> ra_uses_ok N s \<and> ra_prod_ok N s (ra_prod s) \<and> ra_cons_ok N s (ra_cons s) \<and>
         ra_received s = take (dequeued s) (ra_sent s) \<and>
         (\<forall>j. dequeued s \<le> j \<and> j < enqueued s \<longrightarrow> mm_plain (ra_mem s) (j mod N) = ra_sent s ! j))"

lemma ra_start_inv: "is_capacity (unat capacity) (capacity - 1) \<Longrightarrow> ra_inv capacity ra_start"
  using is_capacityD(1) [of "unat capacity" "capacity - 1"]
  by (simp add: ra_inv_def ra_start_def new_memory_def Let_def numbered_def ra_views_ok_def ra_uses_ok_def fresh_def)

text \<open>Indices that are less than a whole round apart are different slots.\<close>

lemma mod_apart:
  fixes a b N :: nat
  assumes "a < b" "b < a + N"
  shows "a mod N \<noteq> b mod N"
proof
  assume "a mod N = b mod N"
  then have "N dvd b - a" using assms(1) by (metis less_imp_le mod_eq_dvd_iff_nat)
  with assms show False by (auto dest: dvd_imp_le)
qed

lemma slot_after:
  assumes "j \<le> b" "b < i + N"
  shows "b mod N \<notin> slots_from N i j"
proof
  assume "b mod N \<in> slots_from N i j"
  then obtain k where "i \<le> k" "k < j" "b mod N = k mod N" by (auto simp: slots_from_def)
  with mod_apart [of k b N] assms show False by simp
qed

lemma slot_before:
  assumes "b < i" "j \<le> b + N"
  shows "b mod N \<notin> slots_from N i j"
proof
  assume "b mod N \<in> slots_from N i j"
  then obtain k where "i \<le> k" "k < j" "b mod N = k mod N" by (auto simp: slots_from_def)
  with mod_apart [of b k N] assms show False by simp
qed

lemma slots_from_Suc: "slots_from N i (Suc j) = (if i \<le> j then insert (j mod N) (slots_from N i j) else {})"
  by (auto simp: slots_from_def atLeastLessThanSuc)

lemma numberedD: "numbered N n h \<Longrightarrow> length h = Suc n" "numbered N n h \<Longrightarrow> i \<le> n \<Longrightarrow> unat (fst (h ! i)) = i mod N"
  by (simp_all add: numbered_def)

lemma numbered_append: "numbered N n h \<Longrightarrow> unat v = Suc n mod N \<Longrightarrow> numbered N (Suc n) (h @ [(v, w)])"
  by (auto simp: numbered_def nth_append le_Suc_eq)

lemma freshD: "fresh N n n' h t use \<Longrightarrow> i \<le> n \<Longrightarrow> slot \<notin> slots_from N i n' \<Longrightarrow> use slot t \<le> snd (h ! i) (Clk t)"
  by (simp add: fresh_def)

text \<open>Using the next slot, and announcing it with the clock of the thread.\<close>

lemma fresh_use:
  "fresh N n n h t use \<Longrightarrow> fresh N n (Suc n) h t (use(n mod N := (use (n mod N))(t := c)))"
  by (auto simp: fresh_def slots_from_Suc)

lemma fresh_announce:
  assumes "fresh N n (Suc n) h t use" "length h = Suc n" "\<And>slot. use slot t \<le> w (Clk t)"
  shows "fresh N (Suc n) (Suc n) (h @ [(v, w)]) t use"
  using assms by (auto simp: fresh_def nth_append le_Suc_eq)

lemma ra_invD:
  assumes "ra_inv capacity s"
  defines "N \<equiv> unat capacity" and "M \<equiv> ra_mem s"
  shows "is_capacity N (capacity - 1)" "\<not> ra_undefined s"
    "numbered N (enqueued s) (mm_hist M Head)" "numbered N (dequeued s) (mm_hist M Tail)"
    "ra_views_ok N s" "ra_uses_ok N s" "ra_prod_ok N s (ra_prod s)" "ra_cons_ok N s (ra_cons s)"
    "ra_received s = take (dequeued s) (ra_sent s)"
    "\<And>j. dequeued s \<le> j \<Longrightarrow> j < enqueued s \<Longrightarrow> mm_plain M (j mod N) = ra_sent s ! j"
  using assms by (simp_all add: ra_inv_def Let_def)

lemma ra_views_okD:
  assumes "ra_views_ok N s"
  defines "M \<equiv> ra_mem s"
  shows "mm_view M Producer (Seen Head) = enqueued s" "mm_view M Consumer (Seen Tail) = dequeued s"
    "mm_view M Producer (Seen Tail) \<le> dequeued s" "enqueued s < N + mm_view M Producer (Seen Tail)"
    "dequeued s \<le> mm_view M Consumer (Seen Head)" "mm_view M Consumer (Seen Head) \<le> enqueued s"
    "\<And>i. i \<le> enqueued s \<Longrightarrow> snd (mm_hist M Head ! i) (Seen Head) \<le> i"
    "\<And>i. i \<le> enqueued s \<Longrightarrow> snd (mm_hist M Head ! i) (Seen Tail) \<le> dequeued s"
    "\<And>i. i \<le> dequeued s \<Longrightarrow> snd (mm_hist M Tail ! i) (Seen Tail) \<le> i"
    "\<And>i. i \<le> dequeued s \<Longrightarrow> snd (mm_hist M Tail ! i) (Seen Head) \<le> enqueued s"
    "snd (mm_hist M Head ! mm_view M Consumer (Seen Head)) (Clk Producer) \<le> mm_view M Consumer (Clk Producer)"
    "snd (mm_hist M Tail ! mm_view M Producer (Seen Tail)) (Clk Consumer) \<le> mm_view M Producer (Clk Consumer)"
  using assms(1) unfolding M_def by (simp_all add: ra_views_ok_def Let_def)

lemma ra_uses_okD:
  assumes "ra_uses_ok N s"
  defines "M \<equiv> ra_mem s"
  shows "fresh N (enqueued s) (enqueued s + writing (ra_prod s)) (mm_hist M Head) Producer (mm_writes M)"
    "fresh N (dequeued s) (dequeued s + reading (ra_cons s)) (mm_hist M Tail) Consumer (mm_reads M)"
    "mm_writes M slot Consumer = 0" "mm_reads M slot Producer = 0"
    "mm_writes M slot Producer \<le> mm_view M Producer (Clk Producer)"
    "mm_reads M slot Consumer \<le> mm_view M Consumer (Clk Consumer)"
  using assms(1) unfolding M_def by (simp_all add: ra_uses_ok_def Let_def)

lemma all_parties: "(\<forall>u. P u) \<longleftrightarrow> P Producer \<and> P Consumer"
  by (metis party.exhaust)

text \<open>A thread loads its own index: there is only the newest value to return.\<close>

lemma load_own_head:
  assumes "ra_inv capacity s" "atomic_load ord Producer Head i (ra_mem s) = Some (v, M')" "ord = MO_Relaxed"
  shows "unat v = enqueued s mod unat capacity" "M' = ra_mem s"
proof -
  note inv = ra_invD [OF assms(1)]
  have newest: "Suc (mm_view (ra_mem s) Producer (Seen Head)) = length (mm_hist (ra_mem s) Head)"
    using ra_views_okD(1) [OF inv(5)] numberedD(1) [OF inv(3)] by simp
  note load = atomic_load_newest [OF newest assms(2)]
  show "unat v = enqueued s mod unat capacity"
    using load numberedD(2) [OF inv(3)] ra_views_okD(1) [OF inv(5)] by simp
  show "M' = ra_mem s" using assms(2,3) load(1) by (auto simp: atomic_load_def Let_def split: if_splits prod.splits)
qed

lemma load_own_tail:
  assumes "ra_inv capacity s" "atomic_load ord Consumer Tail i (ra_mem s) = Some (v, M')" "ord = MO_Relaxed"
  shows "unat v = dequeued s mod unat capacity" "M' = ra_mem s"
proof -
  note inv = ra_invD [OF assms(1)]
  have newest: "Suc (mm_view (ra_mem s) Consumer (Seen Tail)) = length (mm_hist (ra_mem s) Tail)"
    using ra_views_okD(2) [OF inv(5)] numberedD(1) [OF inv(4)] by simp
  note load = atomic_load_newest [OF newest assms(2)]
  show "unat v = dequeued s mod unat capacity"
    using load numberedD(2) [OF inv(4)] ra_views_okD(2) [OF inv(5)] by simp
  show "M' = ra_mem s" using assms(2,3) load(1) by (auto simp: atomic_load_def Let_def split: if_splits prod.splits)
qed

lemma head_next:
  assumes "is_capacity (unat capacity) (capacity - 1)" "unat h = n mod unat capacity"
  shows "unat ((h + 1) AND (capacity - 1)) = Suc n mod unat capacity" "h < capacity"
proof -
  have "unat h < unat capacity" using assms(2) is_capacityD(1) [OF assms(1)] by simp
  then show "unat ((h + 1) AND (capacity - 1)) = Suc n mod unat capacity" "h < capacity"
    using masked_successor [OF assms(1)] assms(2) by (simp_all add: mod_Suc_eq word_less_nat_alt)
qed

lemma ra_producer_inv:
  assumes "ra_inv capacity s" "ra_producer rb_orders capacity x i s = Some t"
  shows "ra_inv capacity t"
proof -
  let ?N = "unat capacity" and ?M = "ra_mem s"
  note inv = ra_invD [OF assms(1)]
  note views = ra_views_okD [OF inv(5)] and uses = ra_uses_okD [OF inv(6)]
  show ?thesis
  proof (cases "ra_prod s")
    case RP_Idle
    then obtain v M' where load: "atomic_load MO_Relaxed Producer Head i ?M = Some (v, M')"
      and t: "t = s\<lparr>ra_mem := M', ra_prod := RP_Loaded x v\<rparr>"
      using assms(2) by (auto simp: ra_producer_def split: option.splits)
    note own = load_own_head [OF assms(1) load refl]
    show ?thesis
      using inv RP_Idle own by (cases "ra_cons s") (simp_all add: t ra_inv_def Let_def ra_views_ok_def ra_uses_ok_def)
  next
    case (RP_Loaded y h)
    let ?w = "snd (mm_hist ?M Tail ! i)" and ?tail = "fst (mm_hist ?M Tail ! i)"
    let ?M' = "?M\<lparr>mm_view := (mm_view ?M)(Producer := join ((mm_view ?M Producer)(Seen Tail := i)) ?w)\<rparr>"
    have seen: "mm_view ?M Producer (Seen Tail) \<le> i" "i \<le> dequeued s"
      and t: "t = s\<lparr>ra_mem := ?M', ra_prod := if (h + 1) AND (capacity - 1) = ?tail then RP_Idle
            else RP_Checked y h ((h + 1) AND (capacity - 1))\<rparr>"
      using assms(2) RP_Loaded numberedD(1) [OF inv(4)]
      by (auto simp: ra_producer_def atomic_load_def rb_orders_def Let_def split: option.splits if_splits prod.splits)
    have view: "mm_view ?M' Producer (Seen Tail) = i" "mm_view ?M' Producer (Seen Head) = enqueued s"
      "?w (Clk Consumer) \<le> mm_view ?M' Producer (Clk Consumer)" "mm_view ?M Producer (Clk Producer) \<le> mm_view ?M' Producer (Clk Producer)"
      "mm_view ?M' Consumer = mm_view ?M Consumer" "mm_hist ?M' = mm_hist ?M" "mm_plain ?M' = mm_plain ?M"
      "mm_writes ?M' = mm_writes ?M" "mm_reads ?M' = mm_reads ?M"
      using views(1) views(9,10) [OF seen(2)] by simp_all
    have num: "unat ?tail = i mod ?N" "unat h = enqueued s mod ?N"
      using numberedD(2) [OF inv(4) seen(2)] inv(7) RP_Loaded by simp_all
    note succ = head_next(1) [OF inv(1) num(2)]
    have room: "Suc (enqueued s) < ?N + i" if "(h + 1) AND (capacity - 1) \<noteq> ?tail"
    proof -
      have "Suc (enqueued s) mod ?N \<noteq> i mod ?N" using that succ num(1) by (simp add: word_unat_eq_iff)
      then have "Suc (enqueued s) \<noteq> ?N + i" by auto
      with views(4) seen(1) show ?thesis by linarith
    qed
    have "enqueued s < ?N + i" using views(4) seen(1) by linarith
    then have "ra_views_ok ?N t"
      using view seen(2) views by (simp add: t ra_views_ok_def Let_def)
    moreover have "ra_uses_ok ?N t"
      using view(5-9) uses RP_Loaded by (auto simp: t ra_uses_ok_def Let_def intro: max.coboundedI1)
    moreover have "ra_cons_ok ?N t (ra_cons t)" using inv(8) view by (cases "ra_cons s") (simp_all add: t)
    moreover have "ra_prod_ok ?N t (ra_prod t)" using num(2) succ room view by (simp add: t)
    ultimately show ?thesis using inv view by (simp add: t ra_inv_def Let_def)
  next
    case (RP_Checked y h nh)
    let ?slot = "enqueued s mod ?N" and ?c = "Suc (mm_view ?M Producer (Clk Producer))"
    let ?M' = "?M\<lparr>mm_plain := (mm_plain ?M)(?slot := y), mm_writes := (mm_writes ?M)(?slot := (mm_writes ?M ?slot)(Producer := ?c)),
        mm_view := (mm_view ?M)(Producer := (mm_view ?M Producer)(Clk Producer := ?c))\<rparr>"
    have pc: "unat h = ?slot" "unat nh = Suc (enqueued s) mod ?N" "Suc (enqueued s) < ?N + mm_view ?M Producer (Seen Tail)"
      using inv(7) RP_Checked by simp_all
    have "dequeued s + reading (ra_cons s) \<le> enqueued s" using inv(8) views(5,6) by (cases "ra_cons s") auto
    then have "?slot \<notin> slots_from ?N (mm_view ?M Producer (Seen Tail)) (dequeued s + reading (ra_cons s))"
      using views(4) by (intro slot_after) simp_all
    from freshD [OF uses(2) views(3) this] views(12)
    have "mm_reads ?M ?slot Consumer \<le> mm_view ?M Producer (Clk Consumer)" by (rule order_trans)
    then have "plain_write Producer (unat h) y ?M = Some ?M'"
      using uses(3-5) [of ?slot] by (simp add: plain_write_def all_parties pc(1) Let_def)
    then have t: "t = s\<lparr>ra_mem := ?M', ra_prod := RP_Written y nh\<rparr>"
      using assms(2) RP_Checked head_next(2) [OF inv(1) pc(1)] by (simp add: ra_producer_def)
    have "ra_views_ok ?N t" using views by (simp add: t ra_views_ok_def Let_def)
    moreover have "ra_uses_ok ?N t"
      using uses(2-6) fresh_use [of ?N "enqueued s" _ Producer "mm_writes ?M" ?c] uses(1) RP_Checked
      by (auto simp: t ra_uses_ok_def Let_def intro: le_SucI)
    moreover have "ra_cons_ok ?N t (ra_cons t)" using inv(8) by (cases "ra_cons s") (simp_all add: t)
    moreover have "mm_plain ?M' (j mod ?N) = ra_sent s ! j" if "dequeued s \<le> j" "j < enqueued s" for j
    proof -
      have "j mod ?N \<noteq> ?slot" using that views(3,4) by (intro mod_apart) linarith+
      then show ?thesis using inv(10) [OF that] by simp
    qed
    ultimately show ?thesis using inv pc by (simp add: t ra_inv_def Let_def)
  next
    case (RP_Written y nh)
    let ?view = "(mm_view ?M Producer)(Seen Head := Suc (enqueued s))"
    let ?M' = "?M\<lparr>mm_hist := (mm_hist ?M)(Head := mm_hist ?M Head @ [(nh, ?view)]), mm_view := (mm_view ?M)(Producer := ?view)\<rparr>"
    have pc: "unat nh = Suc (enqueued s) mod ?N" "Suc (enqueued s) < ?N + mm_view ?M Producer (Seen Tail)"
      "mm_plain ?M (enqueued s mod ?N) = y"
      using inv(7) RP_Written by simp_all
    note len = numberedD(1) [OF inv(3)]
    have "atomic_store MO_Release Producer Head nh ?M = Some ?M'"
      using views(1) len by (simp add: atomic_store_def Let_def)
    then have t: "t = s\<lparr>ra_mem := ?M', ra_prod := RP_Idle, ra_sent := ra_sent s @ [y]\<rparr>"
      using assms(2) RP_Written by (simp add: ra_producer_def rb_orders_def)
    have "ra_views_ok ?N t"
      using views pc(2) len by (auto simp: t ra_views_ok_def Let_def nth_append le_Suc_eq intro: le_SucI)
    moreover have "ra_uses_ok ?N t"
      using uses(2-6) fresh_announce [OF _ len, where N = ?N and use = "mm_writes ?M" and t = Producer and w = ?view and v = nh] uses(1) RP_Written
      by (simp add: t ra_uses_ok_def Let_def)
    moreover have "ra_cons_ok ?N t (ra_cons t)"
      using inv(8) views(5,6) by (cases "ra_cons s") (auto simp: t nth_append)
    moreover have "mm_plain ?M (j mod ?N) = (ra_sent s @ [y]) ! j" if "dequeued s \<le> j" "j < Suc (enqueued s)" for j
      using that inv(10) [of j] pc(3) by (cases "j = enqueued s") (simp_all add: nth_append)
    moreover have "dequeued s \<le> enqueued s" using views(5,6) by linarith
    ultimately show ?thesis using inv numbered_append [OF inv(3) pc(1)] by (simp add: t ra_inv_def Let_def)
  qed
qed

lemma ra_consumer_inv:
  assumes "ra_inv capacity s" "ra_consumer rb_orders capacity i s = Some t"
  shows "ra_inv capacity t"
proof -
  let ?N = "unat capacity" and ?M = "ra_mem s"
  note inv = ra_invD [OF assms(1)]
  note views = ra_views_okD [OF inv(5)] and uses = ra_uses_okD [OF inv(6)]
  show ?thesis
  proof (cases "ra_cons s")
    case RC_Idle
    then obtain v M' where load: "atomic_load MO_Relaxed Consumer Tail i ?M = Some (v, M')"
      and t: "t = s\<lparr>ra_mem := M', ra_cons := RC_Loaded v\<rparr>"
      using assms(2) by (auto simp: ra_consumer_def split: option.splits)
    note own = load_own_tail [OF assms(1) load refl]
    show ?thesis
      using inv RC_Idle own by (cases "ra_prod s") (simp_all add: t ra_inv_def Let_def ra_views_ok_def ra_uses_ok_def)
  next
    case (RC_Loaded tl)
    let ?w = "snd (mm_hist ?M Head ! i)" and ?head = "fst (mm_hist ?M Head ! i)"
    let ?M' = "?M\<lparr>mm_view := (mm_view ?M)(Consumer := join ((mm_view ?M Consumer)(Seen Head := i)) ?w)\<rparr>"
    have seen: "mm_view ?M Consumer (Seen Head) \<le> i" "i \<le> enqueued s"
      and t: "t = s\<lparr>ra_mem := ?M', ra_cons := if tl = ?head then RC_Idle else RC_Checked tl\<rparr>"
      using assms(2) RC_Loaded numberedD(1) [OF inv(3)]
      by (auto simp: ra_consumer_def atomic_load_def rb_orders_def Let_def split: option.splits if_splits prod.splits)
    have view: "mm_view ?M' Consumer (Seen Head) = i" "mm_view ?M' Consumer (Seen Tail) = dequeued s"
      "?w (Clk Producer) \<le> mm_view ?M' Consumer (Clk Producer)" "mm_view ?M Consumer (Clk Consumer) \<le> mm_view ?M' Consumer (Clk Consumer)"
      "mm_view ?M' Producer = mm_view ?M Producer" "mm_hist ?M' = mm_hist ?M" "mm_plain ?M' = mm_plain ?M"
      "mm_writes ?M' = mm_writes ?M" "mm_reads ?M' = mm_reads ?M"
      using views(2) views(7,8) [OF seen(2)] by simp_all
    have num: "unat ?head = i mod ?N" "unat tl = dequeued s mod ?N"
      using numberedD(2) [OF inv(3) seen(2)] inv(8) RC_Loaded by simp_all
    have "dequeued s \<le> i" using views(5) seen(1) by linarith
    moreover have "dequeued s < i" if "tl \<noteq> ?head"
      using that num calculation by (cases "i = dequeued s") (auto simp: word_unat_eq_iff)
    ultimately have "ra_views_ok ?N t" "ra_cons_ok ?N t (ra_cons t)"
      using view seen(2) views num(2) by (simp_all add: t ra_views_ok_def Let_def)
    moreover have "ra_uses_ok ?N t"
      using view(5-9) uses RC_Loaded by (auto simp: t ra_uses_ok_def Let_def intro: max.coboundedI1)
    moreover have "ra_prod_ok ?N t (ra_prod t)" using inv(7) view by (cases "ra_prod s") (simp_all add: t)
    ultimately show ?thesis using inv view by (simp add: t ra_inv_def Let_def)
  next
    case (RC_Checked tl)
    let ?slot = "dequeued s mod ?N" and ?c = "Suc (mm_view ?M Consumer (Clk Consumer))"
    let ?M' = "?M\<lparr>mm_reads := (mm_reads ?M)(?slot := (mm_reads ?M ?slot)(Consumer := ?c)),
        mm_view := (mm_view ?M)(Consumer := (mm_view ?M Consumer)(Clk Consumer := ?c))\<rparr>"
    have pc: "unat tl = ?slot" "dequeued s < mm_view ?M Consumer (Seen Head)"
      using inv(8) RC_Checked by simp_all
    have "enqueued s + writing (ra_prod s) \<le> dequeued s + ?N"
      using inv(7) views(3,4) by (cases "ra_prod s") auto
    then have "?slot \<notin> slots_from ?N (mm_view ?M Consumer (Seen Head)) (enqueued s + writing (ra_prod s))"
      using pc(2) by (intro slot_before) simp_all
    from freshD [OF uses(1) views(6) this] views(11)
    have "mm_writes ?M ?slot Producer \<le> mm_view ?M Consumer (Clk Producer)" by (rule order_trans)
    moreover have item: "mm_plain ?M ?slot = ra_sent s ! dequeued s" using inv(10) [of "dequeued s"] pc(2) views(6) by simp
    ultimately have "plain_read Consumer (unat tl) ?M = Some (ra_sent s ! dequeued s, ?M')"
      using uses(3) [of ?slot] by (simp add: plain_read_def all_parties pc(1) Let_def)
    then have t: "t = s\<lparr>ra_mem := ?M', ra_cons := RC_Read tl (ra_sent s ! dequeued s)\<rparr>"
      using assms(2) RC_Checked head_next(2) [OF inv(1) pc(1)] by (simp add: ra_consumer_def)
    have "ra_views_ok ?N t" using views by (simp add: t ra_views_ok_def Let_def)
    moreover have "ra_uses_ok ?N t"
      using uses(1,3-6) fresh_use [of ?N "dequeued s" _ Consumer "mm_reads ?M" ?c] uses(2) RC_Checked
      by (auto simp: t ra_uses_ok_def Let_def intro: le_SucI)
    moreover have "ra_prod_ok ?N t (ra_prod t)" using inv(7) by (cases "ra_prod s") (simp_all add: t)
    ultimately show ?thesis using inv pc by (simp add: t ra_inv_def Let_def)
  next
    case (RC_Read tl item)
    let ?view = "(mm_view ?M Consumer)(Seen Tail := Suc (dequeued s))" and ?next = "(tl + 1) AND (capacity - 1)"
    let ?M' = "?M\<lparr>mm_hist := (mm_hist ?M)(Tail := mm_hist ?M Tail @ [(?next, ?view)]), mm_view := (mm_view ?M)(Consumer := ?view)\<rparr>"
    have pc: "unat tl = dequeued s mod ?N" "dequeued s < mm_view ?M Consumer (Seen Head)" "item = ra_sent s ! dequeued s"
      using inv(8) RC_Read by simp_all
    note len = numberedD(1) [OF inv(4)]
    have "atomic_store MO_Release Consumer Tail ?next ?M = Some ?M'"
      using views(2) len by (simp add: atomic_store_def Let_def)
    then have t: "t = s\<lparr>ra_mem := ?M', ra_cons := RC_Idle, ra_received := ra_received s @ [item]\<rparr>"
      using assms(2) RC_Read by (simp add: ra_consumer_def rb_orders_def)
    have more: "dequeued s < enqueued s" using pc(2) views(6) by linarith
    have "ra_views_ok ?N t"
      using views pc(2) len by (auto simp: t ra_views_ok_def Let_def nth_append le_Suc_eq intro: le_SucI)
    moreover have "ra_uses_ok ?N t"
      using uses(1,3-6) fresh_announce [OF _ len, where N = ?N and use = "mm_reads ?M" and t = Consumer and w = ?view and v = ?next]
        uses(2) RC_Read
      by (simp add: t ra_uses_ok_def Let_def)
    moreover have "ra_prod_ok ?N t (ra_prod t)" using inv(7) by (cases "ra_prod s") (auto simp: t)
    moreover have "ra_received s @ [item] = take (Suc (dequeued s)) (ra_sent s)"
      using inv(9) more pc(3) by (simp add: take_Suc_conv_app_nth)
    moreover have "min (enqueued s) (Suc (dequeued s)) = Suc (dequeued s)" using more by simp
    ultimately show ?thesis
      using inv numbered_append [OF inv(4) head_next(1) [OF inv(1) pc(1)]] by (simp add: t ra_inv_def Let_def)
  qed
qed

lemma ra_step_inv [inv_steps]: "ra_inv capacity s \<Longrightarrow> ra_step rb_orders capacity s t \<Longrightarrow> ra_inv capacity t"
  by (auto elim!: ra_step.cases intro: ra_producer_inv ra_consumer_inv)

lemma ra_histories_grow:
  assumes "ra_step ords capacity s t"
  shows "prefix (ra_sent s) (ra_sent t)" "prefix (ra_received s) (ra_received t)"
  using assms
  by (auto elim!: ra_step.cases simp: ra_producer_def ra_consumer_def Let_def split: rb_producer.splits rb_consumer.splits option.splits if_splits)

lemma ra_inv_balance:
  assumes "ra_inv capacity s"
  shows "ra_sent s = ra_received s @ drop (dequeued s) (ra_sent s)" "enqueued s - dequeued s \<le> unat (capacity - 1)"
proof -
  note inv = ra_invD [OF assms]
  note views = ra_views_okD [OF inv(5)]
  show "ra_sent s = ra_received s @ drop (dequeued s) (ra_sent s)" by (metis append_take_drop_id inv(9))
  show "enqueued s - dequeued s \<le> unat (capacity - 1)" using views(3,4) is_capacityD(3) [OF inv(1)] by linarith
qed

interpretation rba: fifo_channel
  "\<lambda>s. is_capacity (unat capacity) (capacity - 1) \<and> s = ra_start" "ra_step rb_orders capacity"
  ra_sent ra_received "\<lambda>s. drop (dequeued s) (ra_sent s)" "ra_inv capacity" "unat (capacity - 1)"
  for capacity :: u64
proof unfold_locales
  show "ra_inv capacity s" if "is_capacity (unat capacity) (capacity - 1) \<and> s = ra_start" for s
    using that ra_start_inv by blast
  show "ra_sent s = ra_received s @ drop (dequeued s) (ra_sent s)" if "ra_inv capacity s" for s
    by (rule ra_inv_balance(1) [OF that])
  show "length (drop (dequeued s) (ra_sent s)) \<le> unat (capacity - 1)" if "ra_inv capacity s" for s
    using ra_inv_balance(2) [OF that] by simp
qed (blast intro: ra_step_inv ra_histories_grow)+

section \<open>Runs under a schedule\<close>

text \<open>A turn of the producer or of the consumer, with the value that a load returns.\<close>

datatype turn = P_Turn u32 nat | C_Turn nat

fun ra_turn :: "ring_orders \<Rightarrow> u64 \<Rightarrow> turn \<Rightarrow> ra_sys \<Rightarrow> ra_sys option" where
  "ra_turn ords capacity (P_Turn x i) s = ra_producer ords capacity x i s"
| "ra_turn ords capacity (C_Turn i) s = ra_consumer ords capacity i s"

fun ra_run :: "ring_orders \<Rightarrow> u64 \<Rightarrow> turn list \<Rightarrow> ra_sys \<Rightarrow> ra_sys option" where
  "ra_run ords capacity [] s = Some s"
| "ra_run ords capacity (c # cs) s =
     (case ra_turn ords capacity c s of None \<Rightarrow> None | Some t \<Rightarrow> ra_run ords capacity cs t)"

lemma ra_turn_step: "ra_turn ords capacity c s = Some t \<Longrightarrow> ra_step ords capacity s t"
  by (cases c) (auto intro: ra_step.intros)

lemma ra_run_steps: "ra_run ords capacity cs s = Some t \<Longrightarrow> (ra_step ords capacity)\<^sup>*\<^sup>* s t"
  by (induction cs arbitrary: s) (auto intro: converse_rtranclp_into_rtranclp ra_turn_step split: option.splits)

text \<open>An item enqueued and dequeued with every load returning the newest value; the numbers are those of
  the values stored to the two indices.\<close>

definition hand_over :: "u32 \<Rightarrow> nat \<Rightarrow> turn list" where
  "hand_over x i = [P_Turn x i, P_Turn x i, P_Turn x i, P_Turn x i, C_Turn i, C_Turn (i + 1), C_Turn 0, C_Turn 0]"

lemmas ra_eval = ra_producer_def ra_consumer_def memory_defs all_parties Let_def new_memory_def ra_start_def
  join_def fun_upd_def hand_over_def rb_orders_def numeral_eq_Suc

section \<open>Properties\<close>

text \<open>Property C16: with the memory orders of the code the ring buffer is right under the C++ memory model,
  not only when its accesses interleave. In every execution with one producer and one consumer, each of
  which may see old values of the other's index: no two accesses to a slot race and none is outside of
  the buffer; what has been dequeued is the beginning of what has been enqueued, in order, without loss or
  duplication; and at most \<open>m_CapacityMinusOne\<close> items are in the buffer.\<close>

theorem ra_queue_correct:
  assumes "is_capacity (unat capacity) (capacity - 1)" "(ra_step rb_orders capacity)\<^sup>*\<^sup>* ra_start t"
  shows "\<not> ra_undefined t \<and> ra_sent t = ra_received t @ drop (length (ra_received t)) (ra_sent t) \<and>
    length (ra_sent t) \<le> length (ra_received t) + unat (capacity - 1)"
proof -
  have "ra_inv capacity t" by (rule rba.reach_inv [OF assms(2) ra_start_inv [OF assms(1)]])
  from ra_invD(2) [OF this] ra_inv_balance [OF this] show ?thesis by linarith
qed

theorem ra_queue_correct_witness:
  "\<exists>t. (ra_step rb_orders 2)\<^sup>*\<^sup>* ra_start t \<and> ra_sent t = [5, 6] \<and> ra_received t = [5] \<and> \<not> ra_undefined t"
proof -
  let ?run = "ra_run rb_orders 2 (hand_over 5 0 @ [P_Turn 6 1, P_Turn 6 1, P_Turn 6 1, P_Turn 6 1]) ra_start"
  have "map_option ra_sent ?run = Some [5, 6] \<and> map_option ra_received ?run = Some [5]"
    by (simp add: ra_eval)
  then obtain t where t: "?run = Some t" "ra_sent t = [5, 6]" "ra_received t = [5]" by auto
  have "is_capacity (unat (2 :: u64)) (2 - 1)"
    by (auto simp: is_capacity_def mask_eq_exp_minus_1 intro!: exI [of _ 1])
  from ra_queue_correct [OF this ra_run_steps [OF t(1)]] t ra_run_steps [OF t(1)] show ?thesis by blast
qed

text \<open>
  What the orders have to do: the two stores release, and the two loads of the other thread's index acquire.
  Only this matters of the orders.
\<close>

definition at_least :: "ring_orders \<Rightarrow> ring_orders \<Rightarrow> bool" where
  "at_least ords ords' \<longleftrightarrow>
     (acquires (ro_enq_load_tail ords') \<longrightarrow> acquires (ro_enq_load_tail ords)) \<and>
     (releases (ro_enq_store_head ords') \<longrightarrow> releases (ro_enq_store_head ords)) \<and>
     (acquires (ro_deq_load_head ords') \<longrightarrow> acquires (ro_deq_load_head ords)) \<and>
     (releases (ro_deq_store_tail ords') \<longrightarrow> releases (ro_deq_store_tail ords))"

lemma ra_step_order_cong:
  assumes "acquires (ro_enq_load_tail ords) = acquires (ro_enq_load_tail ords')"
    "releases (ro_enq_store_head ords) = releases (ro_enq_store_head ords')"
    "acquires (ro_deq_load_head ords) = acquires (ro_deq_load_head ords')"
    "releases (ro_deq_store_tail ords) = releases (ro_deq_store_tail ords')"
  shows "ra_step ords = ra_step ords'"
proof -
  have "atomic_load (ro_enq_load_tail ords) = (atomic_load (ro_enq_load_tail ords') :: party \<Rightarrow> ring_index \<Rightarrow> nat \<Rightarrow> ring_memory \<Rightarrow> _)"
    "atomic_store (ro_enq_store_head ords) = (atomic_store (ro_enq_store_head ords') :: party \<Rightarrow> ring_index \<Rightarrow> u64 \<Rightarrow> ring_memory \<Rightarrow> _)"
    "atomic_load (ro_deq_load_head ords) = (atomic_load (ro_deq_load_head ords') :: party \<Rightarrow> ring_index \<Rightarrow> nat \<Rightarrow> ring_memory \<Rightarrow> _)"
    "atomic_store (ro_deq_store_tail ords) = (atomic_store (ro_deq_store_tail ords') :: party \<Rightarrow> ring_index \<Rightarrow> u64 \<Rightarrow> ring_memory \<Rightarrow> _)"
    by (intro ext; simp add: atomic_load_def atomic_store_def Let_def assms)+
  note same = this
  have "ra_producer ords = ra_producer ords'" by (intro ext) (simp only: ra_producer_def same cong: rb_producer.case_cong)
  moreover have "ra_consumer ords = ra_consumer ords'" by (intro ext) (simp only: ra_consumer_def same cong: rb_consumer.case_cong)
  ultimately show ?thesis by (intro ext) (simp add: ra_step.simps)
qed

text \<open>The sixteen kinds of orders.\<close>

definition orders_with :: "bool \<Rightarrow> bool \<Rightarrow> bool \<Rightarrow> bool \<Rightarrow> ring_orders" where
  "orders_with lt sh lh st = \<lparr>ro_enq_load_tail = (if lt then MO_Acquire else MO_Relaxed), ro_enq_store_head = (if sh then MO_Release else MO_Relaxed),
     ro_deq_load_head = (if lh then MO_Acquire else MO_Relaxed), ro_deq_store_tail = (if st then MO_Release else MO_Relaxed)\<rparr>"

lemma orders_canonical:
  "ra_step ords = ra_step (orders_with (acquires (ro_enq_load_tail ords)) (releases (ro_enq_store_head ords))
     (acquires (ro_deq_load_head ords)) (releases (ro_deq_store_tail ords)))"
  by (rule ra_step_order_cong) (simp_all add: orders_with_def)

lemma run_races:
  assumes "map_option ra_undefined (ra_run ords 2 turns ra_start) = Some True"
  shows "\<exists>t. (ra_step ords 2)\<^sup>*\<^sup>* ra_start t \<and> ra_undefined t"
  using assms by (auto intro: ra_run_steps)

text \<open>
  An item handed over with a store or a load of the head that does not synchronise, and the third item written
  over the first one with a store or a load of the tail that does not.
\<close>

lemma unordered_races:
  assumes "\<not> (lt \<and> sh \<and> lh \<and> st)"
  shows "\<exists>t. (ra_step (orders_with lt sh lh st) 2)\<^sup>*\<^sup>* ra_start t \<and> ra_undefined t"
proof (cases "sh \<and> lh")
  case False
  have "map_option ra_undefined (ra_run (orders_with lt sh lh st) 2 (hand_over 5 0) ra_start) = Some True"
    using False by (cases lt; cases sh; cases lh; cases st) (simp_all add: ra_eval orders_with_def)
  then show ?thesis by (rule run_races)
next
  case True
  let ?third = "hand_over 5 0 @ hand_over 6 1 @ [P_Turn 7 2, P_Turn 7 2, P_Turn 7 2]"
  have "map_option ra_undefined (ra_run (orders_with lt True True st) 2 ?third ra_start) = Some True"
    using True assms by (cases lt; cases st) (simp_all add: ra_eval orders_with_def)
  with True show ?thesis by (intro run_races) simp
qed

text \<open>Property C17: the orders of the code are exactly those that are needed. Whatever orders the four accesses
  that synchronise are given, all executions of the queue, for every capacity the constructor allows, are
  free of data races and in bounds if, and only if, each of these accesses acquires or releases where it
  does so in the code. A weaker order anywhere is undefined behaviour already for capacity 2.\<close>

theorem ra_orders_exact:
  "at_least ords rb_orders \<longleftrightarrow>
     (\<forall>capacity t. is_capacity (unat capacity) (capacity - 1) \<and> (ra_step ords capacity)\<^sup>*\<^sup>* ra_start t \<longrightarrow> \<not> ra_undefined t)"
proof -
  define ok where "ok \<longleftrightarrow> acquires (ro_enq_load_tail ords) \<and> releases (ro_enq_store_head ords) \<and>
     acquires (ro_deq_load_head ords) \<and> releases (ro_deq_store_tail ords)"
  have code: "at_least ords rb_orders \<longleftrightarrow> ok" by (simp add: at_least_def ok_def rb_orders_def)
  show ?thesis
  proof (cases ok)
    case True
    then have step: "ra_step ords = ra_step rb_orders" by (intro ra_step_order_cong) (simp_all add: ok_def rb_orders_def)
    have "\<not> ra_undefined t" if "is_capacity (unat capacity) (capacity - 1)" "(ra_step ords capacity)\<^sup>*\<^sup>* ra_start t" for capacity t
      using rba.reach_inv [OF that(2) [unfolded step] ra_start_inv [OF that(1)]] by (rule ra_invD(2))
    then show ?thesis using code True by blast
  next
    case False
    then obtain t where "(ra_step ords 2)\<^sup>*\<^sup>* ra_start t" "ra_undefined t"
      using unordered_races unfolding ok_def orders_canonical [of ords] by blast
    moreover have "is_capacity (unat (2 :: u64)) (2 - 1)"
      by (auto simp: is_capacity_def mask_eq_exp_minus_1 intro!: exI [of _ 1])
    ultimately show ?thesis using code False by blast
  qed
qed

theorem ra_orders_exact_witness:
  "\<exists>capacity t. is_capacity (unat capacity) (capacity - 1) \<and> ra_undefined t \<and>
     (ra_step (rb_orders\<lparr>ro_deq_store_tail := MO_Relaxed\<rparr>) capacity)\<^sup>*\<^sup>* ra_start t"
  using ra_orders_exact [of "rb_orders\<lparr>ro_deq_store_tail := MO_Relaxed\<rparr>"] by (auto simp: at_least_def rb_orders_def)

end
