(* ===== verification/Spsc_SeqLock_RA.thy ===== *)
theory Spsc_SeqLock_RA
  imports Spsc_SeqLock Spsc_RingBuffer_RA
begin

text \<open>
  The sequence-locked queue in the memory of \<open>Weak_Memory\<close>. Its counter is atomic; its two indices are
  plain objects, which both threads access.
\<close>

datatype sl_object = Plain_Head | Plain_Tail | Slot nat

text \<open>The one atomic object is \<open>seq\<close>. A slot holds its 32-bit item in the type of the indices.\<close>

type_synonym seqlock_memory = "(unit, sl_object, party, u64, u64) memory"

abbreviation Seq :: unit where
  "Seq \<equiv> ()"

record sla_sys =
  sla_mem :: seqlock_memory
  sla_prod :: sl_producer
  sla_cons :: sl_consumer
  sla_sent :: "u32 list"
  sla_received :: "u32 list"
  sla_undefined :: bool

text \<open>A plain access that races, or a slot that does not exist, makes the behaviour undefined.\<close>

definition sla_read :: "party \<Rightarrow> sl_object \<Rightarrow> sla_sys \<Rightarrow> (u64 \<Rightarrow> sla_sys \<Rightarrow> sla_sys) \<Rightarrow> sla_sys" where
  "sla_read who obj s k =
     (case plain_read who obj (sla_mem s) of
        None \<Rightarrow> s\<lparr>sla_undefined := True\<rparr>
      | Some (v, M) \<Rightarrow> k v (s\<lparr>sla_mem := M\<rparr>))"

definition sla_write :: "party \<Rightarrow> sl_object \<Rightarrow> u64 \<Rightarrow> sla_sys \<Rightarrow> (sla_sys \<Rightarrow> sla_sys) \<Rightarrow> sla_sys" where
  "sla_write who obj v s k =
     (case plain_write who obj v (sla_mem s) of
        None \<Rightarrow> s\<lparr>sla_undefined := True\<rparr>
      | Some M \<Rightarrow> k (s\<lparr>sla_mem := M\<rparr>))"

definition sla_count :: "sla_sys \<Rightarrow> sla_sys" where
  "sla_count s = s\<lparr>sla_mem := snd (atomic_rmw MO_AcqRel Producer Seq (\<lambda>n. n + 1) (sla_mem s))\<rparr>"

fun sla_producer :: "u64 \<Rightarrow> u32 \<Rightarrow> sl_producer \<Rightarrow> sla_sys \<Rightarrow> sla_sys" where
  "sla_producer capacity x SP_Idle s = sla_read Producer Plain_Head s (\<lambda>head t. t\<lparr>sla_prod := SP_Loaded x head\<rparr>)"
| "sla_producer capacity x (SP_Loaded item head) s =
     sla_read Producer Plain_Tail s (\<lambda>tail t.
       let nextHead = (head + 1) AND (capacity - 1)
       in t\<lparr>sla_prod := if nextHead = tail then SP_Idle else SP_Checked item head nextHead\<rparr>)"
| "sla_producer capacity x (SP_Checked item head nextHead) s = sla_count (s\<lparr>sla_prod := SP_Locked item head nextHead\<rparr>)"
| "sla_producer capacity x (SP_Locked item head nextHead) s =
     (if head < capacity then sla_write Producer (Slot (unat head)) (ucast item) s (\<lambda>t. t\<lparr>sla_prod := SP_Filled item nextHead\<rparr>)
      else s\<lparr>sla_undefined := True\<rparr>)"
| "sla_producer capacity x (SP_Filled item nextHead) s =
     sla_write Producer Plain_Head nextHead s (\<lambda>t. t\<lparr>sla_prod := SP_Stored, sla_sent := sla_sent t @ [item]\<rparr>)"
| "sla_producer capacity x SP_Stored s = sla_count (s\<lparr>sla_prod := SP_Idle\<rparr>)"

text \<open>The two loads of the counter return the value with the index \<open>i\<close>.\<close>

definition sla_load :: "nat \<Rightarrow> sla_sys \<Rightarrow> (u64 \<Rightarrow> sla_sys \<Rightarrow> sla_sys) \<Rightarrow> sla_sys option" where
  "sla_load i s k =
     (case atomic_load MO_Acquire Consumer Seq i (sla_mem s) of
        None \<Rightarrow> None
      | Some (v, M) \<Rightarrow> Some (k v (s\<lparr>sla_mem := M\<rparr>)))"

fun sla_consumer :: "u64 \<Rightarrow> nat \<Rightarrow> sl_consumer \<Rightarrow> sla_sys \<Rightarrow> sla_sys option" where
  "sla_consumer capacity i SC_Idle s = Some (sla_read Consumer Plain_Head s (\<lambda>head t. t\<lparr>sla_cons := SC_Head head\<rparr>))"
| "sla_consumer capacity i (SC_Head head) s =
     Some (sla_read Consumer Plain_Tail s (\<lambda>tail t. t\<lparr>sla_cons := if tail = head then SC_Idle else SC_Nonempty tail\<rparr>))"
| "sla_consumer capacity i (SC_Nonempty tail) s =
     sla_load i s (\<lambda>seqStart t. t\<lparr>sla_cons := if seqStart mod 2 \<noteq> 0 then SC_Idle else SC_Started tail seqStart\<rparr>)"
| "sla_consumer capacity i (SC_Started tail seqStart) s =
     Some (if tail < capacity then sla_read Consumer (Slot (unat tail)) s (\<lambda>item t. t\<lparr>sla_cons := SC_Read tail seqStart (ucast item)\<rparr>)
           else s\<lparr>sla_undefined := True\<rparr>)"
| "sla_consumer capacity i (SC_Read tail seqStart item) s =
     sla_load i s (\<lambda>seqEnd t. t\<lparr>sla_cons := if seqStart = seqEnd then SC_Stable tail item else SC_Idle\<rparr>)"
| "sla_consumer capacity i (SC_Stable tail item) s =
     Some (sla_write Consumer Plain_Tail ((tail + 1) AND (capacity - 1)) s
       (\<lambda>t. t\<lparr>sla_cons := SC_Idle, sla_received := sla_received t @ [item]\<rparr>))"

inductive sla_step :: "u64 \<Rightarrow> sla_sys \<Rightarrow> sla_sys \<Rightarrow> bool" for capacity :: u64 where
  sla_producer: "sla_step capacity s (sla_producer capacity x (sla_prod s) s)"
| sla_consumer: "sla_consumer capacity i (sla_cons s) s = Some t \<Longrightarrow> sla_step capacity s t"

definition sla_start :: sla_sys where
  "sla_start = \<lparr>sla_mem = new_memory (\<lambda>_. 0) (\<lambda>_. 0), sla_prod = SP_Idle, sla_cons = SC_Idle, sla_sent = [],
     sla_received = [], sla_undefined = False\<rparr>"

section \<open>What the consumer can know\<close>

text \<open>
  As long as nothing has raced the consumer has taken over no view of the producer: it has seen both
  indices 0 and has never come to the counter, whose loads are the only acquiring ones.
\<close>

definition unaware :: "sla_sys \<Rightarrow> bool" where
  "unaware s \<longleftrightarrow> mm_view (sla_mem s) Consumer (Clk Producer) = 0 \<and> sla_received s = [] \<and>
     (sla_cons s = SC_Idle \<or> sla_cons s = SC_Head 0) \<and> mm_plain (sla_mem s) Plain_Tail = 0 \<and>
     (mm_writes (sla_mem s) Plain_Head Producer = 0 \<longrightarrow> mm_plain (sla_mem s) Plain_Head = 0)"

lemma sla_producer_unaware:
  assumes "unaware s" "\<not> sla_undefined (sla_producer capacity x p s)"
  shows "unaware (sla_producer capacity x p s)"
  using assms
  by (cases p) (auto simp: unaware_def sla_read_def sla_write_def sla_count_def memory_defs Let_def split: option.splits if_splits prod.splits)

lemma sla_consumer_unaware:
  assumes "unaware s" "sla_consumer capacity i (sla_cons s) s = Some t" "\<not> sla_undefined t"
  shows "unaware t"
  using assms
  by (auto simp: unaware_def sla_read_def memory_defs all_parties Let_def split: option.splits if_splits)

lemma sla_undefined_stays: "sla_step capacity s t \<Longrightarrow> sla_undefined s \<Longrightarrow> sla_undefined t"
proof (induction rule: sla_step.induct)
  case (sla_producer s x)
  then show ?case
    by (cases "sla_prod s") (auto simp: sla_read_def sla_write_def sla_count_def Let_def split: option.splits)
next
  case (sla_consumer i s t)
  then show ?case
    by (cases "sla_cons s") (auto simp: sla_read_def sla_write_def sla_load_def Let_def split: option.splits if_splits)
qed

lemma sla_run_unaware: "(sla_step capacity)\<^sup>*\<^sup>* sla_start t \<Longrightarrow> sla_undefined t \<or> unaware t"
proof (induction rule: rtranclp_induct)
  case base
  then show ?case by (simp add: unaware_def sla_start_def new_memory_def)
next
  case (step s t)
  from step.hyps(2) step.IH show ?case
    using sla_undefined_stays [OF step.hyps(2)]
    by (auto elim!: sla_step.cases dest: sla_producer_unaware sla_consumer_unaware)
qed

text \<open>Steps of the producer alone.\<close>

definition sla_enqueue :: "u64 \<Rightarrow> u32 list \<Rightarrow> sla_sys \<Rightarrow> sla_sys" where
  "sla_enqueue capacity = fold (\<lambda>x s. sla_producer capacity x (sla_prod s) s)"

lemma sla_enqueue_run: "(sla_step capacity)\<^sup>*\<^sup>* s (sla_enqueue capacity xs s)"
  by (induction xs arbitrary: s)
    (auto simp: sla_enqueue_def intro: converse_rtranclp_into_rtranclp sla_producer)

lemmas sla_eval = sla_enqueue_def sla_start_def new_memory_def sla_read_def sla_write_def sla_count_def memory_defs
  all_parties Let_def join_def fun_upd_def

section \<open>Properties\<close>

text \<open>Property C32: the sequence-locked queue passes no item without a data race. As its indices are plain
  objects, in every execution of one producer and one consumer on their own in which no two accesses race
  the consumer has received nothing; and there is an execution that races.\<close>

theorem sl_every_item_races:
  "(\<forall>t. (sla_step capacity)\<^sup>*\<^sup>* sla_start t \<longrightarrow> \<not> sla_undefined t \<longrightarrow> sla_received t = []) \<and>
   (\<exists>t. (sla_step 4)\<^sup>*\<^sup>* sla_start t \<and> sla_undefined t)"
proof (intro conjI allI impI)
  show "sla_received t = []" if "(sla_step capacity)\<^sup>*\<^sup>* sla_start t" "\<not> sla_undefined t" for t
    using sla_run_unaware [OF that(1)] that(2) by (simp add: unaware_def)
  let ?s = "sla_enqueue 4 [5, 5, 5, 5, 5] sla_start"
  have "map_option sla_undefined (sla_consumer 4 0 (sla_cons ?s) ?s) = Some True" by (simp add: sla_eval)
  then obtain t where "sla_consumer 4 0 (sla_cons ?s) ?s = Some t" "sla_undefined t" by auto
  with sla_consumer [of 4 0 ?s t] sla_enqueue_run [of 4 sla_start] show "\<exists>t. (sla_step 4)\<^sup>*\<^sup>* sla_start t \<and> sla_undefined t"
    by (meson rtranclp.rtrancl_into_rtrancl)
qed

text \<open>An \<open>Enqueue\<close> on its own, which does not race: nothing has been received.\<close>

theorem sl_every_item_races_witness:
  "\<exists>t. (sla_step 4)\<^sup>*\<^sup>* sla_start t \<and> \<not> sla_undefined t \<and> sla_sent t = [5] \<and> sla_received t = []"
proof -
  let ?t = "sla_enqueue 4 [5, 5, 5, 5, 5, 5] sla_start"
  have "\<not> sla_undefined ?t \<and> sla_sent ?t = [5]" by (simp add: sla_eval)
  with sla_enqueue_run [of 4 sla_start] sl_every_item_races [of 4] show ?thesis by blast
qed

end
