(* ===== verification/Runs.thy ===== *)
theory Runs
  imports Main
begin

text \<open>
  Infinite runs as functions from the naturals: quantities that end up constant because they can only go
  down, and states that are reached because a rank goes down again and again.
\<close>

definition constant_from :: "nat \<Rightarrow> (nat \<Rightarrow> 'a) \<Rightarrow> bool" where
  "constant_from n f \<longleftrightarrow> (\<forall>i \<ge> n. f i = f n)"

lemma constant_fromD: "constant_from n f \<Longrightarrow> n \<le> i \<Longrightarrow> n \<le> j \<Longrightarrow> f i = f j"
  by (metis constant_from_def)

lemma constant_from_mono: "constant_from n f \<Longrightarrow> n \<le> m \<Longrightarrow> constant_from m f"
  by (metis constant_from_def order_trans)

lemma constant_fromI:
  assumes "\<And>i. n \<le> i \<Longrightarrow> f (Suc i) = f i"
  shows "constant_from n f"
  unfolding constant_from_def
proof (intro allI impI)
  show "f i = f n" if "n \<le> i" for i
    using that assms by (induction i rule: dec_induct) simp_all
qed

lemma settles:
  assumes "wf r" "\<And>i. n \<le> i \<Longrightarrow> f (Suc i) = f i \<or> (g (f (Suc i)), g (f i)) \<in> r"
  shows "\<exists>m \<ge> n. constant_from m f"
proof -
  have "wf (inv_image r g)" using assms(1) by (rule wf_inv_image)
  then show ?thesis
    using assms(2)
  proof (induction "f n" arbitrary: n rule: wf_induct_rule)
    case less
    show ?case
    proof (cases "\<forall>i \<ge> n. f (Suc i) = f i")
      case True
      then have "constant_from n f" by (intro constant_fromI) simp
      then show ?thesis by blast
    next
      case False
      then obtain j where j: "n \<le> j" "f (Suc j) \<noteq> f j" "\<forall>i. n \<le> i \<and> i < j \<longrightarrow> f (Suc i) = f i"
        using exists_least_iff [of "\<lambda>j. n \<le> j \<and> f (Suc j) \<noteq> f j"] by auto
      have "f j = f n" using j(1,3) by (induction j rule: dec_induct) simp_all
      then have "(f (Suc j), f n) \<in> inv_image r g" using less.prems [OF j(1)] j(2) by simp
      from less.hyps [OF this] less.prems j(1) show ?thesis by (meson Suc_leD order_trans)
    qed
  qed
qed

lemma settles_measure:
  fixes rank :: "'a \<Rightarrow> nat"
  assumes "\<And>i. n \<le> i \<Longrightarrow> f (Suc i) = f i \<or> rank (f (Suc i)) < rank (f i)"
  shows "\<exists>m \<ge> n. constant_from m f"
  by (rule settles [of less_than n f rank]) (use assms in auto)

lemma settles_all:
  fixes f :: "'c :: finite \<Rightarrow> nat \<Rightarrow> 'a"
  assumes "\<And>c. \<exists>m \<ge> n. constant_from m (f c)"
  shows "\<exists>m \<ge> n. \<forall>c. constant_from m (f c)"
proof -
  obtain m where m: "\<And>c. n \<le> m c" "\<And>c. constant_from (m c) (f c)" using assms by metis
  let ?m = "Max (insert n (range m))"
  have "m c \<le> ?m" for c by (intro Max_ge) simp_all
  then have "constant_from ?m (f c)" for c using constant_from_mono [OF m(2)] by blast
  moreover have "n \<le> ?m" by (intro Max_ge) simp_all
  ultimately show ?thesis by blast
qed

text \<open>A rank that never goes up, and goes down again and again unless the goal is reached.\<close>

lemma descends:
  fixes rank :: "nat \<Rightarrow> nat"
  assumes "\<And>i. n \<le> i \<Longrightarrow> goal (Suc i) \<or> rank (Suc i) \<le> rank i"
    and "\<And>i. n \<le> i \<Longrightarrow> \<exists>j \<ge> i. goal (Suc j) \<or> rank (Suc j) < rank j"
  shows "\<exists>i \<ge> n. goal i"
proof (rule ccontr)
  assume "\<not> ?thesis"
  then have no: "\<not> goal i" if "n \<le> i" for i using that by blast
  have mono: "rank j \<le> rank i" if "n \<le> i" "i \<le> j" for i j
    using that(2)
  proof (induction j rule: dec_induct)
    case (step k)
    have "n \<le> k" using that(1) step.hyps(1) by simp
    with assms(1) [of k] no [of "Suc k"] step.IH show ?case by simp
  qed simp
  have "\<exists>i \<ge> n. rank i + k \<le> rank n" for k
  proof (induction k)
    case (Suc k)
    then obtain i where i: "n \<le> i" "rank i + k \<le> rank n" by blast
    obtain j where j: "i \<le> j" "goal (Suc j) \<or> rank (Suc j) < rank j" using assms(2) [OF i(1)] by blast
    have "n \<le> Suc j" using i(1) j(1) by simp
    moreover from this have "rank (Suc j) < rank j" using j(2) no by blast
    moreover have "rank j \<le> rank i" using mono [OF i(1) j(1)] .
    ultimately show ?case using i(2) by (intro exI [of _ "Suc j"]) simp
  qed auto
  from this [of "Suc (rank n)"] show False by auto
qed

text \<open>
  Turns: where each thread has its turn again and again, and acts when it can and takes part, there is a run
  that is fair to all that take part.
\<close>

lemma fair_schedule:
  fixes act :: "'t \<Rightarrow> 's \<Rightarrow> 's \<Rightarrow> bool" and turn :: "nat \<Rightarrow> 't"
  assumes "\<And>th i. \<exists>j \<ge> i. turn j = th"
  shows "\<exists>run. run 0 = s \<and>
    (\<forall>i. run (Suc i) = run i \<or> (\<exists>th. P th \<and> act th (run i) (run (Suc i)))) \<and>
    (\<forall>th i. P th \<longrightarrow> (\<exists>j \<ge> i. act th (run j) (run (Suc j)) \<or> \<not> (\<exists>t. act th (run j) t)))"
proof -
  define go where "go th s = (if P th \<and> (\<exists>t. act th s t) then SOME t. act th s t else s)" for th s
  define run where "run = rec_nat s (\<lambda>i. go (turn i))"
  have run: "run 0 = s" "run (Suc i) = go (turn i) (run i)" for i by (simp_all add: run_def)
  have go: "P th \<and> act th u (go th u) \<or> go th u = u \<and> (P th \<longrightarrow> \<not> (\<exists>t. act th u t))" for th u
  proof (cases "P th \<and> (\<exists>t. act th u t)")
    case True
    then have "go th u = (SOME t. act th u t)" by (simp add: go_def)
    with True show ?thesis by (metis someI_ex)
  qed (auto simp: go_def)
  have "\<exists>j \<ge> i. act th (run j) (run (Suc j)) \<or> \<not> (\<exists>t. act th (run j) t)" if "P th" for th i
  proof -
    obtain j where "i \<le> j" "turn j = th" using assms by blast
    with go [of th "run j"] that show ?thesis by (metis run(2))
  qed
  moreover have "run (Suc i) = run i \<or> (\<exists>th. P th \<and> act th (run i) (run (Suc i)))" for i
    using go [of "turn i" "run i"] by (auto simp: run(2))
  ultimately show ?thesis using run(1) by blast
qed

end
