(* ===== verification/Transpose_Threads.thy ===== *)
theory Transpose_Threads
  imports Transpose_Session
begin

text \<open>
  Which thread makes a step of the sessions: the main thread of a client, its communicator, the handler
  (the server's communicator thread), or the dispatcher. A step is told by what it changes: every thread
  has something that no other thread changes.
\<close>

section \<open>Threads\<close>

datatype thread = Client_Main u32 | Client_Reader u32 | Handler_Thread | Dispatcher_Thread

fun changes :: "thread \<Rightarrow> 'k session \<Rightarrow> 'k session \<Rightarrow> bool" where
  "changes (Client_Main c) s t \<longleftrightarrow> ss_point t c \<noteq> ss_point s c \<or> sc_clients (ss_service t) c \<noteq> sc_clients (ss_service s) c"
| "changes (Client_Reader c) s t \<longleftrightarrow> ss_read t c \<noteq> ss_read s c"
| "changes Handler_Thread s t \<longleftrightarrow> sr_handler (ss_srv t) \<noteq> sr_handler (ss_srv s) \<or> (\<exists>c. length (ss_wire t c) < length (ss_wire s c))"
| "changes Dispatcher_Thread s t \<longleftrightarrow> sr_dispatcher (ss_srv t) \<noteq> sr_dispatcher (ss_srv s) \<or>
     sc_worker (ss_service t) \<noteq> sc_worker (ss_service s) \<or> sc_timing (ss_service t) \<noteq> sc_timing (ss_service s)"

definition acts ::
  "'k server_env \<Rightarrow> (u32 \<Rightarrow> sys_config) \<Rightarrow> (u32 \<Rightarrow> int) \<Rightarrow> thread \<Rightarrow> 'k session \<Rightarrow> 'k session \<Rightarrow> bool" where
  "acts E G socket th s t \<longleftrightarrow> session_step E G socket s t \<and> changes th s t"

text \<open>The one step that is of no thread: the operator ends the server.\<close>

definition stopped :: "'k session \<Rightarrow> 'k session" where
  "stopped s = s\<lparr>ss_service := (ss_service s)\<lparr>sc_srv := (ss_srv s)\<lparr>sr_ws := (sr_ws (ss_srv s))\<lparr>ws_running := False\<rparr>\<rparr>\<rparr>\<rparr>"

lemma client_step_changes: "client_step g v v' \<Longrightarrow> sy_client v' \<noteq> sy_client v"
  by (induction rule: client_step.induct) auto

lemma busy_handler_changes: "handler_step E r r' \<Longrightarrow> sr_handler r \<noteq> H_Idle \<Longrightarrow> sr_handler r' \<noteq> sr_handler r"
  by (induction rule: handler_step.induct) simp_all

lemma dispatcher_changes: "dispatcher_step r r' \<Longrightarrow> sr_dispatcher r' \<noteq> sr_dispatcher r"
  by (induction rule: dispatcher_step.induct) simp_all

lemma serve_changes:
  "serve_step i ctx v v' \<Longrightarrow> sr_dispatcher (sc_srv v) = D_Serve i \<Longrightarrow>
     sr_dispatcher (sc_srv v') \<noteq> sr_dispatcher (sc_srv v) \<or> sc_worker v' \<noteq> sc_worker v \<or> sc_timing v' \<noteq> sc_timing v"
  by (induction rule: serve_step.induct) (simp_all add: set_stats_def)

lemma some_thread_acts:
  assumes "session_step E G socket s t"
  shows "t = stopped s \<or> (\<exists>th. acts E G socket th s t)"
proof -
  have actsI: "?thesis" if "changes th s t" for th using assms that acts_def by blast
  from assms show ?thesis
  proof cases
    case (m_request c sv v w now)
    then show ?thesis using client_step_changes [OF m_request(4)] by (intro actsI [of "Client_Main c"]) (simp add: view_simps)
  next
    case (s_receive c msg rest ws)
    then show ?thesis by (intro actsI [of Handler_Thread]) (auto intro: exI [of _ c])
  next
    case (s_handler r)
    then show ?thesis using busy_handler_changes [OF s_handler(3,2)] by (intro actsI [of Handler_Thread]) simp
  next
    case (s_dispatcher r)
    then show ?thesis using dispatcher_changes by (intro actsI [of Dispatcher_Thread]) simp
  next
    case (s_serve i v)
    then show ?thesis using serve_changes [OF s_serve(3,2)] by (intro actsI [of Dispatcher_Thread]) simp
  next
    case (m_message msgs c)
    then show ?thesis by (intro actsI [of "Client_Reader c"]) simp
  next
    case s_stop
    then show ?thesis by (simp add: stopped_def)
  next
    case (m_subscribe c msg)
    then show ?thesis by (intro actsI [of "Client_Main c"]) simp
  next
    case (m_answered c)
    then show ?thesis by (intro actsI [of "Client_Main c"]) simp
  next
    case (m_unsubscribe c msg)
    then show ?thesis by (intro actsI [of "Client_Main c"]) simp
  next
    case (m_log c)
    then show ?thesis by (intro actsI [of "Client_Main c"]) simp
  next
    case (m_check c rows cols errorFound)
    then show ?thesis by (intro actsI [of "Client_Main c"]) simp
  next
    case (m_bad_check c)
    then show ?thesis by (intro actsI [of "Client_Main c"]) simp
  qed
qed

text \<open>What the step of one thread leaves alone of another.\<close>

lemma thread_keeps:
  assumes "session_step E G socket s t" "changes th s t" "changes th' s t"
  shows "th = th'"
  using assms(1)
proof cases
  case (m_request c sv v w now)
  then show ?thesis using assms(2,3) by (cases th; cases th') (auto split: if_splits)
next
  case (s_serve i v)
  have "sr_handler (sc_srv v) = sr_handler (ss_srv s)" "sc_clients v = sc_clients (ss_service s)"
    using serve_keeps(1) [OF s_serve(3)] serve_same_stage(2) [OF s_serve(3)] by simp_all
  then show ?thesis using assms(2,3) s_serve(1) by (cases th; cases th') auto
next
  case (s_dispatcher r)
  have "\<forall>i. sr_dispatcher (ss_srv s) \<noteq> D_Serve i" using s_dispatcher(3) by (auto simp: served_def)
  then have "sr_handler r = sr_handler (ss_srv s)" using dispatcher_keeps [OF s_dispatcher(2)] by simp
  then show ?thesis using assms(2,3) s_dispatcher(1) by (cases th; cases th') auto
next
  case (s_handler r)
  have "sr_dispatcher r = sr_dispatcher (ss_srv s)" using s_handler(3) by (cases; simp)
  then show ?thesis using assms(2,3) s_handler(1) by (cases th; cases th') auto
qed (use assms(2,3) in \<open>cases th; cases th'; auto split: if_splits\<close>)+

end
