(* ===== verification/Transpose_Crash.thy ===== *)
theory Transpose_Crash
  imports Transpose_Threads
begin

text \<open>
  Processes that end, killed at any point or after their exit. A client that is killed sends no
  unsubscription and unlinks none of its objects. When the other end of a connection is gone, the server's
  communicator closes the connection and does not tell the message handler; it looks at the hang-up before
  it looks for bytes that have arrived, so that a message it has not read is lost. A \<open>send\<close> to a connection
  whose other end is gone raises \<open>SIGPIPE\<close>, which the server does not handle, so that it ends the server.
\<close>

section \<open>The steps\<close>

text \<open>
  \<open>cr_dead\<close> are the clients whose process is gone, \<open>cr_dropped\<close> those whose connection the server has closed.
  What is on the wire of a closed connection stays there, and nobody reads it.
\<close>

record 'k crash =
  cr_session :: "'k session"
  cr_dead :: "u32 set"
  cr_dropped :: "u32 set"
  cr_server :: bool

text \<open>The threads that still run, and the thread that is stopped by a \<open>send\<close> to a client that is gone.\<close>

fun lives :: "'k crash \<Rightarrow> thread \<Rightarrow> bool" where
  "lives s (Client_Main c) \<longleftrightarrow> c \<notin> cr_dead s"
| "lives s (Client_Reader c) \<longleftrightarrow> c \<notin> cr_dead s"
| "lives s Handler_Thread \<longleftrightarrow> cr_server s"
| "lives s Dispatcher_Thread \<longleftrightarrow> cr_server s"

fun sends_to :: "handler_pc \<Rightarrow> u32 option" where
  "sends_to (H_Add_Respond sk c) = Some c"
| "sends_to _ = None"

definition closed_wires :: "'k crash \<Rightarrow> 'k session \<Rightarrow> bool" where
  "closed_wires s u \<longleftrightarrow> (\<forall>c \<in> cr_dropped s. ss_wire u c = ss_wire (cr_session s) c)"

text \<open>
  What POSIX says of a \<open>send\<close> to a stream whose other end is gone: \<open>SIGPIPE\<close> for the caller unless the flags have
  \<open>MSG_NOSIGNAL\<close>, and then an error. \<open>Send\<close> calls it with no flags; the server's \<open>main\<close> installs no handler and
  blocks no signal, so that the signal has its default action and ends the process. An error would only be printed.
\<close>

datatype send_outcome = Send_Done | Send_Error | Send_Signal

definition MSG_NOSIGNAL :: u32 where
  "MSG_NOSIGNAL = 0x4000"

fun posix_send :: "u32 \<Rightarrow> bool \<Rightarrow> send_outcome" where
  "posix_send flags other_end_gone =
     (if \<not> other_end_gone then Send_Done else if flags AND MSG_NOSIGNAL = 0 then Send_Signal else Send_Error)"

definition send_flags :: u32 where
  "send_flags = 0"

definition broken_pipe :: "'k crash \<Rightarrow> bool" where
  "broken_pipe s \<longleftrightarrow> (case sends_to (sr_handler (ss_srv (cr_session s))) of
       None \<Rightarrow> False
     | Some c \<Rightarrow> posix_send send_flags (c \<in> cr_dead s) = Send_Signal)"

text \<open>
  A thread that still runs makes a step of the sessions, but for the handler whose \<open>send\<close> raises the signal, with
  which the server ends. A process can be gone at any time; the communicator, when it is not in a call of the
  handler, closes the connection of a process that is gone.
\<close>

inductive crash_step ::
  "'k server_env \<Rightarrow> (u32 \<Rightarrow> sys_config) \<Rightarrow> (u32 \<Rightarrow> int) \<Rightarrow> 'k crash \<Rightarrow> 'k crash \<Rightarrow> bool"
  for E :: "'k server_env" and G :: "u32 \<Rightarrow> sys_config" and socket :: "u32 \<Rightarrow> int" where
  crash_run: "acts E G socket th (cr_session s) u \<Longrightarrow> lives s th \<Longrightarrow> closed_wires s u \<Longrightarrow>
     th = Handler_Thread \<longrightarrow> \<not> broken_pipe s \<Longrightarrow>
     crash_step E G socket s (s\<lparr>cr_session := u\<rparr>)"
| crash_stop: "cr_server s \<Longrightarrow> crash_step E G socket s (s\<lparr>cr_session := stopped (cr_session s)\<rparr>)"
| crash_kill: "c \<notin> cr_dead s \<Longrightarrow> crash_step E G socket s (s\<lparr>cr_dead := insert c (cr_dead s)\<rparr>)"
| crash_drop: "cr_server s \<Longrightarrow> sr_handler (ss_srv (cr_session s)) = H_Idle \<Longrightarrow> c \<in> cr_dead s \<Longrightarrow>
     crash_step E G socket s (s\<lparr>cr_dropped := insert c (cr_dropped s)\<rparr>)"
| crash_pipe: "cr_server s \<Longrightarrow> broken_pipe s \<Longrightarrow> crash_step E G socket s (s\<lparr>cr_server := False\<rparr>)"

definition crash_start :: "'k session \<Rightarrow> 'k crash" where
  "crash_start s = \<lparr>cr_session = s, cr_dead = {}, cr_dropped = {}, cr_server = True\<rparr>"

lemma broken_pipe_iff:
  "broken_pipe s \<longleftrightarrow> (case sends_to (sr_handler (ss_srv (cr_session s))) of None \<Rightarrow> False | Some c \<Rightarrow> c \<in> cr_dead s)"
  by (simp add: broken_pipe_def send_flags_def split: option.split)

text \<open>Forgetting who is dead, the runs are runs of the sessions: what is safe there is safe here.\<close>

interpretation crash_sim: stuttering_simulation
  "crash_step E G socket" "session_step E G socket" "\<lambda>s. True" cr_session
  for E :: "'k server_env" and G :: "u32 \<Rightarrow> sys_config" and socket :: "u32 \<Rightarrow> int"
proof unfold_locales
  show "cr_session t = cr_session s \<or> session_step E G socket (cr_session s) (cr_session t)"
    if "crash_step E G socket s t" for s t
    using that by (cases) (auto simp: acts_def stopped_def intro: s_stop)
qed

lemma crash_session: "(crash_step E G socket)\<^sup>*\<^sup>* s t \<Longrightarrow> (session_step E G socket)\<^sup>*\<^sup>* (cr_session s) (cr_session t)"
  by (rule crash_sim.simulates_reach) simp_all

lemma crash_ok:
  assumes "(crash_step E G socket)\<^sup>*\<^sup>* s t" "session_ok G socket (cr_session s)"
  shows "session_ok G socket (cr_session t)"
  by (rule session_run_ok [OF crash_session [OF assms(1)] assms(2)])

section \<open>Clients that are gone\<close>

text \<open>The dead stay dead, and stay at the point they were killed at; closed connections stay closed.\<close>

lemma dead_step:
  assumes "crash_step E G socket s t" "c \<in> cr_dead s"
  shows "c \<in> cr_dead t" "ss_point (cr_session t) c = ss_point (cr_session s) c"
    "sc_clients (ss_service (cr_session t)) c = sc_clients (ss_service (cr_session s)) c"
proof -
  show "c \<in> cr_dead t" using assms by (cases) auto
  have "\<not> changes (Client_Main c) (cr_session s) (cr_session t)"
    using assms(1)
  proof cases
    case (crash_run th u)
    then have "th \<noteq> Client_Main c" using assms(2) by auto
    then show ?thesis using crash_run thread_keeps [of E G socket "cr_session s" u th "Client_Main c"] by (auto simp: acts_def)
  qed (simp_all add: stopped_def)
  then show "ss_point (cr_session t) c = ss_point (cr_session s) c"
    "sc_clients (ss_service (cr_session t)) c = sc_clients (ss_service (cr_session s)) c" by simp_all
qed

lemma dead_run:
  assumes "(crash_step E G socket)\<^sup>*\<^sup>* s t" "c \<in> cr_dead s"
  shows "c \<in> cr_dead t \<and> ss_point (cr_session t) c = ss_point (cr_session s) c"
  using assms(1)
proof (induction rule: rtranclp_induct)
  case (step t u)
  then show ?case using dead_step [OF step.hyps(2)] by simp
qed (simp add: assms(2))

lemma dropped_step:
  assumes "crash_step E G socket s t" "c \<in> cr_dropped s"
  shows "c \<in> cr_dropped t \<and> ss_wire (cr_session t) c = ss_wire (cr_session s) c"
  using assms by (cases) (auto simp: closed_wires_def stopped_def)

lemma dropped_run:
  assumes "(crash_step E G socket)\<^sup>*\<^sup>* s t" "c \<in> cr_dropped s"
  shows "c \<in> cr_dropped t \<and> ss_wire (cr_session t) c = ss_wire (cr_session s) c"
  using assms(1)
proof (induction rule: rtranclp_induct)
  case (step t u)
  then show ?case using dropped_step [OF step.hyps(2)] by simp
qed (simp add: assms(2))

text \<open>
  The clients that the handler will never hear of again although they have a slot: those killed in their loop
  of requests, and those whose unsubscription was on its way when the connection was closed.
\<close>

definition abandoned :: "'k crash \<Rightarrow> u32 \<Rightarrow> bool" where
  "abandoned s c \<longleftrightarrow> c \<in> cr_dead s \<and> (ss_point (cr_session s) c = M_Requests \<or>
     c \<in> cr_dropped s \<and> MT_Unsubscribe \<in> set (map msg_type (ss_wire (cr_session s) c)))"

lemma abandoned_run:
  assumes "(crash_step E G socket)\<^sup>*\<^sup>* s t" "abandoned s c"
  shows "abandoned t c"
  using assms
proof (induction rule: rtranclp_induct)
  case (step t u)
  then show ?case using dead_step [OF step.hyps(2)] dropped_step [OF step.hyps(2)] by (auto simp: abandoned_def)
qed

lemma unsubscribing_stage:
  assumes "stage_ok p wire e sub sent" "MT_Unsubscribe \<in> set wire"
  shows "sub \<and> e = No_Errand"
  using assms by (cases p) (auto simp: message_types split: if_splits)

lemma abandoned_slot:
  assumes "session_ok G socket (cr_session s)" "abandoned s c"
  shows "subscribed (ss_bank (cr_session s)) c" "errand_for (sr_handler (ss_srv (cr_session s))) (ss_bank (cr_session s)) c = No_Errand"
proof -
  have stage: "stage_now socket (ss_srv (cr_session s)) (ss_point (cr_session s) c) (ss_wire (cr_session s) c) c"
    by (rule session_invD(5) [OF session_okD(2) [OF assms(1)]])
  then have "subscribed (ss_bank (cr_session s)) c \<and>
      errand_for (sr_handler (ss_srv (cr_session s))) (ss_bank (cr_session s)) c = No_Errand"
    using assms(2) unsubscribing_stage [OF stage [unfolded stage_now_def]] by (auto simp: abandoned_def stage_now_def)
  then show "subscribed (ss_bank (cr_session s)) c" "errand_for (sr_handler (ss_srv (cr_session s))) (ss_bank (cr_session s)) c = No_Errand"
    by simp_all
qed

text \<open>Another process with its id is turned away.\<close>

lemma known_id_ignored:
  assumes "subscribed (ws_clientBank ws) c" "senderId msg = c" "msg_type msg = MT_Subscribe"
  shows "MessageHandler ws sk msg = H_Idle"
proof -
  have "ClientExists ws c \<noteq> None" using assms(1) by (simp add: ClientExists_subscribed)
  then show ?thesis using assms(2,3) by (auto simp: MessageHandler_def ProcessSubscribeMessage_def split: option.splits)
qed

text \<open>The slots that are left: with the handler at rest the slots in use are those of the subscribed clients.\<close>

lemma free_slots:
  assumes "session_ok G socket (cr_session s)" "sr_handler (ss_srv (cr_session s)) = H_Idle"
  shows "card {i. i < MAX_CLIENTS \<and> \<not> getBit (ws_validClientsBitSet (sr_ws (ss_srv (cr_session s)))) i} + card {c. abandoned s c}
    \<le> MAX_CLIENTS"
proof -
  let ?bank = "ss_bank (cr_session s)" and ?r = "ss_srv (cr_session s)"
  let ?free = "{i. i < MAX_CLIENTS \<and> \<not> getBit (ws_validClientsBitSet (sr_ws ?r)) i}"
  have used: "subscribed_slots ?bank = valid_slots ?r"
    using srv_invD(4) [OF session_okD(6) [OF assms(1)]] assms(2) by simp
  have "\<exists>i. i \<in> valid_slots ?r \<and> cx_id (?bank ! i) = c" if "abandoned s c" for c
    using abandoned_slot(1) [OF assms(1) that] unfolding used [symmetric] by (auto simp: subscribed_def subscribed_slots_def)
  then have "{c. abandoned s c} \<subseteq> (\<lambda>i. cx_id (?bank ! i)) ` valid_slots ?r" by blast
  moreover have fin: "finite (valid_slots ?r)" by (simp add: valid_slots_def)
  ultimately have "card {c. abandoned s c} \<le> card (valid_slots ?r)" by (meson card_image_le card_mono finite_imageI le_trans)
  moreover have "?free \<union> valid_slots ?r = {..<MAX_CLIENTS}" "?free \<inter> valid_slots ?r = {}" by (auto simp: valid_slots_def)
  then have "card ?free + card (valid_slots ?r) = MAX_CLIENTS"
    using card_Un_disjoint [of ?free "valid_slots ?r"] fin by simp
  ultimately show ?thesis by linarith
qed

section \<open>Runs in which nobody dies\<close>

lemma crash_step_start:
  assumes "session_step E G socket t u"
  shows "crash_step E G socket (crash_start t) (crash_start u)"
proof -
  have alive: "lives (crash_start t) th" "\<not> broken_pipe (crash_start t)" "cr_server (crash_start t)" "closed_wires (crash_start t) v" for th v
    by (cases th; simp add: crash_start_def) (simp_all add: crash_start_def broken_pipe_iff closed_wires_def split: option.split)
  have u: "crash_start u = (crash_start t)\<lparr>cr_session := u\<rparr>" "cr_session (crash_start t) = t"
    by (simp_all add: crash_start_def)
  show ?thesis
    using some_thread_acts [OF assms] crash_stop [OF alive(3), of E G socket] crash_run [OF _ alive(1,4), of E G socket _ u] alive(2)
    unfolding u by blast
qed

lemma crash_of_session:
  assumes "(session_step E G socket)\<^sup>*\<^sup>* s t"
  shows "(crash_step E G socket)\<^sup>*\<^sup>* (crash_start s) (crash_start t)"
  using assms
proof (induction rule: rtranclp_induct)
  case (step t u)
  from step.IH crash_step_start [OF step.hyps(2)] show ?case by (rule rtranclp.rtrancl_into_rtrancl)
qed simp

lemma killed:
  assumes "(session_step E G socket)\<^sup>*\<^sup>* s t"
  shows "(crash_step E G socket)\<^sup>*\<^sup>* (crash_start s) (crash_start t\<lparr>cr_dead := {c}\<rparr>)"
  using crash_of_session [OF assms] crash_kill [of c "crash_start t" E G socket]
  by (simp add: crash_start_def)

text \<open>The client 7 up to the point where the handler is about to answer it.\<close>

lemma demo_answering:
  "\<exists>t. (session_step demo_env demo_clients demo_socket)\<^sup>*\<^sup>* demo_session t \<and> sr_handler (ss_srv t) = H_Add_Respond 5 7 \<and>
     ws_running (sr_ws (ss_srv t))"
proof -
  obtain ctx kern where su: "setup_context demo_env 7 6 6 1 5 new_context [] = Some (True, ctx, kern)"
    using demo_server_setup by blast
  obtain a where a: "(session_step demo_env demo_clients demo_socket)\<^sup>*\<^sup>* demo_session a"
      "ss_service a = (service_start demo_workspace [] demo_store)\<lparr>sc_srv := (srv_start demo_workspace [])\<lparr>sr_handler := H_Add_Write 5 7 6 6 1 0\<rparr>\<rparr>"
    using demo_taken [of demo_env] by blast
  then have srv: "ss_srv a = (srv_start demo_workspace [])\<lparr>sr_handler := H_Add_Write 5 7 6 6 1 0\<rparr>" by simp
  obtain r where r: "(\<lambda>r r'. handler_step demo_env r r' \<and> sr_handler r \<noteq> H_Idle)\<^sup>*\<^sup>* (ss_srv a) r" "sr_handler r = H_Add_Respond 5 7"
    using demo_adds [OF su] unfolding srv by blast
  from handler_run [OF r(1), of demo_clients demo_socket] obtain b
    where "(session_step demo_env demo_clients demo_socket)\<^sup>*\<^sup>* a b" "ss_srv b = r" by auto
  moreover have "ws_running (sr_ws r)"
    using r(1) by (induction rule: rtranclp_induct) (auto simp: srv srv_start_def demo_workspace_def elim: handler_step.cases)
  ultimately show ?thesis using a(1) r(2) by (metis rtranclp_trans)
qed

section \<open>Properties\<close>

text \<open>Property C22: a client that is killed in its loop of requests keeps its slot for ever, whatever any
  process does: the server never takes it for gone, and no subscription from a process that has the same
  id, on whatever connection, is accepted or answered.\<close>

theorem dead_client_keeps_slot:
  assumes "server_main S hardware argv pid net = (Inr (Some (ipc, ws)), net')" "store_ready G store"
    "\<forall>c. config_ok (G c) \<and> sg_threads (G c) = ws_numWorkerThreads ws" "work_ready G work" "references_ready G store"
    "inj socket" "(crash_step E G socket)\<^sup>*\<^sup>* (crash_start (session_start ws kern store work)) s"
    "c \<in> cr_dead s" "ss_point (cr_session s) c = M_Requests" "(crash_step E G socket)\<^sup>*\<^sup>* s t"
    "senderId msg = c" "msg_type msg = MT_Subscribe"
  shows "subscribed (ss_bank (cr_session t)) c \<and> MessageHandler (sr_ws (ss_srv (cr_session t))) sk msg = H_Idle"
proof -
  have start: "session_ok G socket (cr_session (crash_start (session_start ws kern store work)))"
    using session_start_ok [OF assms(1-6)] by (simp add: crash_start_def)
  have "session_ok G socket (cr_session t)" by (rule crash_ok [OF rtranclp_trans [OF assms(7,10)] start])
  moreover have "abandoned t c" using abandoned_run [OF assms(10)] assms(8,9) by (simp add: abandoned_def)
  ultimately have "subscribed (ss_bank (cr_session t)) c" by (rule abandoned_slot)
  then show ?thesis using known_id_ignored assms(11,12) by blast
qed

theorem dead_client_keeps_slot_witness:
  "\<exists>s. (crash_step demo_env demo_clients demo_socket)\<^sup>*\<^sup>* (crash_start demo_session) s \<and> 7 \<in> cr_dead s \<and>
     (\<forall>t. (crash_step demo_env demo_clients demo_socket)\<^sup>*\<^sup>* s t \<longrightarrow> subscribed (ss_bank (cr_session t)) 7)"
proof -
  obtain a where a: "(session_step demo_env demo_clients demo_socket)\<^sup>*\<^sup>* demo_session a" "ss_point a 7 = M_Requests"
    using demo_requesting by blast
  let ?s = "crash_start a\<lparr>cr_dead := {7}\<rparr>"
  have s: "(crash_step demo_env demo_clients demo_socket)\<^sup>*\<^sup>* (crash_start demo_session) ?s" by (rule killed [OF a(1)])
  have "ss_point (cr_session ?s) 7 = M_Requests" using a(2) by (simp add: crash_start_def)
  from dead_client_keeps_slot [OF demo_main demo_service_ok demo_session_ok(2,3,1) s _ this, where
      msg = "\<lparr>msg_type = MT_Subscribe, senderId = 7, param1 = 0, param2 = 0, param3 = 0\<rparr>"] s
  show ?thesis by (intro exI [of _ ?s]) (simp add: crash_start_def)
qed

text \<open>Property C31: every client that is killed in its loop, and every client whose unsubscription is lost,
  takes one slot of the bank away for good. With the handler at rest the slots that are left for new
  clients are at most 64 minus the number of these clients; when there are 64 of them, a subscription
  from any new client is undefined behaviour of the server.\<close>

theorem dead_clients_use_up_bank:
  assumes "server_main S hardware argv pid net = (Inr (Some (ipc, ws)), net')" "store_ready G store"
    "\<forall>c. config_ok (G c) \<and> sg_threads (G c) = ws_numWorkerThreads ws" "work_ready G work" "references_ready G store"
    "inj socket" "(crash_step E G socket)\<^sup>*\<^sup>* (crash_start (session_start ws kern store work)) t"
    "sr_handler (ss_srv (cr_session t)) = H_Idle"
  defines "r \<equiv> sr_ws (ss_srv (cr_session t))"
  defines "lost \<equiv> card {c. c \<in> cr_dead t \<and> (ss_point (cr_session t) c = M_Requests \<or>
     c \<in> cr_dropped t \<and> MT_Unsubscribe \<in> set (map msg_type (ss_wire (cr_session t) c)))}"
  shows "card {i. i < MAX_CLIENTS \<and> \<not> getBit (ws_validClientsBitSet r) i} + lost \<le> MAX_CLIENTS \<and>
    (lost = MAX_CLIENTS \<and> \<not> subscribed (ws_clientBank r) (senderId msg) \<and> msg_type msg = MT_Subscribe \<longrightarrow>
       MessageHandler r sk msg = H_Undefined)"
proof -
  have start: "session_ok G socket (cr_session (crash_start (session_start ws kern store work)))"
    using session_start_ok [OF assms(1-6)] by (simp add: crash_start_def)
  have "session_ok G socket (cr_session t)" by (rule crash_ok [OF assms(7) start])
  from free_slots [OF this assms(8)]
  have free: "card {i. i < MAX_CLIENTS \<and> \<not> getBit (ws_validClientsBitSet r) i} + lost \<le> MAX_CLIENTS"
    by (simp add: r_def lost_def abandoned_def cong: conj_cong)
  moreover have "MessageHandler r sk msg = H_Undefined"
    if "lost = MAX_CLIENTS" "\<not> subscribed (ws_clientBank r) (senderId msg)" "msg_type msg = MT_Subscribe"
  proof -
    have "{i. i < MAX_CLIENTS \<and> \<not> getBit (ws_validClientsBitSet r) i} = {}" using free that(1) by simp
    then have "indexToAdd r = None" by (auto simp: indexToAdd_None)
    moreover have "ClientExists r (senderId msg) = None" using that(2) by (simp add: ClientExists_subscribed)
    ultimately show ?thesis using that(3) by (simp add: MessageHandler_def ProcessSubscribeMessage_def)
  qed
  ultimately show ?thesis by blast
qed

theorem dead_clients_use_up_bank_witness:
  "\<exists>t. (crash_step demo_env demo_clients demo_socket)\<^sup>*\<^sup>* (crash_start demo_session) t \<and>
     card {i. i < MAX_CLIENTS \<and> \<not> getBit (ws_validClientsBitSet (sr_ws (ss_srv (cr_session t)))) i} \<le> 63"
proof -
  obtain a where a: "(session_step demo_env demo_clients demo_socket)\<^sup>*\<^sup>* demo_session a" "ss_point a 7 = M_Requests"
      "sr_handler (ss_srv a) = H_Idle"
    using demo_requesting by blast
  let ?s = "crash_start a\<lparr>cr_dead := {7}\<rparr>"
  have s: "(crash_step demo_env demo_clients demo_socket)\<^sup>*\<^sup>* (crash_start demo_session) ?s" by (rule killed [OF a(1)])
  have idle: "sr_handler (ss_srv (cr_session ?s)) = H_Idle" using a(3) by (simp add: crash_start_def)
  have "{c. c \<in> cr_dead ?s \<and> (ss_point (cr_session ?s) c = M_Requests \<or> c \<in> cr_dropped ?s \<and>
      MT_Unsubscribe \<in> set (map msg_type (ss_wire (cr_session ?s) c)))} = {7}" (is "?lost = _") using a(2) by (auto simp: crash_start_def)
  then have one: "card ?lost = 1" by simp
  from dead_clients_use_up_bank [OF demo_main demo_service_ok demo_session_ok(2,3,1) s idle, THEN conjunct1] s show ?thesis
    unfolding one by (intro exI [of _ ?s]) (simp add: MAX_CLIENTS_def)
qed

end
