(* ===== verification/Transpose_Fair.thy ===== *)
theory Transpose_Fair
  imports Transpose_Threads Transpose_Progress Runs
begin

text \<open>
  Fair runs of the sessions: infinite runs in which no thread that could go on stands still for ever. In
  the end everything but the dispatcher's polling has come to rest, and at rest every client that takes
  part has exited or has been turned away.
\<close>

section \<open>Fair runs\<close>

text \<open>The threads of the clients in \<open>A\<close> and those of the server.\<close>

fun takes_part :: "u32 set \<Rightarrow> thread \<Rightarrow> bool" where
  "takes_part A (Client_Main c) \<longleftrightarrow> c \<in> A"
| "takes_part A (Client_Reader c) \<longleftrightarrow> c \<in> A"
| "takes_part A Handler_Thread \<longleftrightarrow> True"
| "takes_part A Dispatcher_Thread \<longleftrightarrow> True"

text \<open>
  Weak fairness: again and again a thread of those looked at, of which the dispatcher is always one, either
  acts or is not able to. The server is not stopped.
\<close>

definition fair_for ::
  "'k server_env \<Rightarrow> (u32 \<Rightarrow> sys_config) \<Rightarrow> (u32 \<Rightarrow> int) \<Rightarrow> (thread \<Rightarrow> bool) \<Rightarrow> (nat \<Rightarrow> 'k session) \<Rightarrow> bool" where
  "fair_for E G socket P run \<longleftrightarrow>
     (\<forall>i. run (Suc i) = run i \<or> session_step E G socket (run i) (run (Suc i))) \<and>
     (\<forall>i. ws_running (sr_ws (ss_srv (run i)))) \<and>
     (\<forall>th i. P th \<or> th = Dispatcher_Thread \<longrightarrow>
        (\<exists>j \<ge> i. acts E G socket th (run j) (run (Suc j)) \<or> \<not> (\<exists>t. acts E G socket th (run j) t)))"

abbreviation fair_run ::
  "'k server_env \<Rightarrow> (u32 \<Rightarrow> sys_config) \<Rightarrow> (u32 \<Rightarrow> int) \<Rightarrow> u32 set \<Rightarrow> (nat \<Rightarrow> 'k session) \<Rightarrow> bool" where
  "fair_run E G socket A \<equiv> fair_for E G socket (takes_part A)"

lemma fair_runD:
  assumes "fair_for E G socket P run"
  shows "run (Suc i) = run i \<or> session_step E G socket (run i) (run (Suc i))" "ws_running (sr_ws (ss_srv (run i)))"
    "P th \<or> th = Dispatcher_Thread \<Longrightarrow> \<exists>j \<ge> i. acts E G socket th (run j) (run (Suc j)) \<or> \<not> (\<exists>t. acts E G socket th (run j) t)"
  using assms unfolding fair_for_def by blast+

section \<open>What can only go down\<close>

fun point_rank :: "main_pc \<Rightarrow> nat" where
  "point_rank M_Subscribe = 5"
| "point_rank M_Await = 4"
| "point_rank M_Requests = 3"
| "point_rank M_Log = 2"
| "point_rank M_Check = 1"
| "point_rank _ = 0"

lemma point_down:
  assumes "session_step E G socket s t"
  shows "ss_point t c = ss_point s c \<or> point_rank (ss_point t c) < point_rank (ss_point s c)"
  using assms by (cases) auto

lemma view_down:
  assumes "session_ok G socket s" "session_step E G socket s t"
  shows "view G (ss_service t) c = view G (ss_service s) c \<or>
    (work_left (G c) (view G (ss_service t) c), work_left (G c) (view G (ss_service s) c)) \<in> less_work"
proof -
  note ok = session_okD [OF assms(1)]
  from session_step_service [OF ok(2) assms(2)] service_step_view [OF ok(5)]
  have "view G (ss_service t) c = view G (ss_service s) c \<or>
      sys_step (G c) (view G (ss_service s) c) (view G (ss_service t) c)" by metis
  with sys_step_works [OF ok(7,8)] show ?thesis by metis
qed

lemma wire_down:
  assumes "session_step E G socket s t" "ss_point t c = ss_point s c"
  shows "ss_wire t c = ss_wire s c \<or> length (ss_wire t c) < length (ss_wire s c)"
  using assms by (cases) auto

lemma handler_down:
  assumes "session_step E G socket s t" "ss_wire t = ss_wire s"
  shows "sr_handler (ss_srv t) = sr_handler (ss_srv s) \<or>
    handler_rank (sr_handler (ss_srv t)) < handler_rank (sr_handler (ss_srv s))"
  using assms(1)
proof cases
  case (s_receive c msg rest ws)
  then have "ss_wire t c = rest" by simp
  then show ?thesis using assms(2) s_receive(3) by simp
next
  case (s_handler r)
  have "handler_rank (sr_handler r) < handler_rank (sr_handler (ss_srv s))"
    using s_handler(3,2) by (induction rule: handler_step.induct) simp_all
  then show ?thesis using s_handler(1) by simp
next
  case (s_dispatcher r)
  have "\<forall>i. sr_dispatcher (ss_srv s) \<noteq> D_Serve i" using s_dispatcher(3) by (auto simp: served_def)
  then show ?thesis using dispatcher_keeps [OF s_dispatcher(2)] s_dispatcher(1) by simp
next
  case (s_serve i v)
  then show ?thesis using serve_keeps(1) [OF s_serve(3)] by simp
qed simp_all

text \<open>With the handler at rest only the dispatcher lowers the flag, and the subscriptions stay as they are.\<close>

lemma rest_down:
  assumes "session_step E G socket s t" "sr_handler (ss_srv t) = sr_handler (ss_srv s)"
  shows "ws_updateAvailable (sr_ws (ss_srv t)) = ws_updateAvailable (sr_ws (ss_srv s)) \<or>
      ws_updateAvailable (sr_ws (ss_srv s)) \<and> \<not> ws_updateAvailable (sr_ws (ss_srv t))"
    "same_stage (ss_srv s) (ss_srv t)"
proof -
  have "\<not> (\<exists>r. sr_handler (ss_srv s) \<noteq> H_Idle \<and> handler_step E (ss_srv s) r \<and> sr_handler r = sr_handler (ss_srv s))"
    using busy_handler_changes by blast
  with assms have "(ws_updateAvailable (sr_ws (ss_srv t)) = ws_updateAvailable (sr_ws (ss_srv s)) \<or>
      ws_updateAvailable (sr_ws (ss_srv s)) \<and> \<not> ws_updateAvailable (sr_ws (ss_srv t))) \<and> same_stage (ss_srv s) (ss_srv t)"
  proof (cases rule: session_step.cases)
    case (s_dispatcher r)
    have "\<forall>i. sr_dispatcher (ss_srv s) \<noteq> D_Serve i" using s_dispatcher(3) by (auto simp: served_def)
    from dispatcher_same_stage [OF s_dispatcher(2) this] show ?thesis
      using s_dispatcher(1,2) by (auto elim: dispatcher_step.cases)
  next
    case (s_serve i v)
    then show ?thesis using serve_same_stage(1) [OF s_serve(3)] serve_keeps(7) [OF s_serve(3)] by simp
  qed (auto simp: same_stage_def)
  then show "ws_updateAvailable (sr_ws (ss_srv t)) = ws_updateAvailable (sr_ws (ss_srv s)) \<or>
      ws_updateAvailable (sr_ws (ss_srv s)) \<and> \<not> ws_updateAvailable (sr_ws (ss_srv t))"
    "same_stage (ss_srv s) (ss_srv t)" by blast+
qed

section \<open>The dispatcher's steps\<close>

lemma dispatcher_acts:
  assumes "session_step E G socket s t" "changes Dispatcher_Thread s t"
  shows "server_moves (ss_service s) (ss_service t)"
  using assms(1)
proof cases
  case (s_handler r)
  have "sr_dispatcher r = sr_dispatcher (ss_srv s)" using s_handler(3) by (cases; simp)
  with s_handler(1) show ?thesis using assms(2) by simp
next
  case (s_dispatcher r)
  then show ?thesis by (auto simp: server_moves_def)
next
  case (s_serve i v)
  then show ?thesis by (auto simp: server_moves_def)
qed (use assms(2) in auto)

lemma timing_down:
  assumes "session_ok G socket s" "session_step E G socket s t" "\<And>c. view G (ss_service t) c = view G (ss_service s) c"
  shows "sc_timing (ss_service t) = sc_timing (ss_service s) \<or> sc_timing (ss_service s) \<and> \<not> sc_timing (ss_service t)"
  using assms(2)
proof cases
  case (s_serve i v)
  then have v: "ss_service t = v" by simp
  show ?thesis
    using s_serve(3) assms(3) [of "cx_id (ss_bank s ! i)"] s_serve(2) unfolding v
    by (cases) (simp_all add: view_def served_def)
qed simp_all

text \<open>Where the dispatcher goes when it finds no work and nothing else changes.\<close>

fun pc_next :: "bool \<Rightarrow> nat set \<Rightarrow> dispatcher_pc \<Rightarrow> dispatcher_pc \<Rightarrow> bool" where
  "pc_next flag L D_Top p \<longleftrightarrow> p = (if flag then D_Load else D_Scan 0)"
| "pc_next flag L D_Load p \<longleftrightarrow> flag \<and> p = D_Clear"
| "pc_next flag L D_Clear p \<longleftrightarrow> False"
| "pc_next flag L (D_Scan i) p \<longleftrightarrow>
     p = (if MAX_CLIENTS \<le> i then D_Top else if i \<in> L then D_Serve i else D_Scan (i + 1))"
| "pc_next flag L (D_Serve i) p \<longleftrightarrow> i < MAX_CLIENTS \<and> p = D_Scan (i + 1)"
| "pc_next flag L D_Stopped p \<longleftrightarrow> False"

lemma idle_move:
  assumes "session_alive G socket s" "acts E G socket Dispatcher_Thread s t"
    "\<And>c. view G (ss_service t) c = view G (ss_service s) c"
    "ws_updateAvailable (sr_ws (ss_srv t)) = ws_updateAvailable (sr_ws (ss_srv s))"
    "sc_timing (ss_service t) = sc_timing (ss_service s)"
  shows "pc_next (ws_updateAvailable (sr_ws (ss_srv s))) (known_slots (ss_srv s)) (sr_dispatcher (ss_srv s)) (sr_dispatcher (ss_srv t))"
    "sr_dispatcher (ss_srv s) = D_Serve i \<Longrightarrow> sl_elems (sy_queue (view G (ss_service s) (cx_id (ss_bank s ! i)))) = []"
proof -
  note ok = session_okD [OF session_aliveD(1) [OF assms(1)]]
  have alive: "ws_running (sr_ws (ss_srv s))" "dispatcher_ok (sr_dispatcher (ss_srv s)) (valid_slots (ss_srv s)) (known_slots (ss_srv s))
      (ws_updateAvailable (sr_ws (ss_srv s)))"
    using session_aliveD(4) [OF assms(1)] srv_invD(5) [OF ok(6)] by (simp_all add: alive_def)
  have "server_moves (ss_service s) (ss_service t)"
    using assms(2) dispatcher_acts unfolding acts_def by blast
  then consider (Loop) r where "dispatcher_step (ss_srv s) r" "served (ss_service s) = None" "ss_srv t = r"
    | (Serve) j where "sr_dispatcher (ss_srv s) = D_Serve j" "serve_step j (ss_bank s ! j) (ss_service s) (ss_service t)"
    unfolding server_moves_def by auto
  then have "pc_next (ws_updateAvailable (sr_ws (ss_srv s))) (known_slots (ss_srv s)) (sr_dispatcher (ss_srv s)) (sr_dispatcher (ss_srv t)) \<and>
      (\<forall>i. sr_dispatcher (ss_srv s) = D_Serve i \<longrightarrow> sl_elems (sy_queue (view G (ss_service s) (cx_id (ss_bank s ! i)))) = [])"
  proof cases
    case Loop
    have "\<forall>i. sr_dispatcher (ss_srv s) \<noteq> D_Serve i" using Loop(2) by (auto simp: served_def)
    with Loop(1) show ?thesis
      using alive assms(4) unfolding Loop(3) by (cases) (auto simp: known_slots_def)
  next
    case (Serve j)
    let ?c = "cx_id (ss_bank s ! j)"
    note slot = serving_slot [OF ok(5) Serve(1)]
    have same: "sy_server (view G (ss_service t) ?c) = sy_server (view G (ss_service s) ?c)" using assms(3) by simp
    have sok: "sl_ok (REQ_QUEUE_CAPACITY - 1) (sy_queue (view G (ss_service s) ?c))" using ok(8) by (simp add: sys_inv_def)
    have "\<exists>v x d. sl_Dequeue (REQ_QUEUE_CAPACITY - 1) v (sy_queue (view G (ss_service s) ?c)) = Some (False, x, d) \<and>
        sr_dispatcher (ss_srv t) = D_Scan (j + 1)"
      using Serve(2)
    proof cases
      case (v_empty q name v x d)
      then show ?thesis using slot(4) by (auto simp: slot_of_client_def view_simps)
    qed (use same Serve(1) assms(5) in \<open>simp_all add: view_def served_def\<close>)
    then obtain v x d where deq: "sl_Dequeue (REQ_QUEUE_CAPACITY - 1) v (sy_queue (view G (ss_service s) ?c)) = Some (False, x, d)"
        "sr_dispatcher (ss_srv t) = D_Scan (j + 1)" by blast
    then have "sl_elems (sy_queue (view G (ss_service s) ?c)) = []"
      using sl.deq_next [OF sok, of _ _ v] by (cases "sl_elems (sy_queue (view G (ss_service s) ?c))") auto
    with Serve(1) deq(2) slot(1) show ?thesis by simp
  qed
  then show "pc_next (ws_updateAvailable (sr_ws (ss_srv s))) (known_slots (ss_srv s)) (sr_dispatcher (ss_srv s)) (sr_dispatcher (ss_srv t))"
    "sr_dispatcher (ss_srv s) = D_Serve i \<Longrightarrow> sl_elems (sy_queue (view G (ss_service s) (cx_id (ss_bank s ! i)))) = []" by blast+
qed

text \<open>The dispatcher can always go on.\<close>

lemma dispatcher_goes:
  assumes "session_alive G socket s"
  shows "\<exists>t. acts E G socket Dispatcher_Thread s t"
proof -
  note ok = session_okD [OF session_aliveD(1) [OF assms]]
  have alive: "ws_running (sr_ws (ss_srv s))" "sr_dispatcher (ss_srv s) \<noteq> D_Stopped"
    using session_aliveD(4) [OF assms] by (simp_all add: alive_def)
  have "\<exists>v. server_moves (ss_service s) v \<and> (sr_dispatcher (sc_srv v) \<noteq> sr_dispatcher (ss_srv s) \<or>
      sc_worker v \<noteq> sc_worker (ss_service s) \<or> sc_timing v \<noteq> sc_timing (ss_service s))"
  proof (cases "\<exists>i. sr_dispatcher (ss_srv s) = D_Serve i")
    case True
    then obtain i where i: "sr_dispatcher (ss_srv s) = D_Serve i" by blast
    obtain v where "serve_step i (ss_bank s ! i) (ss_service s) v" using serve_next [OF ok(3) i] by blast
    with serve_changes [OF this i] i show ?thesis unfolding server_moves_def by blast
  next
    case False
    have "\<exists>r. dispatcher_step (ss_srv s) r"
    proof (cases "sr_dispatcher (ss_srv s)")
      case D_Top
      then show ?thesis using d_update [OF D_Top alive(1)] d_no_update [OF D_Top alive(1)] by blast
    next
      case (D_Scan i)
      then show ?thesis using d_skip [OF D_Scan] d_serve [OF D_Scan] d_round [OF D_Scan] by (meson not_le)
    qed (use d_load d_clear False alive(2) in blast)+
    then obtain r where r: "dispatcher_step (ss_srv s) r" by blast
    have "served (ss_service s) = None" using False by (simp add: served_def split: dispatcher_pc.split)
    then show ?thesis
      using r dispatcher_changes [OF r] by (intro exI [of _ "(ss_service s)\<lparr>sc_srv := r\<rparr>"]) (auto simp: server_moves_def)
  qed
  then obtain v where v: "server_moves (ss_service s) v" "changes Dispatcher_Thread s (s\<lparr>ss_service := v\<rparr>)" by auto
  from server_moves_session [OF v(1), of E G socket] v(2) show ?thesis unfolding acts_def by blast
qed

lemma stays_alive:
  assumes "session_alive G socket s" "session_step E G socket s t" "ws_running (sr_ws (ss_srv t))"
  shows "session_alive G socket t"
proof -
  have alive: "ws_running (sr_ws (ss_srv s))" "sr_dispatcher (ss_srv s) \<noteq> D_Stopped"
    using session_aliveD(4) [OF assms(1)] by (simp_all add: alive_def)
  have "sr_dispatcher (ss_srv t) \<noteq> D_Stopped"
    using assms(2)
  proof cases
    case (s_handler r)
    have "sr_dispatcher r = sr_dispatcher (ss_srv s)" using s_handler(3) by (cases; simp)
    then show ?thesis using s_handler(1) alive(2) by simp
  next
    case (s_dispatcher r)
    then show ?thesis using s_dispatcher(2) alive by (auto elim: dispatcher_step.cases)
  next
    case (s_serve i v)
    have "sr_dispatcher (sc_srv v) \<noteq> D_Stopped" using s_serve(3,2) by (cases) (simp_all add: set_stats_def)
    then show ?thesis using s_serve(1) by simp
  qed (use alive(2) in simp_all)
  then have "alive (ss_srv t)" using assms(3) by (simp add: alive_def)
  from alive_run [OF r_into_rtranclp [of "session_step E G socket", OF assms(2)] assms(1) this] show ?thesis .
qed

section \<open>Fair runs come to rest\<close>

lemma run_alive:
  assumes "fair_for E G socket P run" "session_alive G socket (run 0)"
  shows "session_alive G socket (run i)"
proof (induction i)
  case (Suc i)
  from fair_runD(1) [OF assms(1), of i] show ?case
    using stays_alive [OF Suc] fair_runD(2) [OF assms(1)] Suc by metis
qed (rule assms(2))

definition settled :: "(u32 \<Rightarrow> sys_config) \<Rightarrow> (nat \<Rightarrow> 'k session) \<Rightarrow> nat \<Rightarrow> bool" where
  "settled G run n \<longleftrightarrow>
     (\<forall>c. constant_from n (\<lambda>i. ss_point (run i) c) \<and> constant_from n (\<lambda>i. ss_wire (run i) c) \<and>
        constant_from n (\<lambda>i. view G (ss_service (run i)) c)) \<and>
     constant_from n (\<lambda>i. sr_handler (ss_srv (run i))) \<and>
     constant_from n (\<lambda>i. ws_updateAvailable (sr_ws (ss_srv (run i)))) \<and>
     constant_from n (\<lambda>i. sc_timing (ss_service (run i)))"

lemma settledD:
  assumes "settled G run n" "n \<le> i" "n \<le> j"
  shows "ss_point (run i) = ss_point (run j)" "ss_wire (run i) = ss_wire (run j)"
    "view G (ss_service (run i)) c = view G (ss_service (run j)) c"
    "sr_handler (ss_srv (run i)) = sr_handler (ss_srv (run j))"
    "ws_updateAvailable (sr_ws (ss_srv (run i))) = ws_updateAvailable (sr_ws (ss_srv (run j)))"
    "sc_timing (ss_service (run i)) = sc_timing (ss_service (run j))"
  using assms constant_fromD [OF _ assms(2,3)] unfolding settled_def by blast+

lemma settled_mono:
  assumes "settled G run n" "n \<le> m"
  shows "settled G run m"
  unfolding settled_def
  by (intro conjI allI; rule constant_from_mono [OF _ assms(2)]; use assms(1) in \<open>simp add: settled_def\<close>)

lemma run_comes_to_rest:
  assumes "fair_for E G socket P run" "session_alive G socket (run 0)"
  shows "\<exists>n. settled G run n"
proof -
  note st = fair_runD(1) [OF assms(1)] and ok = session_aliveD(1) [OF run_alive [OF assms]]
  have "\<exists>n \<ge> 0. \<forall>c. constant_from n (\<lambda>i. ss_point (run i) c)"
  proof (rule settles_all, rule settles_measure [of _ _ point_rank])
    show "ss_point (run (Suc i)) c = ss_point (run i) c \<or> point_rank (ss_point (run (Suc i)) c) < point_rank (ss_point (run i) c)"
      for c i
      by (rule disjE [OF st [of i]]) (simp, erule point_down)
  qed
  then obtain n1 where n1: "\<forall>c. constant_from n1 (\<lambda>i. ss_point (run i) c)" by blast
  have "\<exists>n \<ge> n1. \<forall>c. constant_from n (\<lambda>i. view G (ss_service (run i)) c)"
  proof (rule settles_all, rule settles)
    show "wf less_work" by (intro wf_lex_prod wf_less_than)
    show "view G (ss_service (run (Suc i))) c = view G (ss_service (run i)) c \<or>
        (work_left (G c) (view G (ss_service (run (Suc i))) c), work_left (G c) (view G (ss_service (run i)) c)) \<in> less_work"
      for c i
      by (rule disjE [OF st [of i]]) (simp, erule view_down [OF ok])
  qed
  then obtain n2 where n2: "n1 \<le> n2" "\<forall>c. constant_from n2 (\<lambda>i. view G (ss_service (run i)) c)" by blast
  have "\<exists>n \<ge> n2. \<forall>c. constant_from n (\<lambda>i. ss_wire (run i) c)"
  proof (rule settles_all, rule settles_measure [of _ _ length])
    fix c i assume i: "n2 \<le> i"
    have p: "ss_point (run (Suc i)) c = ss_point (run i) c"
      using constant_fromD [OF n1 [rule_format], of "Suc i" i c] n2(1) i by simp
    show "ss_wire (run (Suc i)) c = ss_wire (run i) c \<or> length (ss_wire (run (Suc i)) c) < length (ss_wire (run i) c)"
      by (rule disjE [OF st [of i]]) (simp, erule wire_down [OF _ p])
  qed
  then obtain n3 where n3: "n2 \<le> n3" "\<forall>c. constant_from n3 (\<lambda>i. ss_wire (run i) c)" by blast
  have "\<exists>n \<ge> n3. constant_from n (\<lambda>i. sr_handler (ss_srv (run i)))"
  proof (rule settles_measure [of _ _ handler_rank])
    fix i assume i: "n3 \<le> i"
    have w: "ss_wire (run (Suc i)) = ss_wire (run i)"
      using constant_fromD [OF n3(2) [rule_format], of "Suc i" i] i by (intro ext) simp
    show "sr_handler (ss_srv (run (Suc i))) = sr_handler (ss_srv (run i)) \<or>
        handler_rank (sr_handler (ss_srv (run (Suc i)))) < handler_rank (sr_handler (ss_srv (run i)))"
      by (rule disjE [OF st [of i]]) (simp, erule handler_down [OF _ w])
  qed
  then obtain n4 where n4: "n3 \<le> n4" "constant_from n4 (\<lambda>i. sr_handler (ss_srv (run i)))" by blast
  have "\<exists>n \<ge> n4. constant_from n (\<lambda>i. ws_updateAvailable (sr_ws (ss_srv (run i))))"
  proof (rule settles_measure [of _ _ of_bool])
    fix i assume i: "n4 \<le> i"
    have h: "sr_handler (ss_srv (run (Suc i))) = sr_handler (ss_srv (run i))" using constant_fromD [OF n4(2), of "Suc i" i] i by simp
    show "ws_updateAvailable (sr_ws (ss_srv (run (Suc i)))) = ws_updateAvailable (sr_ws (ss_srv (run i))) \<or>
        (of_bool (ws_updateAvailable (sr_ws (ss_srv (run (Suc i))))) :: nat) < of_bool (ws_updateAvailable (sr_ws (ss_srv (run i))))"
      by (rule disjE [OF st [of i]], simp, drule rest_down(1) [OF _ h], elim disjE conjE) simp_all
  qed
  then obtain n5 where n5: "n4 \<le> n5" "constant_from n5 (\<lambda>i. ws_updateAvailable (sr_ws (ss_srv (run i))))" by blast
  have "\<exists>n \<ge> n5. constant_from n (\<lambda>i. sc_timing (ss_service (run i)))"
  proof (rule settles_measure [of _ _ of_bool])
    fix i assume i: "n5 \<le> i"
    have v: "view G (ss_service (run (Suc i))) c = view G (ss_service (run i)) c" for c
      using constant_fromD [OF n2(2) [rule_format], of "Suc i" i] i n3(1) n4(1) n5(1) by simp
    show "sc_timing (ss_service (run (Suc i))) = sc_timing (ss_service (run i)) \<or>
        (of_bool (sc_timing (ss_service (run (Suc i)))) :: nat) < of_bool (sc_timing (ss_service (run i)))"
      by (rule disjE [OF st [of i]], simp, drule timing_down [OF ok _ v], elim disjE conjE) simp_all
  qed
  then obtain n6 where n6: "n5 \<le> n6" "constant_from n6 (\<lambda>i. sc_timing (ss_service (run i)))" by blast
  have le: "n1 \<le> n6" "n2 \<le> n6" "n3 \<le> n6" "n4 \<le> n6" using n2(1) n3(1) n4(1) n5(1) n6(1) by simp_all
  have "constant_from n6 (\<lambda>i. ss_point (run i) c)" "constant_from n6 (\<lambda>i. view G (ss_service (run i)) c)"
      "constant_from n6 (\<lambda>i. ss_wire (run i) c)" for c
    using n1 n2(2) n3(2) le constant_from_mono by blast+
  moreover have "constant_from n6 (\<lambda>i. sr_handler (ss_srv (run i)))" by (rule constant_from_mono [OF n4(2) le(4)])
  moreover have "constant_from n6 (\<lambda>i. ws_updateAvailable (sr_ws (ss_srv (run i))))" by (rule constant_from_mono [OF n5(2) n6(1)])
  ultimately have "settled G run n6" unfolding settled_def using n6(2) by blast
  then show ?thesis by blast
qed

section \<open>The dispatcher's rounds\<close>

lemma dispatcher_recurs:
  assumes "fair_for E G socket P run" "session_alive G socket (run 0)"
  shows "\<exists>j \<ge> i. acts E G socket Dispatcher_Thread (run j) (run (Suc j))"
  using fair_runD(3) [OF assms(1), of Dispatcher_Thread i] dispatcher_goes [OF run_alive [OF assms]] by auto

lemma rest_round:
  assumes "fair_for E G socket P run" "session_alive G socket (run 0)" "settled G run n" "n \<le> i"
  shows "acts E G socket Dispatcher_Thread (run i) (run (Suc i)) \<Longrightarrow>
      pc_next (ws_updateAvailable (sr_ws (ss_srv (run i)))) (known_slots (ss_srv (run i)))
        (sr_dispatcher (ss_srv (run i))) (sr_dispatcher (ss_srv (run (Suc i))))"
    "\<not> acts E G socket Dispatcher_Thread (run i) (run (Suc i)) \<Longrightarrow>
      sr_dispatcher (ss_srv (run (Suc i))) = sr_dispatcher (ss_srv (run i))"
proof -
  have le: "n \<le> Suc i" using assms(4) by simp
  note same = settledD [OF assms(3) le assms(4)]
  show "acts E G socket Dispatcher_Thread (run i) (run (Suc i)) \<Longrightarrow>
      pc_next (ws_updateAvailable (sr_ws (ss_srv (run i)))) (known_slots (ss_srv (run i)))
        (sr_dispatcher (ss_srv (run i))) (sr_dispatcher (ss_srv (run (Suc i))))"
    by (rule idle_move(1) [OF run_alive [OF assms(1,2)] _ same(3,5,6)])
  show "\<not> acts E G socket Dispatcher_Thread (run i) (run (Suc i)) \<Longrightarrow>
      sr_dispatcher (ss_srv (run (Suc i))) = sr_dispatcher (ss_srv (run i))"
    using fair_runD(1) [OF assms(1), of i] by (auto simp: acts_def)
qed

fun clear_rank :: "dispatcher_pc \<Rightarrow> nat" where
  "clear_rank D_Load = 1"
| "clear_rank D_Top = 2"
| "clear_rank (D_Serve i) = 3 + 2 * (MAX_CLIENTS - i)"
| "clear_rank (D_Scan i) = 4 + 2 * (MAX_CLIENTS - i)"
| "clear_rank _ = 0"

lemma clear_nearer: "pc_next True L p p' \<Longrightarrow> clear_rank p' < clear_rank p"
  by (cases p) (auto split: if_splits)

lemma rest_flag_down:
  assumes "fair_for E G socket P run" "session_alive G socket (run 0)" "settled G run n" "n \<le> i"
  shows "\<not> ws_updateAvailable (sr_ws (ss_srv (run i)))"
proof
  assume up: "ws_updateAvailable (sr_ws (ss_srv (run i)))"
  note round = rest_round [OF assms(1-3)]
  have flag: "ws_updateAvailable (sr_ws (ss_srv (run l)))" if "n \<le> l" for l
    using settledD(5) [OF assms(3) that assms(4)] up by simp
  have less: "clear_rank (sr_dispatcher (ss_srv (run (Suc l)))) < clear_rank (sr_dispatcher (ss_srv (run l)))"
    if "n \<le> l" "acts E G socket Dispatcher_Thread (run l) (run (Suc l))" for l
    using clear_nearer round(1) [OF that] flag [OF that(1)] by simp
  have "\<exists>l \<ge> n. False"
  proof (rule descends [where rank = "\<lambda>l. clear_rank (sr_dispatcher (ss_srv (run l)))"])
    show "False \<or> clear_rank (sr_dispatcher (ss_srv (run (Suc l)))) \<le> clear_rank (sr_dispatcher (ss_srv (run l)))" if "n \<le> l" for l
      using less [OF that] round(2) [OF that] by (cases "acts E G socket Dispatcher_Thread (run l) (run (Suc l))") simp_all
    show "\<exists>j \<ge> l. False \<or> clear_rank (sr_dispatcher (ss_srv (run (Suc j)))) < clear_rank (sr_dispatcher (ss_srv (run j)))" if "n \<le> l" for l
      using dispatcher_recurs [OF assms(1,2), of l] less that by (meson order_trans)
  qed
  then show False by blast
qed

text \<open>The places of a round in their order, and the way that is left to the slot \<open>i\<close>.\<close>

fun place :: "dispatcher_pc \<Rightarrow> nat" where
  "place (D_Scan i) = 2 * min i MAX_CLIENTS"
| "place (D_Serve i) = 2 * i + 1"
| "place _ = 2 * MAX_CLIENTS + 2"

definition way_left :: "nat \<Rightarrow> dispatcher_pc \<Rightarrow> nat" where
  "way_left i p = (if place p \<le> 2 * i + 1 then 2 * i + 1 - place p else 2 * i + 1 + (2 * MAX_CLIENTS + 3) - place p)"

lemma slot_nearer:
  assumes "pc_next False L p p'" "i \<in> L" "i < MAX_CLIENTS" "p \<noteq> D_Serve i" "p \<noteq> D_Load" "\<forall>j. p = D_Serve j \<longrightarrow> j < MAX_CLIENTS"
  shows "way_left i p' < way_left i p"
proof (cases p)
  case (D_Scan j)
  then show ?thesis using assms(1-3) by (cases "j = i") (auto simp: way_left_def min_def split: if_splits)
qed (use assms in \<open>auto simp: way_left_def min_def split: if_splits\<close>)

lemma slot_visited:
  assumes "fair_for E G socket P run" "session_alive G socket (run 0)" "settled G run n"
    "i < MAX_CLIENTS" "\<And>l. n \<le> l \<Longrightarrow> i \<in> known_slots (ss_srv (run l))"
  shows "\<exists>l \<ge> n. sr_dispatcher (ss_srv (run l)) = D_Serve i \<and> acts E G socket Dispatcher_Thread (run l) (run (Suc l))"
proof (rule ccontr)
  assume none: "\<not> ?thesis"
  note round = rest_round [OF assms(1-3)]
  have less: "way_left i (sr_dispatcher (ss_srv (run (Suc l)))) < way_left i (sr_dispatcher (ss_srv (run l)))"
    if l: "n \<le> l" "acts E G socket Dispatcher_Thread (run l) (run (Suc l))" for l
  proof (rule slot_nearer)
    note down = rest_flag_down [OF assms(1-3) l(1)] and ok = session_okD(6) [OF session_aliveD(1) [OF run_alive [OF assms(1,2)]]]
    show "pc_next False (known_slots (ss_srv (run l))) (sr_dispatcher (ss_srv (run l))) (sr_dispatcher (ss_srv (run (Suc l))))"
      using round(1) [OF l] down by simp
    show "sr_dispatcher (ss_srv (run l)) \<noteq> D_Load" "\<forall>j. sr_dispatcher (ss_srv (run l)) = D_Serve j \<longrightarrow> j < MAX_CLIENTS"
      using srv_invD(5) [OF ok, of l] down by (auto simp: known_slots_def)
    show "sr_dispatcher (ss_srv (run l)) \<noteq> D_Serve i" using none l by blast
  qed (use assms(4,5) l in simp_all)
  have "\<exists>l \<ge> n. False"
  proof (rule descends [where rank = "\<lambda>l. way_left i (sr_dispatcher (ss_srv (run l)))"])
    show "False \<or> way_left i (sr_dispatcher (ss_srv (run (Suc l)))) \<le> way_left i (sr_dispatcher (ss_srv (run l)))" if "n \<le> l" for l
      using less [OF that] round(2) [OF that] by (cases "acts E G socket Dispatcher_Thread (run l) (run (Suc l))") simp_all
    show "\<exists>j \<ge> l. False \<or> way_left i (sr_dispatcher (ss_srv (run (Suc j)))) < way_left i (sr_dispatcher (ss_srv (run j)))" if "n \<le> l" for l
      using dispatcher_recurs [OF assms(1,2), of l] less that by (meson order_trans)
  qed
  then show False by blast
qed

section \<open>At rest\<close>

text \<open>At rest a main thread of a client, and the handler, are again and again not able to go on.\<close>

lemma blocked:
  assumes "fair_for E G socket P run" "settled G run n" "P th" "th = Handler_Thread \<or> th = Client_Main c"
    "\<And>i. n \<le> i \<Longrightarrow> \<exists>t. acts E G socket th (run i) t"
  shows False
proof -
  obtain j where j: "n \<le> j" "acts E G socket th (run j) (run (Suc j))"
    using fair_runD(3) [OF assms(1), of th n] assms(3,5) by blast
  then have le: "n \<le> Suc j" by simp
  note same = settledD [OF assms(2) le j(1)]
  have "sc_clients (ss_service (run (Suc j))) c = sc_clients (ss_service (run j)) c"
    using same(3) [of c] by (metis view_simps(4))
  then show False
    using j(2) assms(4) same(1,2,4) by (auto simp: acts_def)
qed

lemma handler_rests:
  assumes "fair_for E G socket P run" "session_alive G socket (run 0)" "settled G run n" "n \<le> i" "P Handler_Thread"
  shows "sr_handler (ss_srv (run i)) \<in> {H_Idle, H_Undefined}"
proof (rule ccontr)
  assume busy: "\<not> ?thesis"
  show False
  proof (rule blocked [OF assms(1,3), where th = Handler_Thread])
    fix l assume l: "n \<le> l"
    note ok = session_okD [OF session_aliveD(1) [OF run_alive [OF assms(1,2), of l]]]
    have h: "sr_handler (ss_srv (run l)) \<notin> {H_Idle, H_Undefined}" using settledD(4) [OF assms(3) l assms(4)] busy by simp
    have "honest G (sr_handler (ss_srv (run l)))" "\<forall>c. config_ok (G c)" using service_invD(3) [OF ok(5)] ok(7) by blast+
    from busy_handler_next [OF h rest_flag_down [OF assms(1-3) l] this] obtain r
      where r: "handler_step E (ss_srv (run l)) r" "sr_handler r \<noteq> sr_handler (ss_srv (run l))" by fastforce
    have "sr_handler (ss_srv (run l)) \<noteq> H_Idle" using h by simp
    from s_handler [OF this r(1), of G socket] r(2) show "\<exists>t. acts E G socket Handler_Thread (run l) t"
      unfolding acts_def by fastforce
  qed (simp_all add: assms(5))
qed

text \<open>Where the rest is one with an idle handler: no messages are under way, and the slots stay as they are.\<close>

lemma idle_rests:
  assumes "fair_run E G socket A run" "session_alive G socket (run 0)" "settled G run n" "sr_handler (ss_srv (run n)) = H_Idle" "n \<le> i"
  shows "sr_handler (ss_srv (run i)) = H_Idle" "ss_wire (run i) c = []"
    "known_slots (ss_srv (run i)) = subscribed_slots (ss_bank (run i))"
    "cx_id (ss_bank (run i) ! j) = cx_id (ss_bank (run n) ! j)"
    "cx_subscribed (ss_bank (run i) ! j) = cx_subscribed (ss_bank (run n) ! j)"
proof -
  have idle: "sr_handler (ss_srv (run l)) = H_Idle" if "n \<le> l" for l
    using settledD(4) [OF assms(3) that order_refl] assms(4) by simp
  show "sr_handler (ss_srv (run i)) = H_Idle" by (rule idle [OF assms(5)])
  show "ss_wire (run i) c = []"
  proof (rule ccontr)
    assume some: "ss_wire (run i) c \<noteq> []"
    show False
    proof (rule blocked [OF assms(1,3), where th = Handler_Thread])
      fix l assume l: "n \<le> l"
      obtain msg rest where w: "ss_wire (run l) c = msg # rest"
        using some settledD(2) [OF assms(3) l assms(5)] by (cases "ss_wire (run l) c") simp_all
      show "\<exists>t. acts E G socket Handler_Thread (run l) t"
        unfolding acts_def by (rule exI, rule conjI, rule s_receive [OF idle [OF l] w refl]) (use w in \<open>auto intro: exI [of _ c]\<close>)
    qed simp_all
  qed
  show "known_slots (ss_srv (run i)) = subscribed_slots (ss_bank (run i))"
    using srv_invD(4) [OF session_okD(6) [OF session_aliveD(1) [OF run_alive [OF assms(1,2)]]], of i]
      idle [OF assms(5)] rest_flag_down [OF assms(1-3,5)] by simp
  have "\<forall>j. cx_id (ss_bank (run i) ! j) = cx_id (ss_bank (run n) ! j) \<and>
      cx_subscribed (ss_bank (run i) ! j) = cx_subscribed (ss_bank (run n) ! j)"
    using assms(5)
  proof (induction i rule: dec_induct)
    case (step l)
    have "sr_handler (ss_srv (run (Suc l))) = sr_handler (ss_srv (run l))" using idle step.hyps(1) by simp
    then have "same_stage (ss_srv (run l)) (ss_srv (run (Suc l)))"
      using fair_runD(1) [OF assms(1), of l] rest_down(2) by auto
    with step.IH show ?case by (simp add: same_stage_def)
  qed simp
  then show "cx_id (ss_bank (run i) ! j) = cx_id (ss_bank (run n) ! j)"
    "cx_subscribed (ss_bank (run i) ! j) = cx_subscribed (ss_bank (run n) ! j)" by blast+
qed

text \<open>A subscribed client's requests are all taken, and then it is the client that goes on.\<close>

lemma queue_served:
  assumes "fair_run E G socket A run" "session_alive G socket (run 0)" "settled G run n" "sr_handler (ss_srv (run n)) = H_Idle"
    "n \<le> i" "subscribed (ss_bank (run n)) c"
  shows "sl_elems (sy_queue (view G (ss_service (run i)) c)) = []" "sy_server (view G (ss_service (run i)) c) = SV_Poll"
proof -
  note rests = idle_rests [OF assms(1-4)]
  obtain j where j: "j < MAX_CLIENTS" "cx_subscribed (ss_bank (run n) ! j)" "cx_id (ss_bank (run n) ! j) = c"
    using assms(6) by (auto simp: subscribed_def)
  have "j \<in> known_slots (ss_srv (run l))" if "n \<le> l" for l
    using rests(3,5) [OF that] j(1,2) by (simp add: subscribed_slots_def)
  from slot_visited [OF assms(1-3) j(1) this] obtain l
    where l: "n \<le> l" "sr_dispatcher (ss_srv (run l)) = D_Serve j" "acts E G socket Dispatcher_Thread (run l) (run (Suc l))" by blast
  have le: "n \<le> Suc l" using l(1) by simp
  note same = settledD [OF assms(3) le l(1)]
  have "sl_elems (sy_queue (view G (ss_service (run l)) c)) = []"
    using idle_move(2) [OF run_alive [OF assms(1,2)] l(3) same(3,5,6) l(2)] rests(4) [OF l(1), of j] j(3) by simp
  moreover have "sr_dispatcher (ss_srv (run (Suc l))) = D_Scan (j + 1)"
    using rest_round(1) [OF assms(1-3) l(1,3)] l(2) by simp
  then have "sy_server (view G (ss_service (run (Suc l))) c) = SV_Poll" by (simp add: view_simps served_def)
  ultimately show "sl_elems (sy_queue (view G (ss_service (run i)) c)) = []" "sy_server (view G (ss_service (run i)) c) = SV_Poll"
    using settledD(3) [OF assms(3,5) l(1), of c] settledD(3) [OF assms(3,5) le, of c] by simp_all
qed

lemma requester_goes:
  assumes "sys_inv g s" "sl_elems (sy_queue s) = []" "sy_server s = SV_Poll" "sy_client s \<noteq> CL_Done"
  shows "\<exists>t. client_step g s t"
proof (cases "sy_client s")
  case (CL_Next rep b)
  have "\<exists>q. sl_Enqueue (REQ_QUEUE_CAPACITY - 1) b (sy_queue s) = Some (True, q)"
    using sl.enq_room [of "REQ_QUEUE_CAPACITY - 1" "sy_queue s" b] assms(1,2) unat_req_mask by (auto simp: sys_inv_def)
  then show ?thesis using c_enqueue [OF CL_Next] c_repeat [OF CL_Next] c_done [OF CL_Next] by blast
next
  case (CL_Wait rep b)
  then have "sy_word s = 1" using assms(1-3) by (auto simp: sys_inv_def)
  with c_wait [OF CL_Wait] show ?thesis by blast
qed (use assms(4) in simp)

text \<open>The response of a subscribed client comes to be read.\<close>

lemma read_grows: "session_step E G socket s t \<Longrightarrow> ss_read s c \<le> ss_read t c"
  by (induction rule: session_step.induct) auto

lemma response_read:
  assumes "fair_run E G socket A run" "session_alive G socket (run 0)" "c \<in> A" "\<And>i. n \<le> i \<Longrightarrow> sent_to (socket c) (ss_srv (run i)) \<noteq> []"
  shows "\<exists>m \<ge> n. \<forall>i \<ge> m. cw_subscribeResponseReceived (ss_work (run i) c)"
proof -
  have "\<exists>m \<ge> n. ss_read (run m) c \<noteq> 0"
  proof (rule ccontr)
    assume "\<not> ?thesis"
    then have zero: "ss_read (run l) c = 0" if "n \<le> l" for l using that by blast
    have can: "\<exists>t. acts E G socket (Client_Reader c) (run l) t" if "n \<le> l" for l
      unfolding acts_def
      by (rule exI, rule conjI, rule m_message [where c = c, OF refl]) (use zero [OF that] assms(4) [OF that] in simp_all)
    then obtain j where j: "n \<le> j" "acts E G socket (Client_Reader c) (run j) (run (Suc j))"
      using fair_runD(3) [OF assms(1), of "Client_Reader c" n] assms(3) by auto
    then show False using zero [of j] zero [of "Suc j"] by (simp add: acts_def)
  qed
  then obtain m where m: "n \<le> m" "ss_read (run m) c \<noteq> 0" by blast
  have "ss_read (run i) c \<noteq> 0" if "m \<le> i" for i
    using that
  proof (induction i rule: dec_induct)
    case (step l)
    then show ?case using fair_runD(1) [OF assms(1), of l] read_grows [of E G socket "run l" "run (Suc l)" c] by auto
  qed (rule m(2))
  then have "cw_subscribeResponseReceived (ss_work (run i) c)" if "m \<le> i" for i
    using that session_aliveD(2) [OF run_alive [OF assms(1,2)], of i] by (simp add: reads_ok_def)
  with m(1) show ?thesis by blast
qed

text \<open>So at rest a client has come to its end.\<close>

lemma client_at_rest:
  assumes "fair_run E G socket A run" "session_alive G socket (run 0)" "settled G run n" "sr_handler (ss_srv (run n)) = H_Idle"
    "n \<le> i" "c \<in> A"
  shows "exited G (run i) c \<or> turned_away socket (run i) c"
proof -
  note rests = idle_rests [OF assms(1-4)] and alive = run_alive [OF assms(1,2)]
  have point: "ss_point (run l) c = ss_point (run i) c" if "n \<le> l" for l using settledD(1) [OF assms(3) that assms(5)] by simp
  have bank: "subscribed (ss_bank (run l)) c = subscribed (ss_bank (run n)) c" if "n \<le> l" for l
    using rests(4,5) [OF that] by (simp add: subscribed_def)
  have stage: "stage_ok (ss_point (run l) c) [] No_Errand (subscribed (ss_bank (run n)) c) (length (sent_to (socket c) (ss_srv (run l))))"
    if "n \<le> l" for l
    using session_aliveD(6) [OF alive, of l c] rests(1) [OF that] rests(2) [OF that, of c] bank [OF that] by (simp add: stage_now_def)
  have stuck: False if th: "\<And>l. m \<le> l \<Longrightarrow> n \<le> l \<Longrightarrow> \<exists>t. session_step E G socket (run l) t \<and> changes (Client_Main c) (run l) t"
    and "n \<le> m" for m
  proof (rule blocked [OF assms(1), of m "Client_Main c" c])
    show "settled G run m" using assms(3) that(2) settled_mono by blast
    show "\<exists>t. acts E G socket (Client_Main c) (run l) t" if "m \<le> l" for l
      unfolding acts_def using th [OF that] \<open>n \<le> m\<close> that by simp
  qed (use assms(6) in simp_all)
  show ?thesis
  proof (cases "ss_point (run i) c")
    case M_Subscribe
    have False
    proof (rule stuck [of n])
      fix l assume "n \<le> l"
      then have "ss_point (run l) c = M_Subscribe" using point M_Subscribe by simp
      from m_subscribe [OF this] this show "\<exists>t. session_step E G socket (run l) t \<and> changes (Client_Main c) (run l) t"
        by fastforce
    qed simp
    then show ?thesis by blast
  next
    case M_Await
    show ?thesis
    proof (cases "subscribed (ss_bank (run n)) c")
      case False
      then show ?thesis
        using stage [OF assms(5)] M_Await bank [OF assms(5)] rests(1,2) [OF assms(5)] by (simp add: turned_away_def)
    next
      case True
      have "sent_to (socket c) (ss_srv (run l)) \<noteq> []" if "n \<le> l" for l
        using stage [OF that] point [OF that] M_Await True by auto
      from response_read [OF assms(1,2,6) this] obtain m
        where m: "n \<le> m" "\<forall>l \<ge> m. cw_subscribeResponseReceived (ss_work (run l) c)" by blast
      have False
      proof (rule stuck [OF _ m(1)])
        fix l assume l: "m \<le> l" "n \<le> l"
        then have "ss_point (run l) c = M_Await" using point M_Await by simp
        from m_answered [OF this] this m(2) l(1) show "\<exists>t. session_step E G socket (run l) t \<and> changes (Client_Main c) (run l) t"
          by fastforce
      qed
      then show ?thesis by blast
    qed
  next
    case M_Requests
    have sub: "subscribed (ss_bank (run n)) c" using stage [OF assms(5)] M_Requests by simp
    have False
    proof (rule stuck [of n])
      fix l assume l: "n \<le> l"
      have at: "ss_point (run l) c = M_Requests" using point [OF l] M_Requests by simp
      let ?v = "view G (ss_service (run l)) c"
      show "\<exists>t. session_step E G socket (run l) t \<and> changes (Client_Main c) (run l) t"
      proof (cases "sy_client ?v = CL_Done")
        case True
        then have "sc_clients (ss_service (run l)) c = CL_Done" by (simp add: view_simps)
        from m_unsubscribe [OF at this] at show ?thesis by fastforce
      next
        case False
        from requester_goes [OF session_okD(8) [OF session_aliveD(1) [OF alive]] queue_served [OF assms(1-4) l sub] False]
        obtain v where v: "client_step (G c) ?v v" by blast
        show ?thesis
          by (rule exI, rule conjI, rule m_request [OF at refl v refl]) (use client_step_changes [OF v] in \<open>simp add: view_simps\<close>)
      qed
    qed simp
    then show ?thesis by blast
  next
    case M_Log
    have False
    proof (rule stuck [of n])
      fix l assume "n \<le> l"
      then have "ss_point (run l) c = M_Log" using point M_Log by simp
      from m_log [OF this] this show "\<exists>t. session_step E G socket (run l) t \<and> changes (Client_Main c) (run l) t" by fastforce
    qed simp
    then show ?thesis by blast
  next
    case M_Check
    have False
    proof (rule stuck [of n])
      fix l assume "n \<le> l"
      then have at: "ss_point (run l) c = M_Check" using point M_Check by simp
      obtain err where err: "shift_one (cw_m (ss_work (run l) c)) = Some (sg_rows (G c))"
          "shift_one (cw_n (ss_work (run l) c)) = Some (sg_cols (G c))"
          "client_check (sg_rows (G c)) (sg_cols (G c)) (checked_buffers (ss_work (run l) c) (sc_store (ss_service (run l)))) = Some err"
        using session_check [OF session_aliveD(1) [OF alive] at] by blast
      from m_check [OF at err] at show "\<exists>t. session_step E G socket (run l) t \<and> changes (Client_Main c) (run l) t" by fastforce
    qed simp
    then show ?thesis by blast
  next
    case (M_Exit status)
    then show ?thesis
      using stage [OF assms(5)] bank [OF assms(5)] session_aliveD(3) [OF alive, of c i] by (simp add: exited_def)
  next
    case M_Fault
    then show ?thesis using session_aliveD(3) [OF alive, of c i] by simp
  qed
qed

section \<open>The bank is large enough for 64 clients\<close>

definition started :: "'k session \<Rightarrow> u32 set" where
  "started s = {c. ss_point s c \<noteq> M_Subscribe}"

lemma started_grows: "session_step E G socket s t \<Longrightarrow> started s \<subseteq> started t"
  by (induction rule: session_step.induct) (auto simp: started_def)

lemma overflow:
  assumes "session_ok G socket s" "sr_handler (ss_srv s) = H_Idle" "ss_wire s c = msg # rest"
    "MessageHandler (sr_ws (ss_srv s)) (socket c) msg = H_Undefined"
  shows "MAX_CLIENTS < card (started s)"
proof -
  note ok = session_okD [OF assms(1)]
  note stage = session_invD(5) [OF ok(2)]
  have msg: "message_ok (G c) c msg" using session_invD(4) [OF ok(2), of c] assms(3) by simp
  then have new: "\<not> subscribed (ss_bank s) c" and full: "indexToAdd (sr_ws (ss_srv s)) = None"
    using assms(4) ClientExists_subscribed
    by (auto simp: message_ok_def MessageHandler_def ProcessSubscribeMessage_def ProcessUnsubscribeMessage_def message_types
      split: option.splits)
  have "j \<in> valid_slots (ss_srv s)" if "j < MAX_CLIENTS" for j using full that by (simp add: indexToAdd_None valid_slots_def)
  then have slots: "cx_subscribed (ss_bank s ! j)" if "j < MAX_CLIENTS" for j
    using srv_invD(4) [OF ok(6)] assms(2) that by (auto simp: subscribed_slots_def)
  let ?ids = "(\<lambda>j. cx_id (ss_bank s ! j)) ` {..<MAX_CLIENTS}"
  have "inj_on (\<lambda>j. cx_id (ss_bank s ! j)) {..<MAX_CLIENTS}"
    by (rule inj_onI) (use bank_unique [OF ok(6)] slots in simp)
  then have card: "card ?ids = MAX_CLIENTS" by (simp add: card_image)
  have sub: "subscribed (ss_bank s) d" if "d \<in> ?ids" for d using that slots by (auto simp: subscribed_def)
  then have "d \<in> started s" if "d \<in> ?ids" for d using stage [of d] that by (auto simp: started_def stage_now_def)
  moreover have "c \<in> started s" using stage [of c] assms(3) by (auto simp: started_def stage_now_def)
  ultimately have "insert c ?ids \<subseteq> started s" by blast
  moreover have "c \<notin> ?ids" using sub new by blast
  ultimately have "card (insert c ?ids) \<le> card (started s)" by (intro card_mono) simp_all
  with card \<open>c \<notin> ?ids\<close> show ?thesis by simp
qed

lemma busy_handler_defined:
  assumes "session_ok G socket s" "sr_handler (ss_srv s) \<noteq> H_Idle" "handler_step E (ss_srv s) r"
  shows "sr_handler r \<noteq> H_Undefined"
proof
  note ok = session_okD [OF assms(1)]
  assume "sr_handler r = H_Undefined"
  with assms(3,2) obtain sk c m n k i where shift: "sr_handler (ss_srv s) = H_Add_Write sk c m n k i"
      "setup_context E c m n k sk (ws_clientBank (sr_ws (ss_srv s)) ! i) (sr_kernel (ss_srv s)) = None"
    by (cases rule: handler_step.cases) simp_all
  have "m = sg_m (G c)" "n = sg_n (G c)" using service_invD(3) [OF ok(5)] shift(1) by (simp_all add: honest_def)
  moreover have "unat (sg_m (G c)) < 32" "unat (sg_n (G c)) < 32" using ok(7) [of c] by (auto simp: config_ok_def)
  ultimately have "shift_one m \<noteq> None" "shift_one n \<noteq> None" by (simp_all add: shift_one_def word_less_nat_alt)
  from setup_context_defined [OF this, of E c k sk "ss_bank s ! i" "sr_kernel (ss_srv s)"] shift(2) show False by simp
qed

lemma overflow_step:
  assumes "session_ok G socket s" "session_step E G socket s t" "sr_handler (ss_srv t) = H_Undefined"
    "sr_handler (ss_srv s) = H_Undefined \<longrightarrow> MAX_CLIENTS < card (started s)"
  shows "MAX_CLIENTS < card (started t)"
proof -
  note ok = session_okD [OF assms(1)]
  have "MAX_CLIENTS < card (started s)"
    using assms(2)
  proof cases
    case (s_receive c msg rest ws)
    then show ?thesis using overflow [OF assms(1) s_receive(2,3)] assms(3) by simp
  next
    case (s_handler r)
    have "sr_handler r \<noteq> H_Undefined" by (rule busy_handler_defined [OF assms(1) s_handler(2,3)])
    then show ?thesis using s_handler(1) assms(3) by simp
  next
    case (s_dispatcher r)
    then show ?thesis using assms(3,4) by (auto elim: dispatcher_step.cases)
  next
    case (s_serve i v)
    then show ?thesis using serve_keeps(1) [OF s_serve(3)] assms(3,4) by simp
  qed (use assms(3,4) in simp_all)
  also have "\<dots> \<le> card (started t)" by (intro card_mono started_grows [OF assms(2)]) simp
  finally show ?thesis .
qed

lemma undefined_overflows:
  assumes "fair_for E G socket P run" "session_alive G socket (run 0)" "sr_handler (ss_srv (run 0)) \<noteq> H_Undefined"
  shows "sr_handler (ss_srv (run i)) = H_Undefined \<longrightarrow> MAX_CLIENTS < card (started (run i))"
proof (induction i)
  case (Suc i)
  show ?case
    using fair_runD(1) [OF assms(1), of i]
  proof
    assume "session_step E G socket (run i) (run (Suc i))"
    from overflow_step [OF session_aliveD(1) [OF run_alive [OF assms(1,2)]] this] Suc show ?thesis by blast
  qed (use Suc in simp)
qed (use assms(3) in simp)

lemma never_overflows:
  assumes "fair_run E G socket A run" "session_alive G socket (run 0)" "sr_handler (ss_srv (run 0)) \<noteq> H_Undefined"
    "\<And>i. card (started (run i)) \<le> MAX_CLIENTS"
  shows "sr_handler (ss_srv (run i)) \<noteq> H_Undefined"
  using undefined_overflows [OF assms(1-3)] assms(4) by (metis not_le)

lemma start_alive:
  assumes "server_main S hardware argv pid net = (Inr (Some (ipc, ws)), net')" "store_ready G store"
    "\<forall>c. config_ok (G c) \<and> sg_threads (G c) = ws_numWorkerThreads ws" "work_ready G work" "references_ready G store"
    "inj socket" "ws_running ws"
  shows "session_alive G socket (session_start ws kern store work)"
  using session_start_ok [OF assms(1-6), of kern] assms(7)
  by (simp add: session_alive_def reads_ok_def alive_def session_start_def service_start_def srv_start_def)

section \<open>A refusal is logged\<close>

definition refusal_line :: "u32 \<Rightarrow> string" where
  "refusal_line c = ''Failed to add client PID: '' @ dec (unat c) @ [CHR 0x0A]"

lemma turned_away_before:
  assumes "same_stage (ss_srv s) (ss_srv t)" "ss_point t c = ss_point s c" "ss_wire t c = ss_wire s c" "turned_away socket t c"
  shows "turned_away socket s c"
  by (rule turned_away_same [OF _ _ _ assms(4)]) (use assms(1-3) in \<open>simp_all add: same_stage_def\<close>)

lemma refusal_step:
  assumes "session_ok G socket s" "session_step E G socket s t" "sr_handler (ss_srv t) \<noteq> H_Undefined" "turned_away socket t c"
  shows "turned_away socket s c \<or> refusal_line c \<in> set (ss_out t)"
  using assms(2)
proof cases
  note ok = session_okD [OF assms(1)]
  note stage = session_invD(5) [OF ok(2), of c] and away = assms(4) [unfolded turned_away_def]
  {
    case (s_receive d msg rest ws)
    show ?thesis
    proof (cases "d = c")
      case True
      have msg: "message_ok (G c) c msg" "list_all (message_ok (G c) c) (ss_wire s c)"
        using session_invD(4) [OF ok(2), of c] s_receive(3) True by simp_all
      have "msg_type msg = MT_Subscribe" "\<not> subscribed (ss_bank s) c"
        using stage s_receive(1-3) away True by (auto simp: stage_now_def)
      moreover from this have "ClientExists ws c = None" using s_receive(4) by (simp add: ClientExists_subscribed)
      ultimately have "errand_for (MessageHandler ws (socket c) msg) (ss_bank s) c \<noteq> No_Errand \<or> MessageHandler ws (socket c) msg = H_Undefined"
        using msg(1) by (auto simp: MessageHandler_def ProcessSubscribeMessage_def message_ok_def split: option.split)
      then show ?thesis using s_receive(1,4) away assms(3) True by simp
    next
      case False
      then show ?thesis using s_receive(1,2) away by (auto simp: turned_away_def sent_to_def)
    qed
  next
    case (s_handler r)
    have moves: "errand_move (errand_for (sr_handler (ss_srv s)) (ss_bank s) c) (subscribed (ss_bank s) c)
        (length (sent_to (socket c) (ss_srv s)))
        (errand_for (sr_handler r) (ws_clientBank (sr_ws r)) c) (subscribed (ws_clientBank (sr_ws r)) c) (length (sent_to (socket c) r))"
      using handler_moves [OF ok(6) session_invD(2) [OF ok(2)] ok(1) s_handler(2,3)] by blast
    have "turned_away socket s c \<or> errand_for (sr_handler (ss_srv s)) (ss_bank s) c = Setting_Up"
      using moves stage away s_handler(1) by (auto simp: errand_move_def turned_away_def stage_now_def)
    then show ?thesis
    proof
      assume "errand_for (sr_handler (ss_srv s)) (ss_bank s) c = Setting_Up"
      then obtain sk m n k i where h: "sr_handler (ss_srv s) = H_Add_Write sk c m n k i"
        by (cases "sr_handler (ss_srv s)") (auto split: if_splits)
      have "sr_handler r = H_Idle"
        using s_handler(3,1) h away assms(3) by (cases rule: handler_step.cases) simp_all
      then show ?thesis using s_handler(1) h by (simp add: refusal_line_def)
    qed simp
  next
    case (s_dispatcher r)
    have "\<forall>i. sr_dispatcher (ss_srv s) \<noteq> D_Serve i" using s_dispatcher(3) by (auto simp: served_def)
    from turned_away_before [of s t c socket] dispatcher_same_stage [OF s_dispatcher(2) this] s_dispatcher(1) assms(4)
    show ?thesis by simp
  next
    case (s_serve i v)
    from turned_away_before [of s t c socket] serve_same_stage(1) [OF s_serve(3)] s_serve(1) assms(4) show ?thesis by simp
  next
    case s_stop
    from turned_away_before [of s t c socket] s_stop assms(4) show ?thesis by (simp add: same_stage_def)
  }
qed (use assms(4) in \<open>auto simp: turned_away_def split: if_splits\<close>)

lemma refusals_logged:
  assumes "fair_run E G socket A run" "session_alive G socket (run 0)" "\<And>i. sr_handler (ss_srv (run i)) \<noteq> H_Undefined"
    "ss_point (run 0) c = M_Subscribe" "turned_away socket (run i) c"
  shows "refusal_line c \<in> set (ss_out (run i))"
  using assms(5)
proof (induction i)
  case (Suc i)
  show ?case
    using fair_runD(1) [OF assms(1), of i]
  proof
    assume step: "session_step E G socket (run i) (run (Suc i))"
    have grows: "set (ss_out (run i)) \<subseteq> set (ss_out (run (Suc i)))"
      using step by (cases rule: session_step.cases) auto
    from refusal_step [OF session_aliveD(1) [OF run_alive [OF assms(1,2)]] step assms(3) Suc.prems] Suc.IH grows show ?thesis by blast
  qed (use Suc in simp)
qed (use assms(4) in \<open>simp add: turned_away_def\<close>)

section \<open>There are fair runs\<close>

text \<open>Round robin over all threads, each of which goes on when it is its turn and it can.\<close>

definition thread_at :: "nat \<Rightarrow> thread" where
  "thread_at i = (let c = word_of_nat (i div 4) in
     case i mod 4 of 0 \<Rightarrow> Client_Main c | Suc 0 \<Rightarrow> Client_Reader c | Suc (Suc 0) \<Rightarrow> Handler_Thread | _ \<Rightarrow> Dispatcher_Thread)"

lemma thread_recurs: "\<exists>j \<ge> i. thread_at j = th"
proof -
  have at: "\<exists>j \<ge> i. j mod 4 = r \<and> word_of_nat (j div 4) = c" if "r < 4" for r and c :: u32
  proof -
    let ?j = "4 * (unat c + 2 ^ 32 * i) + r"
    have "?j div 4 = unat c + 2 ^ 32 * i" using that by simp
    moreover have "(4294967296 :: u32) * word_of_nat i = 0 * word_of_nat i"
      by (rule arg_cong [where f = "\<lambda>z. z * word_of_nat i"]) simp
    then have "word_of_nat (unat c + 2 ^ 32 * i) = c" by simp
    moreover have "?j mod 4 = r mod 4" by (rule mod_mult_self4)
    then have "?j mod 4 = r" using that by simp
    moreover have "i \<le> ?j" by simp
    ultimately show ?thesis by metis
  qed
  show ?thesis
  proof (cases th)
    case (Client_Main c)
    then show ?thesis using at [of 0 c] by (auto simp: thread_at_def)
  next
    case (Client_Reader c)
    then show ?thesis using at [of 1 c] by (auto simp: thread_at_def)
  next
    case Handler_Thread
    then show ?thesis using at [of 2 0] by (auto simp: thread_at_def numeral_2_eq_2)
  next
    case Dispatcher_Thread
    then show ?thesis using at [of 3 0] by (auto simp: thread_at_def numeral_3_eq_3)
  qed
qed

lemma acts_keeps_running:
  assumes "acts E G socket th s t"
  shows "ws_running (sr_ws (ss_srv t)) = ws_running (sr_ws (ss_srv s))"
proof -
  have "session_step E G socket s t" using assms by (simp add: acts_def)
  then show ?thesis
  proof cases
    case (s_handler r)
    then show ?thesis by (auto elim: handler_step.cases)
  next
    case (s_dispatcher r)
    then show ?thesis by (auto elim: dispatcher_step.cases)
  next
    case (s_serve i v)
    then show ?thesis using serve_keeps(2) by simp
  next
    case s_stop
    then show ?thesis using assms by (cases th) (auto simp: acts_def)
  qed simp_all
qed

lemma fair_run_of:
  assumes "ws_running (sr_ws (ss_srv s))"
  shows "\<exists>run. fair_run E G socket A run \<and> run 0 = s \<and> (\<forall>i c. c \<notin> A \<longrightarrow> ss_point (run i) c = ss_point s c)"
proof -
  obtain run where run: "run 0 = s"
      "\<And>i. run (Suc i) = run i \<or> (\<exists>th. takes_part A th \<and> acts E G socket th (run i) (run (Suc i)))"
      "\<And>th i. takes_part A th \<Longrightarrow> \<exists>j \<ge> i. acts E G socket th (run j) (run (Suc j)) \<or> \<not> (\<exists>t. acts E G socket th (run j) t)"
    using fair_schedule [of thread_at s "takes_part A" "acts E G socket"] thread_recurs by blast
  have "ss_point (run (Suc i)) c = ss_point (run i) c" if "c \<notin> A" for i c
    using run(2) [of i]
  proof (elim disjE exE conjE)
    fix th assume a: "takes_part A th" "acts E G socket th (run i) (run (Suc i))"
    then have "th \<noteq> Client_Main c" using that by auto
    then show ?thesis using thread_keeps [of E G socket "run i" "run (Suc i)" th "Client_Main c"] a(2) by (auto simp: acts_def)
  qed simp
  then have "ss_point (run i) c = ss_point s c" if "c \<notin> A" for i c using that by (induction i) (simp_all add: run(1))
  moreover have "ws_running (sr_ws (ss_srv (run i)))" for i
  proof (induction i)
    case (Suc i)
    then show ?case using run(2) [of i] acts_keeps_running by metis
  qed (simp add: run(1) assms)
  moreover have "run (Suc i) = run i \<or> session_step E G socket (run i) (run (Suc i))" for i
    using run(2) [of i] by (auto simp: acts_def)
  ultimately have "fair_run E G socket A run \<and> run 0 = s \<and> (\<forall>i c. c \<notin> A \<longrightarrow> ss_point (run i) c = ss_point s c)"
    unfolding fair_for_def using run(1,3) by auto
  then show ?thesis by blast
qed

section \<open>Properties\<close>



text \<open>Property C23: the handshake of the two threads completes, whatever the dispatcher has to do in between. Let
  the matrices of the clients satisfy \<open>config_ok\<close> and the server have a worker thread. In every run that is
  fair to the message handler and the dispatcher (and to the clients in \<open>A\<close>, which may be empty), every
  call of the handler comes to its end: again and again the handler is idle, the flag is down and the
  dispatcher knows exactly the slots of the subscribed clients. The one exception is the subscription
  of a 65th client, which is undefined behaviour. The dispatcher's way to the head of its loop leads
  through the requests it serves: the workers and their join, \<open>Wake\<close> and the timers.\<close>

theorem handshake_completes:
  assumes "server_main S hardware argv pid net = (Inr (Some (ipc, ws)), net')" "store_ready G store"
    "\<forall>c. config_ok (G c) \<and> sg_threads (G c) = ws_numWorkerThreads ws" "work_ready G work" "references_ready G store"
    "inj socket" "run 0 = session_start ws kern store work" "fair_run E G socket A run"
  shows "\<exists>j \<ge> i. \<not> ws_updateAvailable (sr_ws (ss_srv (run j))) \<and>
    (sr_handler (ss_srv (run j)) = H_Idle \<and> known_slots (ss_srv (run j)) = subscribed_slots (ss_bank (run j)) \<or>
     sr_handler (ss_srv (run j)) = H_Undefined \<and> MAX_CLIENTS < card {c. ss_point (run j) c \<noteq> M_Subscribe})"
proof -
  have "ws_running ws"
    using fair_runD(2) [OF assms(8), of 0] by (simp add: assms(7) session_start_def service_start_def srv_start_def)
  then have alive: "session_alive G socket (run 0)" unfolding assms(7) by (rule start_alive [OF assms(1-6)])
  obtain n where n: "settled G run n" using run_comes_to_rest [OF assms(8) alive] by blast
  let ?j = "max n i"
  have j: "n \<le> ?j" by simp
  have down: "\<not> ws_updateAvailable (sr_ws (ss_srv (run ?j)))" by (rule rest_flag_down [OF assms(8) alive n j])
  have "sr_handler (ss_srv (run ?j)) \<in> {H_Idle, H_Undefined}" by (rule handler_rests [OF assms(8) alive n j]) simp
  moreover have "known_slots (ss_srv (run ?j)) = subscribed_slots (ss_bank (run ?j))" if "sr_handler (ss_srv (run ?j)) = H_Idle"
    using srv_invD(4) [OF session_okD(6) [OF session_aliveD(1) [OF run_alive [OF assms(8) alive]]], of ?j] that down by simp
  moreover have "sr_handler (ss_srv (run 0)) \<noteq> H_Undefined"
    by (simp add: assms(7) session_start_def service_start_def srv_start_def)
  from undefined_overflows [OF assms(8) alive this, of ?j]
  have "sr_handler (ss_srv (run ?j)) = H_Undefined \<longrightarrow> MAX_CLIENTS < card {c. ss_point (run ?j) c \<noteq> M_Subscribe}"
    by (simp add: started_def)
  ultimately show ?thesis using down by (intro exI [of _ ?j]) auto
qed

theorem handshake_completes_witness:
  "\<exists>run. run 0 = demo_session \<and> fair_run demo_env demo_clients demo_socket {7} run \<and>
     (\<forall>i. \<exists>j \<ge> i. \<not> ws_updateAvailable (sr_ws (ss_srv (run j))))"
proof -
  have "ws_running (sr_ws (ss_srv demo_session))"
    by (simp add: session_start_def service_start_def srv_start_def demo_workspace_def)
  from fair_run_of [OF this, of demo_env demo_clients demo_socket "{7}"] obtain run
    where run: "fair_run demo_env demo_clients demo_socket {7} run" "run 0 = demo_session" by blast
  from handshake_completes [OF demo_main demo_service_ok demo_session_ok(2,3,1) run(2,1)] run show ?thesis by blast
qed

end
