(* ===== verification/Transpose_Server_RA.thy ===== *)
theory Transpose_Server_RA
  imports Transpose_Server Weak_Memory
begin

text \<open>
  The handshake of the message handler and the dispatcher in the memory of \<open>Weak_Memory\<close>. The flag
  \<open>clientBankUpdateAvailable\<close> is the only atomic object; the bit set, the slots of the bank and the
  statistics in them are plain objects, which the two threads hand over to each other with the flag.
\<close>

section \<open>The two threads\<close>

datatype side = Handler | Dispatcher

text \<open>\<open>Bank_Slot i\<close> is what the dispatcher reads of a slot, and \<open>Slot_Stats i\<close> its statistics.\<close>

datatype server_object = Valid_Bits | Bank_Slot nat | Slot_Stats nat

type_synonym server_memory = "(unit, server_object, side, bool, u64) memory"

text \<open>The memory orders: in the waiting loops, of the announcement, of the test and of the reset.\<close>

record flag_orders =
  fo_wait :: memory_order
  fo_announce :: memory_order
  fo_test :: memory_order
  fo_reset :: memory_order

definition server_orders :: flag_orders where
  "server_orders = \<lparr>fo_wait = MO_Acquire, fo_announce = MO_Release, fo_test = MO_Acquire, fo_reset = MO_Release\<rparr>"

datatype bank_pc =
    B_Idle
  | B_Add nat
  | B_Add_Wait nat
  | B_Add_Set nat
  | B_Add_Publish
  | B_Rem_Wait nat
  | B_Rem_Clear nat
  | B_Rem_Publish nat
  | B_Rem_Ack nat
  | B_Rem_Done nat

text \<open>\<open>hk_undefined\<close> is set by a data race.\<close>

record handshake =
  hk_mem :: server_memory
  hk_handler :: bank_pc
  hk_dispatcher :: dispatcher_pc
  hk_local :: u64
  hk_undefined :: bool

definition hk_read :: "side \<Rightarrow> server_object \<Rightarrow> handshake \<Rightarrow> (u64 \<Rightarrow> handshake \<Rightarrow> handshake) \<Rightarrow> handshake" where
  "hk_read who obj s k =
     (case plain_read who obj (hk_mem s) of
        None \<Rightarrow> s\<lparr>hk_undefined := True\<rparr>
      | Some (v, M) \<Rightarrow> k v (s\<lparr>hk_mem := M\<rparr>))"

definition hk_write :: "side \<Rightarrow> server_object \<Rightarrow> u64 \<Rightarrow> handshake \<Rightarrow> (handshake \<Rightarrow> handshake) \<Rightarrow> handshake" where
  "hk_write who obj v s k =
     (case plain_write who obj v (hk_mem s) of
        None \<Rightarrow> s\<lparr>hk_undefined := True\<rparr>
      | Some M \<Rightarrow> k (s\<lparr>hk_mem := M\<rparr>))"

definition hk_load :: "memory_order \<Rightarrow> side \<Rightarrow> nat \<Rightarrow> handshake \<Rightarrow> (bool \<Rightarrow> handshake \<Rightarrow> handshake) \<Rightarrow> handshake option" where
  "hk_load ord who j s k =
     (case atomic_load ord who () j (hk_mem s) of
        None \<Rightarrow> None
      | Some (v, M) \<Rightarrow> Some (k v (s\<lparr>hk_mem := M\<rparr>)))"

definition hk_store :: "memory_order \<Rightarrow> side \<Rightarrow> bool \<Rightarrow> handshake \<Rightarrow> (handshake \<Rightarrow> handshake) \<Rightarrow> handshake" where
  "hk_store ord who v s k =
     (case atomic_store ord who () v (hk_mem s) of
        None \<Rightarrow> s\<lparr>hk_undefined := True\<rparr>
      | Some M \<Rightarrow> k (s\<lparr>hk_mem := M\<rparr>))"

text \<open>
  The handler. What it does next is a message, or in \<open>AddClient\<close> another write to the slot, a failure, or
  the end of the set-up. \<open>logs\<close> says whether the line for \<open>clog\<close> reads the statistics before \<open>RemoveClient\<close>.
  With all bits set the message is left alone here; what the code does then is \<open>full_bank_undefined\<close>.
\<close>

datatype bank_act = Subscribe | Unsubscribe nat | Set_Up u64 | Fail | Finish

fun bank_next :: "flag_orders \<Rightarrow> bool \<Rightarrow> bank_act \<Rightarrow> nat \<Rightarrow> bank_pc \<Rightarrow> handshake \<Rightarrow> handshake option" where
  "bank_next fo logs act j B_Idle s =
     (case act of
        Subscribe \<Rightarrow> Some (hk_read Handler Valid_Bits s (\<lambda>bits t.
          case find (\<lambda>i. \<not> getBit bits i) [0..<MAX_CLIENTS] of None \<Rightarrow> t | Some i \<Rightarrow> t\<lparr>hk_handler := B_Add i\<rparr>))
      | Unsubscribe i \<Rightarrow>
          if i < MAX_CLIENTS then Some (hk_read Handler (Bank_Slot i) s (\<lambda>subscribed t.
            if subscribed = 0 then t
            else if logs then hk_read Handler (Slot_Stats i) t (\<lambda>_ u. u\<lparr>hk_handler := B_Rem_Wait i\<rparr>)
            else t\<lparr>hk_handler := B_Rem_Wait i\<rparr>))
          else None
      | _ \<Rightarrow> None)"
| "bank_next fo logs act j (B_Add i) s =
     (case act of
        Set_Up v \<Rightarrow> Some (hk_write Handler (Bank_Slot i) 0 s (\<lambda>t. hk_write Handler (Slot_Stats i) v t id))
      | Fail \<Rightarrow> Some (hk_write Handler (Bank_Slot i) 0 s (\<lambda>t. t\<lparr>hk_handler := B_Idle\<rparr>))
      | Finish \<Rightarrow> Some (hk_write Handler (Bank_Slot i) 1 s (\<lambda>t. t\<lparr>hk_handler := B_Add_Wait i\<rparr>))
      | _ \<Rightarrow> None)"
| "bank_next fo logs act j (B_Add_Wait i) s =
     hk_load (fo_wait fo) Handler j s (\<lambda>flag t. if flag then t else t\<lparr>hk_handler := B_Add_Set i\<rparr>)"
| "bank_next fo logs act j (B_Add_Set i) s =
     Some (hk_read Handler Valid_Bits s (\<lambda>bits t.
       hk_write Handler Valid_Bits (setBit bits i True) t (\<lambda>u. u\<lparr>hk_handler := B_Add_Publish\<rparr>)))"
| "bank_next fo logs act j B_Add_Publish s =
     Some (hk_store (fo_announce fo) Handler True s (\<lambda>t. t\<lparr>hk_handler := B_Idle\<rparr>))"
| "bank_next fo logs act j (B_Rem_Wait i) s =
     hk_load (fo_wait fo) Handler j s (\<lambda>flag t. if flag then t else t\<lparr>hk_handler := B_Rem_Clear i\<rparr>)"
| "bank_next fo logs act j (B_Rem_Clear i) s =
     Some (hk_read Handler Valid_Bits s (\<lambda>bits t.
       hk_write Handler Valid_Bits (setBit bits i False) t (\<lambda>u. u\<lparr>hk_handler := B_Rem_Publish i\<rparr>)))"
| "bank_next fo logs act j (B_Rem_Publish i) s =
     Some (hk_store (fo_announce fo) Handler True s (\<lambda>t. t\<lparr>hk_handler := B_Rem_Ack i\<rparr>))"
| "bank_next fo logs act j (B_Rem_Ack i) s =
     hk_load (fo_wait fo) Handler j s (\<lambda>flag t. if flag then t else t\<lparr>hk_handler := B_Rem_Done i\<rparr>)"
| "bank_next fo logs act j (B_Rem_Done i) s =
     Some (hk_write Handler (Bank_Slot i) 0 s (\<lambda>t. t\<lparr>hk_handler := B_Idle\<rparr>))"

text \<open>The dispatcher; serving a slot is any number of accesses to the slot and to its statistics.\<close>

datatype serve_act = Use_Slot | Use_Stats u64 | Leave_Slot

fun dispatcher_next :: "flag_orders \<Rightarrow> serve_act \<Rightarrow> nat \<Rightarrow> dispatcher_pc \<Rightarrow> handshake \<Rightarrow> handshake option" where
  "dispatcher_next fo act j D_Top s =
     hk_load (fo_test fo) Dispatcher j s (\<lambda>flag t. t\<lparr>hk_dispatcher := if flag then D_Load else D_Scan 0\<rparr>)"
| "dispatcher_next fo act j D_Load s =
     Some (hk_read Dispatcher Valid_Bits s (\<lambda>bits t. t\<lparr>hk_local := bits, hk_dispatcher := D_Clear\<rparr>))"
| "dispatcher_next fo act j D_Clear s =
     Some (hk_store (fo_reset fo) Dispatcher False s (\<lambda>t. t\<lparr>hk_dispatcher := D_Scan 0\<rparr>))"
| "dispatcher_next fo act j (D_Scan i) s =
     Some (s\<lparr>hk_dispatcher := if MAX_CLIENTS \<le> i then D_Top else if getBit (hk_local s) i then D_Serve i else D_Scan (i + 1)\<rparr>)"
| "dispatcher_next fo act j (D_Serve i) s =
     Some (case act of
        Use_Slot \<Rightarrow> hk_read Dispatcher (Bank_Slot i) s (\<lambda>_ t. t)
      | Use_Stats v \<Rightarrow> hk_read Dispatcher (Slot_Stats i) s (\<lambda>_ t. hk_write Dispatcher (Slot_Stats i) v t id)
      | Leave_Slot \<Rightarrow> s\<lparr>hk_dispatcher := D_Scan (i + 1)\<rparr>)"
| "dispatcher_next fo act j D_Stopped s = None"

inductive handshake_step :: "flag_orders \<Rightarrow> bool \<Rightarrow> handshake \<Rightarrow> handshake \<Rightarrow> bool"
  for fo :: flag_orders and logs :: bool where
  hk_bank: "bank_next fo logs act j (hk_handler s) s = Some t \<Longrightarrow> handshake_step fo logs s t"
| hk_dispatch: "dispatcher_next fo act j (hk_dispatcher s) s = Some t \<Longrightarrow> handshake_step fo logs s t"

text \<open>\<open>main\<close> has made the bank before it starts the threads.\<close>

definition handshake_start :: handshake where
  "handshake_start = \<lparr>hk_mem = new_memory (\<lambda>_. False) (\<lambda>_. 0), hk_handler = B_Idle, hk_dispatcher = D_Top,
     hk_local = 0, hk_undefined = False\<rparr>"

section \<open>The accesses without a race\<close>

lemma all_sides: "(\<forall>u. P u) \<longleftrightarrow> P Handler \<and> P Dispatcher"
  by (metis side.exhaust)

definition tick :: "side \<Rightarrow> server_memory \<Rightarrow> (unit, side) view" where
  "tick t M = (mm_view M t)(Clk t := Suc (mm_view M t (Clk t)))"

definition after_read :: "side \<Rightarrow> server_object \<Rightarrow> server_memory \<Rightarrow> server_memory" where
  "after_read t obj M = M\<lparr>mm_reads := (mm_reads M)(obj := (mm_reads M obj)(t := Suc (mm_view M t (Clk t)))),
     mm_view := (mm_view M)(t := tick t M)\<rparr>"

definition after_write :: "side \<Rightarrow> server_object \<Rightarrow> u64 \<Rightarrow> server_memory \<Rightarrow> server_memory" where
  "after_write t obj v M = M\<lparr>mm_plain := (mm_plain M)(obj := v),
     mm_writes := (mm_writes M)(obj := (mm_writes M obj)(t := Suc (mm_view M t (Clk t)))), mm_view := (mm_view M)(t := tick t M)\<rparr>"

definition after_load :: "side \<Rightarrow> nat \<Rightarrow> server_memory \<Rightarrow> server_memory" where
  "after_load t j M = M\<lparr>mm_view := (mm_view M)(t := join ((mm_view M t)(Seen () := j)) (snd (mm_hist M () ! j)))\<rparr>"

definition after_store :: "side \<Rightarrow> bool \<Rightarrow> server_memory \<Rightarrow> server_memory" where
  "after_store t v M =
     (let view = (mm_view M t)(Seen () := length (mm_hist M ()))
      in M\<lparr>mm_hist := (mm_hist M)(() := mm_hist M () @ [(v, view)]), mm_view := (mm_view M)(t := view)\<rparr>)"

text \<open>What the other side has done with an object a thread has to know before it writes the object.\<close>

fun other :: "side \<Rightarrow> side" where
  "other Handler = Dispatcher"
| "other Dispatcher = Handler"

definition writes_known :: "side \<Rightarrow> server_object \<Rightarrow> server_memory \<Rightarrow> bool" where
  "writes_known t obj M \<longleftrightarrow> mm_writes M obj (other t) \<le> mm_view M t (Clk (other t))"

definition reads_known :: "side \<Rightarrow> server_object \<Rightarrow> server_memory \<Rightarrow> bool" where
  "reads_known t obj M \<longleftrightarrow> mm_reads M obj (other t) \<le> mm_view M t (Clk (other t))"

text \<open>What holds of every memory: the clocks, who accesses what, and the history of the flag.\<close>

definition memory_ok :: "server_memory \<Rightarrow> bool" where
  "memory_ok M \<longleftrightarrow>
     (\<forall>obj t. mm_reads M obj t \<le> mm_view M t (Clk t) \<and> mm_writes M obj t \<le> mm_view M t (Clk t)) \<and>
     mm_writes M Valid_Bits Dispatcher = 0 \<and> (\<forall>i. mm_writes M (Bank_Slot i) Dispatcher = 0 \<and> mm_reads M (Slot_Stats i) Handler = 0) \<and>
     mm_hist M () \<noteq> [] \<and> (\<forall>j < length (mm_hist M ()). (fst (mm_hist M () ! j) \<longleftrightarrow> odd j) \<and> snd (mm_hist M () ! j) (Seen ()) \<le> j)"

lemma hk_read_known:
  assumes "memory_ok (hk_mem s)" "writes_known t obj (hk_mem s)"
  shows "hk_read t obj s k = k (mm_plain (hk_mem s) obj) (s\<lparr>hk_mem := after_read t obj (hk_mem s)\<rparr>)"
  using assms unfolding memory_ok_def writes_known_def
  by (cases t) (simp_all add: hk_read_def plain_read_def after_read_def tick_def all_sides Let_def)

lemma hk_write_known:
  assumes "memory_ok (hk_mem s)" "writes_known t obj (hk_mem s)" "reads_known t obj (hk_mem s)"
  shows "hk_write t obj v s k = k (s\<lparr>hk_mem := after_write t obj v (hk_mem s)\<rparr>)"
  using assms unfolding memory_ok_def writes_known_def reads_known_def
  by (cases t) (simp_all add: hk_write_def plain_write_def after_write_def tick_def all_sides Let_def)

lemma hk_load_acquires:
  assumes "hk_load ord t j s k = Some u" "acquires ord"
  shows "mm_view (hk_mem s) t (Seen ()) \<le> j" "j < length (mm_hist (hk_mem s) ())"
    "u = k (fst (mm_hist (hk_mem s) () ! j)) (s\<lparr>hk_mem := after_load t j (hk_mem s)\<rparr>)"
  using assms
  by (auto simp: hk_load_def atomic_load_def after_load_def Let_def split: if_splits prod.splits option.splits)

lemma hk_store_releases:
  assumes "releases ord" "Suc (mm_view (hk_mem s) t (Seen ())) = length (mm_hist (hk_mem s) ())"
  shows "hk_store ord t v s k = k (s\<lparr>hk_mem := after_store t v (hk_mem s)\<rparr>)"
  using assms by (simp add: hk_store_def atomic_store_def after_store_def Let_def)

lemmas after_defs = after_read_def after_write_def after_load_def after_store_def tick_def Let_def

text \<open>The accesses keep all that; an object's clocks are changed by its accesses only, and views grow.\<close>

lemma after_memory_ok:
  assumes "memory_ok M"
  shows "(t = Handler \<Longrightarrow> \<forall>i. obj \<noteq> Slot_Stats i) \<Longrightarrow> memory_ok (after_read t obj M)"
    "(t = Dispatcher \<Longrightarrow> \<exists>i. obj = Slot_Stats i) \<Longrightarrow> memory_ok (after_write t obj v M)"
    "memory_ok (after_load t j M)"
    "f \<longleftrightarrow> odd (length (mm_hist M ())) \<Longrightarrow> memory_ok (after_store t f M)"
proof -
  note ok = assms [unfolded memory_ok_def]
  show "memory_ok (after_read t obj M)" if "t = Handler \<Longrightarrow> \<forall>i. obj \<noteq> Slot_Stats i"
    using ok that by (cases t) (auto simp: memory_ok_def after_defs le_SucI)
  show "memory_ok (after_write t obj v M)" if "t = Dispatcher \<Longrightarrow> \<exists>i. obj = Slot_Stats i"
    using ok that by (cases t) (auto simp: memory_ok_def after_defs le_SucI)
  show "memory_ok (after_load t j M)"
    using ok by (auto simp: memory_ok_def after_defs le_max_iff_disj)
  show "memory_ok (after_store t f M)" if "f \<longleftrightarrow> odd (length (mm_hist M ()))"
    using ok that by (auto simp: memory_ok_def after_defs nth_append less_Suc_eq)
qed

section \<open>The invariant\<close>

definition bits :: "u64 \<Rightarrow> nat set" where
  "bits b = {i. i < MAX_CLIENTS \<and> getBit b i}"

abbreviation valid :: "handshake \<Rightarrow> nat set" where
  "valid s \<equiv> bits (mm_plain (hk_mem s) Valid_Bits)"

abbreviation known :: "handshake \<Rightarrow> nat set" where
  "known s \<equiv> bits (hk_local s)"

text \<open>The number of the newest value of the flag; the handler stores the odd ones, the dispatcher the even ones.\<close>

definition newest :: "server_memory \<Rightarrow> nat" where
  "newest M = length (mm_hist M ()) - 1"

abbreviation seen :: "server_memory \<Rightarrow> side \<Rightarrow> nat" where
  "seen M t \<equiv> mm_view M t (Seen ())"

text \<open>Up to where the newest value tells of the events of a thread.\<close>

definition told :: "server_memory \<Rightarrow> side \<Rightarrow> nat" where
  "told M t = snd (mm_hist M () ! newest M) (Clk t)"

fun in_step :: "bank_pc \<Rightarrow> bool" where
  "in_step (B_Add_Set i) = True"
| "in_step B_Add_Publish = True"
| "in_step (B_Rem_Clear i) = True"
| "in_step (B_Rem_Publish i) = True"
| "in_step (B_Rem_Done i) = True"
| "in_step _ = False"

fun slots_ok :: "bank_pc \<Rightarrow> nat set \<Rightarrow> nat set \<Rightarrow> bool \<Rightarrow> bool" where
  "slots_ok B_Idle V L flag = (L \<subseteq> V \<and> (\<not> flag \<longrightarrow> L = V))"
| "slots_ok (B_Add i) V L flag = (L \<subseteq> V \<and> (\<not> flag \<longrightarrow> L = V) \<and> i < MAX_CLIENTS \<and> i \<notin> V)"
| "slots_ok (B_Add_Wait i) V L flag = (L \<subseteq> V \<and> (\<not> flag \<longrightarrow> L = V) \<and> i < MAX_CLIENTS \<and> i \<notin> V)"
| "slots_ok (B_Add_Set i) V L flag = (L = V \<and> i < MAX_CLIENTS \<and> i \<notin> V)"
| "slots_ok B_Add_Publish V L flag = (L \<subseteq> V)"
| "slots_ok (B_Rem_Wait i) V L flag = (L \<subseteq> V \<and> (\<not> flag \<longrightarrow> L = V) \<and> i < MAX_CLIENTS)"
| "slots_ok (B_Rem_Clear i) V L flag = (L = V \<and> i < MAX_CLIENTS)"
| "slots_ok (B_Rem_Publish i) V L flag = (V \<subseteq> L \<and> L \<subseteq> insert i V \<and> i \<notin> V)"
| "slots_ok (B_Rem_Ack i) V L flag = (V \<subseteq> L \<and> L \<subseteq> insert i V \<and> (\<not> flag \<longrightarrow> L = V) \<and> i \<notin> V)"
| "slots_ok (B_Rem_Done i) V L flag = (L = V \<and> i \<notin> V)"

fun freeing :: "bank_pc \<Rightarrow> nat set" where
  "freeing (B_Rem_Publish i) = {i}"
| "freeing (B_Rem_Ack i) = {i}"
| "freeing _ = {}"

text \<open>All that the dispatcher has done with a slot, and all that the handler has written to it, is known.\<close>

definition slot_known :: "server_memory \<Rightarrow> nat \<Rightarrow> nat \<Rightarrow> bool" where
  "slot_known M clock i \<longleftrightarrow> mm_reads M (Bank_Slot i) Dispatcher \<le> clock \<and> mm_reads M (Slot_Stats i) Dispatcher \<le> clock \<and>
     mm_writes M (Slot_Stats i) Dispatcher \<le> clock"

definition slot_written :: "server_memory \<Rightarrow> nat \<Rightarrow> nat \<Rightarrow> bool" where
  "slot_written M clock i \<longleftrightarrow> mm_writes M (Bank_Slot i) Handler \<le> clock \<and> mm_writes M (Slot_Stats i) Handler \<le> clock"

text \<open>
  The handler's view of the flag, the dispatcher's, what the newest value tells, and what each thread knows
  of the slots it may touch.
\<close>

definition handler_sees :: "server_memory \<Rightarrow> bank_pc \<Rightarrow> bool" where
  "handler_sees M h \<longleftrightarrow> seen M Handler \<le> newest M \<and> newest M \<le> seen M Handler + of_bool (even (newest M)) \<and>
     (in_step h \<longrightarrow> even (newest M) \<and> seen M Handler = newest M) \<and>
     (even (newest M) \<and> seen M Handler = newest M \<longrightarrow> told M Dispatcher \<le> mm_view M Handler (Clk Dispatcher))"

definition dispatcher_sees :: "server_memory \<Rightarrow> dispatcher_pc \<Rightarrow> bool" where
  "dispatcher_sees M d \<longleftrightarrow> seen M Dispatcher \<le> newest M \<and> newest M \<le> seen M Dispatcher + of_bool (odd (newest M)) \<and>
     (d = D_Load \<or> d = D_Clear \<longrightarrow> odd (newest M) \<and> seen M Dispatcher = newest M) \<and>
     (odd (newest M) \<and> seen M Dispatcher = newest M \<longrightarrow> told M Handler \<le> mm_view M Dispatcher (Clk Handler))"

definition flag_tells :: "server_memory \<Rightarrow> nat set \<Rightarrow> nat set \<Rightarrow> bool" where
  "flag_tells M V L \<longleftrightarrow>
     (if odd (newest M) then mm_writes M Valid_Bits Handler \<le> told M Handler \<and> (\<forall>i \<in> V. slot_written M (told M Handler) i)
      else mm_reads M Valid_Bits Dispatcher \<le> told M Dispatcher \<and> (\<forall>i. i \<notin> L \<longrightarrow> slot_known M (told M Dispatcher) i))"

definition handshake_inv :: "handshake \<Rightarrow> bool" where
  "handshake_inv s \<longleftrightarrow> \<not> hk_undefined s \<and> memory_ok (hk_mem s) \<and> handler_sees (hk_mem s) (hk_handler s) \<and>
     dispatcher_sees (hk_mem s) (hk_dispatcher s) \<and> flag_tells (hk_mem s) (valid s) (known s) \<and>
     slots_ok (hk_handler s) (valid s) (known s) (odd (newest (hk_mem s))) \<and>
     (\<forall>i. i \<notin> valid s \<union> freeing (hk_handler s) \<longrightarrow> slot_known (hk_mem s) (mm_view (hk_mem s) Handler (Clk Dispatcher)) i) \<and>
     (\<forall>i \<in> known s. slot_written (hk_mem s) (mm_view (hk_mem s) Dispatcher (Clk Handler)) i) \<and>
     (hk_dispatcher s = D_Clear \<longrightarrow> known s = valid s) \<and> (\<forall>i. hk_dispatcher s = D_Serve i \<longrightarrow> i \<in> known s)"

lemma handshake_invD:
  assumes "handshake_inv s"
  shows "\<not> hk_undefined s" "memory_ok (hk_mem s)" "handler_sees (hk_mem s) (hk_handler s)"
    "dispatcher_sees (hk_mem s) (hk_dispatcher s)" "flag_tells (hk_mem s) (valid s) (known s)"
    "slots_ok (hk_handler s) (valid s) (known s) (odd (newest (hk_mem s)))"
    "i \<notin> valid s \<Longrightarrow> i \<notin> freeing (hk_handler s) \<Longrightarrow> slot_known (hk_mem s) (mm_view (hk_mem s) Handler (Clk Dispatcher)) i"
    "i \<in> known s \<Longrightarrow> slot_written (hk_mem s) (mm_view (hk_mem s) Dispatcher (Clk Handler)) i"
    "hk_dispatcher s = D_Clear \<Longrightarrow> known s = valid s" "hk_dispatcher s = D_Serve i \<Longrightarrow> i \<in> known s"
  using assms by (auto simp: handshake_inv_def)

lemma bits_setBit: "i < MAX_CLIENTS \<Longrightarrow> bits (setBit b i v) = (if v then insert i (bits b) else bits b - {i})"
  by (auto simp: bits_def MAX_CLIENTS_def getBit_setBit)

lemma handshake_start_inv: "handshake_inv handshake_start"
  by (simp add: handshake_inv_def handshake_start_def new_memory_def memory_ok_def handler_sees_def dispatcher_sees_def
      flag_tells_def newest_def told_def slot_known_def slot_written_def bits_def)

section \<open>The invariant is kept\<close>

text \<open>What the accesses change.\<close>

lemma after_simps [simp]:
  "mm_hist (after_load t j M) = mm_hist M" "newest (after_read t obj M) = newest M" "newest (after_write t obj v M) = newest M" "newest (after_load t j M) = newest M"
  "told (after_read t obj M) u = told M u" "told (after_write t obj v M) u = told M u" "told (after_load t j M) u = told M u"
  "seen (after_read t obj M) u = seen M u" "seen (after_write t obj v M) u = seen M u"
  "mm_view (after_read t obj M) u (Clk w) = (if u = t \<and> w = t then Suc (mm_view M t (Clk t)) else mm_view M u (Clk w))"
  "mm_view (after_write t obj v M) u (Clk w) = (if u = t \<and> w = t then Suc (mm_view M t (Clk t)) else mm_view M u (Clk w))"
  "mm_view (after_load t j M) u (Clk w) =
     (if u = t then max (mm_view M t (Clk w)) (snd (mm_hist M () ! j) (Clk w)) else mm_view M u (Clk w))"
  "mm_view (after_store t f M) u (Clk w) = mm_view M u (Clk w)"
  "mm_plain (after_read t obj M) = mm_plain M" "mm_plain (after_write t obj v M) = (mm_plain M)(obj := v)"
  "mm_plain (after_load t j M) = mm_plain M" "mm_plain (after_store t f M) = mm_plain M"
  "mm_reads (after_read t obj M) = (mm_reads M)(obj := (mm_reads M obj)(t := Suc (mm_view M t (Clk t))))"
  "mm_writes (after_read t obj M) = mm_writes M" "mm_reads (after_write t obj v M) = mm_reads M"
  "mm_writes (after_write t obj v M) = (mm_writes M)(obj := (mm_writes M obj)(t := Suc (mm_view M t (Clk t))))"
  "mm_reads (after_load t j M) = mm_reads M" "mm_writes (after_load t j M) = mm_writes M"
  "mm_reads (after_store t f M) = mm_reads M" "mm_writes (after_store t f M) = mm_writes M"
  by (simp_all add: after_defs newest_def told_def)

lemma after_load_seen:
  assumes "memory_ok M" "j < length (mm_hist M ())"
  shows "seen (after_load t j M) u = (if u = t then j else seen M u)"
  using assms by (auto simp: memory_ok_def after_defs)

lemma after_store_simps:
  assumes "memory_ok M"
  shows "newest (after_store t f M) = Suc (newest M)" "told (after_store t f M) u = mm_view M t (Clk u)"
    "seen (after_store t f M) u = (if u = t then Suc (newest M) else seen M u)"
  using assms by (auto simp: memory_ok_def after_defs newest_def told_def)

lemma flag_value:
  assumes "memory_ok M" "j < length (mm_hist M ())"
  shows "fst (mm_hist M () ! j) \<longleftrightarrow> odd j" "j \<le> newest M"
  using assms by (auto simp: memory_ok_def newest_def)

lemma known_accesses:
  assumes "memory_ok M"
  shows "writes_known Handler Valid_Bits M" "writes_known Handler (Bank_Slot i) M" "reads_known Dispatcher (Slot_Stats i) M"
  using assms by (simp_all add: memory_ok_def writes_known_def reads_known_def)

lemmas sees_defs = handler_sees_def dispatcher_sees_def flag_tells_def slot_known_def slot_written_def

lemma own_clock:
  assumes "memory_ok M"
  shows "mm_reads M obj t \<le> mm_view M t (Clk t)" "mm_writes M obj t \<le> mm_view M t (Clk t)"
  using assms by (simp_all add: memory_ok_def)

text \<open>What a plain access leaves as it is.\<close>

lemma plain_keeps [simp]:
  "handler_sees (after_read t obj M) h = handler_sees M h" "handler_sees (after_write t obj v M) h = handler_sees M h"
  "dispatcher_sees (after_read t obj M) d = dispatcher_sees M d" "dispatcher_sees (after_write t obj v M) d = dispatcher_sees M d"
  "slot_known (after_read Handler obj M) clock i = slot_known M clock i"
  "slot_known (after_write Handler obj v M) clock i = slot_known M clock i"
  "slot_written (after_read t obj M) clock i = slot_written M clock i"
  "slot_written (after_write Dispatcher obj v M) clock i = slot_written M clock i"
  by (auto simp: sees_defs)

lemma flag_keeps [simp]:
  "slot_known (after_load t j M) clock i = slot_known M clock i" "slot_written (after_load t j M) clock i = slot_written M clock i"
  "slot_known (after_store t f M) clock i = slot_known M clock i" "slot_written (after_store t f M) clock i = slot_written M clock i"
  "flag_tells (after_load t j M) V L = flag_tells M V L"
  by (simp_all add: flag_tells_def slot_known_def slot_written_def)

lemma slot_mono:
  "slot_known M clock i \<Longrightarrow> clock \<le> clock' \<Longrightarrow> slot_known M clock' i"
  "slot_written M clock i \<Longrightarrow> clock \<le> clock' \<Longrightarrow> slot_written M clock' i"
  by (simp_all add: slot_known_def slot_written_def)

lemma slot_access:
  "obj \<noteq> Bank_Slot i \<Longrightarrow> obj \<noteq> Slot_Stats i \<Longrightarrow> slot_known (after_read Dispatcher obj M) clock i = slot_known M clock i"
  "obj \<noteq> Slot_Stats i \<Longrightarrow> slot_known (after_write Dispatcher obj v M) clock i = slot_known M clock i"
  "obj \<noteq> Bank_Slot i \<Longrightarrow> obj \<noteq> Slot_Stats i \<Longrightarrow> slot_written (after_write Handler obj v M) clock i = slot_written M clock i"
  by (simp_all add: slot_known_def slot_written_def)

lemma flag_tells_handler_read [simp]: "flag_tells (after_read Handler obj M) V L = flag_tells M V L"
  by (simp add: flag_tells_def)

lemma flag_tells_access:
  "i \<in> L \<Longrightarrow> obj = Bank_Slot i \<or> obj = Slot_Stats i \<Longrightarrow> flag_tells M V L \<Longrightarrow> flag_tells (after_read Dispatcher obj M) V L"
  "i \<in> L \<Longrightarrow> flag_tells M V L \<Longrightarrow> flag_tells (after_write Dispatcher (Slot_Stats i) v M) V L"
  "i \<notin> V \<Longrightarrow> obj = Bank_Slot i \<or> obj = Slot_Stats i \<Longrightarrow> flag_tells M V L \<Longrightarrow> flag_tells (after_write Handler obj v M) V L"
proof -
  show "flag_tells (after_read Dispatcher obj M) V L" if "i \<in> L" "obj = Bank_Slot i \<or> obj = Slot_Stats i" "flag_tells M V L"
  proof -
    have "obj \<noteq> Bank_Slot j \<and> obj \<noteq> Slot_Stats j \<and> obj \<noteq> Valid_Bits" if "j \<notin> L" for j using that \<open>i \<in> L\<close> \<open>obj = _ \<or> _\<close> by auto
    then show ?thesis using that(2,3) by (auto simp: flag_tells_def slot_access(1))
  qed
  show "flag_tells (after_write Dispatcher (Slot_Stats i) v M) V L" if "i \<in> L" "flag_tells M V L"
  proof -
    have "i \<noteq> j" if "j \<notin> L" for j using that \<open>i \<in> L\<close> by auto
    then show ?thesis using that(2) by (auto simp: flag_tells_def slot_access(2))
  qed
  show "flag_tells (after_write Handler obj v M) V L" if "i \<notin> V" "obj = Bank_Slot i \<or> obj = Slot_Stats i" "flag_tells M V L"
  proof -
    have "obj \<noteq> Bank_Slot j \<and> obj \<noteq> Slot_Stats j" if "j \<in> V" for j using that \<open>i \<notin> V\<close> \<open>obj = _ \<or> _\<close> by auto
    then show ?thesis using that(2,3) by (auto simp: flag_tells_def slot_access(3))
  qed
qed

lemma known_slots_valid: "handshake_inv s \<Longrightarrow> known s \<subseteq> valid s \<union> freeing (hk_handler s)"
  using handshake_invD(6) [of s] by (cases "hk_handler s") auto

lemma handler_reads:
  assumes "handshake_inv s" "\<forall>i. obj \<noteq> Slot_Stats i"
  shows "handshake_inv (s\<lparr>hk_mem := after_read Handler obj (hk_mem s)\<rparr>)"
  using assms(1) after_memory_ok(1) [of "hk_mem s" Handler obj] assms(2)
  by (simp add: handshake_inv_def)

lemma dispatcher_accesses:
  assumes "handshake_inv s" "hk_dispatcher s = D_Serve i"
  shows "obj = Bank_Slot i \<or> obj = Slot_Stats i \<Longrightarrow> handshake_inv (s\<lparr>hk_mem := after_read Dispatcher obj (hk_mem s)\<rparr>)"
    "handshake_inv (s\<lparr>hk_mem := after_write Dispatcher (Slot_Stats i) v (hk_mem s)\<rparr>)"
proof -
  have i: "i \<in> known s" "i \<in> valid s \<union> freeing (hk_handler s)"
    using handshake_invD(10) [OF assms(1,2)] known_slots_valid [OF assms(1)] by blast+
  have mem: "memory_ok (after_read Dispatcher obj (hk_mem s))" "memory_ok (after_write Dispatcher (Slot_Stats i) v (hk_mem s))" for obj
    using after_memory_ok(1,2) [OF handshake_invD(2) [OF assms(1)], of Dispatcher] by simp_all
  have apart: "i \<noteq> j" if "j \<notin> valid s \<union> freeing (hk_handler s)" for j using that i(2) by auto
  show "handshake_inv (s\<lparr>hk_mem := after_read Dispatcher obj (hk_mem s)\<rparr>)" if obj: "obj = Bank_Slot i \<or> obj = Slot_Stats i"
  proof -
    have "obj \<noteq> Bank_Slot j \<and> obj \<noteq> Slot_Stats j" if "j \<notin> valid s \<union> freeing (hk_handler s)" for j
      using apart [OF that] obj by auto
    then show ?thesis
      using assms(1) mem(1) flag_tells_access(1) [OF i(1) obj] by (simp add: handshake_inv_def slot_access(1))
  qed
  show "handshake_inv (s\<lparr>hk_mem := after_write Dispatcher (Slot_Stats i) v (hk_mem s)\<rparr>)"
    using assms(1) mem(2) apart flag_tells_access(2) [OF i(1)] by (simp add: handshake_inv_def slot_access(2))
qed

text \<open>A write to a slot that is not valid and that the dispatcher does not know.\<close>

lemma handler_writes_slot:
  assumes "handshake_inv s" "i \<notin> valid s" "i \<notin> known s" "obj = Bank_Slot i \<or> obj = Slot_Stats i"
  shows "handshake_inv (s\<lparr>hk_mem := after_write Handler obj v (hk_mem s)\<rparr>)"
proof -
  have mem: "memory_ok (after_write Handler obj v (hk_mem s))"
    using after_memory_ok(2) [OF handshake_invD(2) [OF assms(1)], of Handler] by simp
  have "obj \<noteq> Bank_Slot j \<and> obj \<noteq> Slot_Stats j" if "j \<in> known s" for j using assms(3,4) that by auto
  moreover have "Valid_Bits \<noteq> obj" using assms(4) by auto
  ultimately show ?thesis
    using assms(1) mem flag_tells_access(3) [OF assms(2,4)] by (simp add: handshake_inv_def slot_access(3))
qed

text \<open>The bit set, written while the flag is down and seen to be.\<close>

lemma handler_writes_bits:
  assumes "handshake_inv s" "even (newest (hk_mem s))" "in_step h" "seen (hk_mem s) Handler = newest (hk_mem s)"
    "slots_ok h (bits b) (known s) False"
    "\<And>i. i \<notin> bits b \<Longrightarrow> i \<notin> freeing h \<Longrightarrow> i \<notin> valid s \<and> i \<notin> freeing (hk_handler s)"
  shows "handshake_inv (s\<lparr>hk_mem := after_write Handler Valid_Bits b (hk_mem s), hk_handler := h\<rparr>)"
proof -
  note inv = handshake_invD [OF assms(1)]
  have mem: "memory_ok (after_write Handler Valid_Bits b (hk_mem s))" using after_memory_ok(2) [OF inv(2), of Handler] by simp
  have "hk_dispatcher s \<noteq> D_Clear" using inv(4) assms(2) by (auto simp: dispatcher_sees_def)
  moreover have "handler_sees (hk_mem s) h" using inv(3) assms(2-4) by (simp add: handler_sees_def)
  moreover have "flag_tells (after_write Handler Valid_Bits b (hk_mem s)) (bits b) (known s)"
    using inv(5) assms(2) by (simp add: flag_tells_def)
  ultimately show ?thesis
    using assms(1,2,5,6) mem by (simp add: handshake_inv_def slot_access(3))
qed

lemma bits_readable:
  assumes "handshake_inv s" "in_step (hk_handler s)"
  shows "reads_known Handler Valid_Bits (hk_mem s)" "even (newest (hk_mem s))" "seen (hk_mem s) Handler = newest (hk_mem s)"
    "i \<notin> known s \<Longrightarrow> slot_known (hk_mem s) (mm_view (hk_mem s) Handler (Clk Dispatcher)) i"
proof -
  note inv = handshake_invD(3,5) [OF assms(1)]
  show at: "even (newest (hk_mem s))" "seen (hk_mem s) Handler = newest (hk_mem s)"
    using inv(1) assms(2) by (simp_all add: handler_sees_def)
  then have "told (hk_mem s) Dispatcher \<le> mm_view (hk_mem s) Handler (Clk Dispatcher)" using inv(1) by (simp add: handler_sees_def)
  with inv(2) at show "reads_known Handler Valid_Bits (hk_mem s)"
    "i \<notin> known s \<Longrightarrow> slot_known (hk_mem s) (mm_view (hk_mem s) Handler (Clk Dispatcher)) i"
    by (auto simp: reads_known_def flag_tells_def slot_known_def)
qed

text \<open>The loads of the flag.\<close>

lemma handler_loads:
  assumes "handshake_inv s" "\<not> in_step (hk_handler s)" "seen (hk_mem s) Handler \<le> j" "j < length (mm_hist (hk_mem s) ())"
  shows "handshake_inv (s\<lparr>hk_mem := after_load Handler j (hk_mem s)\<rparr>)"
    "even j \<Longrightarrow> even (newest (hk_mem s)) \<and> seen (after_load Handler j (hk_mem s)) Handler = newest (hk_mem s)"
proof -
  note inv = handshake_invD [OF assms(1)]
  note seen = after_load_seen [OF inv(2) assms(4), of Handler] and j = flag_value(2) [OF inv(2) assms(4)]
  have sees: "seen (hk_mem s) Handler \<le> newest (hk_mem s)" "newest (hk_mem s) \<le> seen (hk_mem s) Handler + of_bool (even (newest (hk_mem s)))"
    using inv(3) by (simp_all add: handler_sees_def)
  have last: "even (newest (hk_mem s)) \<and> j = newest (hk_mem s)" if "even j"
    using sees assms(3) j that by (cases "even (newest (hk_mem s))"; cases "j = newest (hk_mem s)") (auto simp: le_Suc_eq)
  then show "even j \<Longrightarrow> even (newest (hk_mem s)) \<and> seen (after_load Handler j (hk_mem s)) Handler = newest (hk_mem s)"
    using seen by simp
  have mem: "memory_ok (after_load Handler j (hk_mem s))" by (rule after_memory_ok(3) [OF inv(2)])
  have "handler_sees (after_load Handler j (hk_mem s)) (hk_handler s)"
    using sees assms(2,3) j seen by (auto simp: handler_sees_def told_def split: if_splits)
  moreover have "dispatcher_sees (after_load Handler j (hk_mem s)) (hk_dispatcher s)"
    using inv(4) seen by (simp add: dispatcher_sees_def)
  moreover have "slot_known (after_load Handler j (hk_mem s)) (mm_view (after_load Handler j (hk_mem s)) Handler (Clk Dispatcher)) i"
    if "i \<notin> valid s" "i \<notin> freeing (hk_handler s)" for i
    using slot_mono(1) [OF inv(7) [OF that]] by simp
  ultimately show "handshake_inv (s\<lparr>hk_mem := after_load Handler j (hk_mem s)\<rparr>)"
    using assms(1) mem by (simp add: handshake_inv_def)
qed

lemma dispatcher_loads:
  assumes "handshake_inv s" "hk_dispatcher s = D_Top" "seen (hk_mem s) Dispatcher \<le> j" "j < length (mm_hist (hk_mem s) ())"
  shows "handshake_inv (s\<lparr>hk_mem := after_load Dispatcher j (hk_mem s), hk_dispatcher := if odd j then D_Load else D_Scan 0\<rparr>)"
proof -
  note inv = handshake_invD [OF assms(1)]
  note seen = after_load_seen [OF inv(2) assms(4), of Dispatcher] and j = flag_value(2) [OF inv(2) assms(4)]
  have sees: "seen (hk_mem s) Dispatcher \<le> newest (hk_mem s)" "newest (hk_mem s) \<le> seen (hk_mem s) Dispatcher + of_bool (odd (newest (hk_mem s)))"
    using inv(4) by (simp_all add: dispatcher_sees_def)
  have last: "odd (newest (hk_mem s)) \<and> j = newest (hk_mem s)" if "odd j"
    using sees assms(3) j that by (cases "odd (newest (hk_mem s))"; cases "j = newest (hk_mem s)") (auto simp: le_Suc_eq)
  have mem: "memory_ok (after_load Dispatcher j (hk_mem s))" by (rule after_memory_ok(3) [OF inv(2)])
  have "handler_sees (after_load Dispatcher j (hk_mem s)) (hk_handler s)"
    using inv(3) seen by (simp add: handler_sees_def)
  moreover have "dispatcher_sees (after_load Dispatcher j (hk_mem s)) (if odd j then D_Load else D_Scan 0)"
  proof (cases "odd j")
    case True
    then have "told (hk_mem s) Handler = snd (mm_hist (hk_mem s) () ! j) (Clk Handler)" using last by (simp add: told_def)
    with True last seen show ?thesis by (simp add: dispatcher_sees_def)
  next
    case False
    then have "\<not> (odd (newest (hk_mem s)) \<and> j = newest (hk_mem s))" by auto
    with False sees assms(3) j seen show ?thesis by (cases "j = newest (hk_mem s)") (simp_all add: dispatcher_sees_def)
  qed
  moreover have "slot_written (after_load Dispatcher j (hk_mem s)) (mm_view (after_load Dispatcher j (hk_mem s)) Dispatcher (Clk Handler)) i"
    if "i \<in> known s" for i
    using slot_mono(2) [OF inv(8) [OF that]] by simp
  ultimately show ?thesis
    using assms(1) mem by (simp add: handshake_inv_def)
qed

text \<open>The stores to the flag, and the load of the bit set between.\<close>

lemma handler_announces:
  assumes "handshake_inv s" "hk_handler s = B_Add_Publish \<and> h = B_Idle \<or> hk_handler s = B_Rem_Publish i \<and> h = B_Rem_Ack i"
  shows "handshake_inv (s\<lparr>hk_mem := after_store Handler True (hk_mem s), hk_handler := h\<rparr>)"
proof -
  note inv = handshake_invD [OF assms(1)]
  have "in_step (hk_handler s)" using assms(2) by auto
  note at = bits_readable(2,3) [OF assms(1) this]
  have "odd (length (mm_hist (hk_mem s) ()))" using at(1) inv(2) by (cases "mm_hist (hk_mem s) ()") (auto simp: newest_def memory_ok_def)
  then have mem: "memory_ok (after_store Handler True (hk_mem s))" using after_memory_ok(4) [OF inv(2)] by simp
  note st = after_store_simps [OF inv(2), of Handler True]
  have "handler_sees (after_store Handler True (hk_mem s)) h" using at st assms(2) by (auto simp: handler_sees_def)
  moreover have "dispatcher_sees (after_store Handler True (hk_mem s)) (hk_dispatcher s)"
    using inv(4) at(1) st by (auto simp: dispatcher_sees_def)
  moreover have "flag_tells (after_store Handler True (hk_mem s)) (valid s) (known s)"
    using at(1) st own_clock [OF inv(2)] by (simp add: flag_tells_def slot_written_def)
  moreover have "slots_ok h (valid s) (known s) True" "freeing h = freeing (hk_handler s)" using inv(6) assms(2) by auto
  moreover have "hk_dispatcher s \<noteq> D_Clear" using inv(4) at(1) by (auto simp: dispatcher_sees_def)
  ultimately show ?thesis
    using assms(1) mem at(1) st by (simp add: handshake_inv_def)
qed

lemma dispatcher_resets:
  assumes "handshake_inv s" "hk_dispatcher s = D_Clear"
  shows "handshake_inv (s\<lparr>hk_mem := after_store Dispatcher False (hk_mem s), hk_dispatcher := D_Scan i\<rparr>)"
proof -
  note inv = handshake_invD [OF assms(1)]
  have at: "odd (newest (hk_mem s))" "seen (hk_mem s) Dispatcher = newest (hk_mem s)" using inv(4) assms(2) by (simp_all add: dispatcher_sees_def)
  have "even (length (mm_hist (hk_mem s) ()))" using at(1) by (cases "mm_hist (hk_mem s) ()") (auto simp: newest_def)
  then have mem: "memory_ok (after_store Dispatcher False (hk_mem s))" using after_memory_ok(4) [OF inv(2), of False] by simp
  note st = after_store_simps [OF inv(2), of Dispatcher False]
  have "\<not> in_step (hk_handler s)" using inv(3) at(1) by (auto simp: handler_sees_def)
  moreover have "handler_sees (after_store Dispatcher False (hk_mem s)) (hk_handler s)"
    using inv(3) at(1) st by (auto simp: handler_sees_def)
  moreover have "dispatcher_sees (after_store Dispatcher False (hk_mem s)) (D_Scan i)"
    using at st by (simp add: dispatcher_sees_def)
  moreover have "flag_tells (after_store Dispatcher False (hk_mem s)) (valid s) (known s)"
    using at(1) st own_clock [OF inv(2)] by (simp add: flag_tells_def slot_known_def)
  moreover have "slots_ok (hk_handler s) (valid s) (known s) False"
    using inv(6,9) assms(2) \<open>\<not> in_step _\<close> by (cases "hk_handler s") auto
  ultimately show ?thesis
    using assms(1) mem at(1) st by (simp add: handshake_inv_def)
qed

lemma dispatcher_takes:
  assumes "handshake_inv s" "hk_dispatcher s = D_Load"
  shows "writes_known Dispatcher Valid_Bits (hk_mem s)"
    "handshake_inv (s\<lparr>hk_mem := after_read Dispatcher Valid_Bits (hk_mem s), hk_local := mm_plain (hk_mem s) Valid_Bits, hk_dispatcher := D_Clear\<rparr>)"
proof -
  note inv = handshake_invD [OF assms(1)]
  have at: "odd (newest (hk_mem s))" "told (hk_mem s) Handler \<le> mm_view (hk_mem s) Dispatcher (Clk Handler)"
    "dispatcher_sees (hk_mem s) D_Clear"
    using inv(4) assms(2) by (simp_all add: dispatcher_sees_def)
  then have tells: "mm_writes (hk_mem s) Valid_Bits Handler \<le> told (hk_mem s) Handler" "\<forall>i \<in> valid s. slot_written (hk_mem s) (told (hk_mem s) Handler) i"
    using inv(5) by (simp_all add: flag_tells_def)
  then show "writes_known Dispatcher Valid_Bits (hk_mem s)" using at(2) by (simp add: writes_known_def)
  have "\<not> in_step (hk_handler s)" using inv(3) at(1) by (auto simp: handler_sees_def)
  then have "slots_ok (hk_handler s) (valid s) (valid s) True" using inv(6) at(1) by (cases "hk_handler s") auto
  moreover have "memory_ok (after_read Dispatcher Valid_Bits (hk_mem s))" using after_memory_ok(1) [OF inv(2)] by simp
  moreover have "\<forall>i \<in> valid s. slot_written (hk_mem s) (mm_view (hk_mem s) Dispatcher (Clk Handler)) i"
    using tells(2) slot_mono(2) at(2) by blast
  moreover have "flag_tells (after_read Dispatcher Valid_Bits (hk_mem s)) (valid s) (valid s)"
    using at(1) tells by (simp add: flag_tells_def)
  ultimately show "handshake_inv (s\<lparr>hk_mem := after_read Dispatcher Valid_Bits (hk_mem s), hk_local := mm_plain (hk_mem s) Valid_Bits, hk_dispatcher := D_Clear\<rparr>)"
    using assms(1) at(1,3) by (simp add: handshake_inv_def slot_access(1))
qed

text \<open>A change of the handler's point alone.\<close>

lemma handler_moves_on:
  assumes "handshake_inv s" "in_step h \<Longrightarrow> even (newest (hk_mem s)) \<and> seen (hk_mem s) Handler = newest (hk_mem s)"
    "slots_ok h (valid s) (known s) (odd (newest (hk_mem s)))"
    "\<And>i. i \<notin> valid s \<Longrightarrow> i \<notin> freeing h \<Longrightarrow> slot_known (hk_mem s) (mm_view (hk_mem s) Handler (Clk Dispatcher)) i"
  shows "handshake_inv (s\<lparr>hk_handler := h\<rparr>)"
proof -
  have "handler_sees (hk_mem s) h" using handshake_invD(3) [OF assms(1)] assms(2) by (simp add: handler_sees_def)
  then show ?thesis using assms(1,3,4) by (simp add: handshake_inv_def)
qed

text \<open>What the handler does between its messages: it takes one, sets up a slot, waits, and announces.\<close>

lemma bank_takes:
  assumes "handshake_inv s" "bank_next fo False act j (hk_handler s) s = Some t" "hk_handler s = B_Idle"
  shows "handshake_inv t"
proof -
  note inv = handshake_invD [OF assms(1)]
  note reads = hk_read_known [OF inv(2) known_accesses(1) [OF inv(2)]] hk_read_known [OF inv(2) known_accesses(2) [OF inv(2)]]
  have read: "handshake_inv (s\<lparr>hk_mem := after_read Handler obj (hk_mem s)\<rparr>)" if "\<forall>i. obj \<noteq> Slot_Stats i" for obj
    by (rule handler_reads [OF assms(1) that])
  note slots = inv(6) [unfolded assms(3)]
  show ?thesis
  proof (cases act)
    case Subscribe
    let ?s = "s\<lparr>hk_mem := after_read Handler Valid_Bits (hk_mem s)\<rparr>"
    let ?i = "find (\<lambda>i. \<not> getBit (mm_plain (hk_mem s) Valid_Bits) i) [0..<MAX_CLIENTS]"
    have t: "t = (case ?i of None \<Rightarrow> ?s | Some i \<Rightarrow> ?s\<lparr>hk_handler := B_Add i\<rparr>)" using assms(2,3) Subscribe reads(1) by simp
    show ?thesis
    proof (cases ?i)
      case (Some i)
      then have "i < MAX_CLIENTS" "i \<notin> valid s" by (auto simp: find_Some_iff bits_def)
      then have "handshake_inv (?s\<lparr>hk_handler := B_Add i\<rparr>)"
        using slots inv(7) assms(3) by (intro handler_moves_on [OF read]) simp_all
      with t Some show ?thesis by simp
    qed (use t read in simp)
  next
    case (Unsubscribe i)
    let ?s = "s\<lparr>hk_mem := after_read Handler (Bank_Slot i) (hk_mem s)\<rparr>"
    have i: "i < MAX_CLIENTS" using assms(2,3) Unsubscribe by (simp split: if_splits)
    have t: "t = (if mm_plain (hk_mem s) (Bank_Slot i) = 0 then ?s else ?s\<lparr>hk_handler := B_Rem_Wait i\<rparr>)"
      using assms(2,3) Unsubscribe reads(2) i by (simp split: if_splits)
    have "handshake_inv (?s\<lparr>hk_handler := B_Rem_Wait i\<rparr>)"
      using slots inv(7) assms(3) i by (intro handler_moves_on [OF read]) simp_all
    with t read show ?thesis by simp
  qed (use assms(2,3) in simp_all)
qed

lemma bank_fills:
  assumes "handshake_inv s" "bank_next fo logs act j (hk_handler s) s = Some t" "hk_handler s = B_Add i"
  shows "handshake_inv t"
proof -
  note inv = handshake_invD [OF assms(1)]
  have i: "i \<notin> valid s" "i \<notin> known s" using inv(6) assms(3) by auto
  have "slot_known (hk_mem s) (mm_view (hk_mem s) Handler (Clk Dispatcher)) i" using inv(7) i(1) assms(3) by simp
  then have may: "reads_known Handler (Bank_Slot i) (hk_mem s)" "reads_known Handler (Slot_Stats i) (hk_mem s)"
    "writes_known Handler (Slot_Stats i) (hk_mem s)"
    by (simp_all add: slot_known_def reads_known_def writes_known_def)
  note wr = hk_write_known [OF inv(2) known_accesses(2) [OF inv(2)] may(1)]
  let ?s = "\<lambda>v. s\<lparr>hk_mem := after_write Handler (Bank_Slot i) v (hk_mem s)\<rparr>"
  have wrote: "handshake_inv (?s v)" for v by (rule handler_writes_slot [OF assms(1) i]) simp
  have moved: "handshake_inv (?s v\<lparr>hk_handler := h\<rparr>)" if "h = B_Idle \<or> h = B_Add_Wait i" for v h
    using that inv(6,7) assms(3) by (intro handler_moves_on [OF wrote]) auto
  show ?thesis
  proof (cases act)
    case (Set_Up v)
    have "reads_known Handler (Slot_Stats i) (hk_mem (?s 0))" "writes_known Handler (Slot_Stats i) (hk_mem (?s 0))"
      using may by (simp_all add: reads_known_def writes_known_def)
    from hk_write_known [OF handshake_invD(2) [OF wrote] this(2,1)]
    have "t = (?s 0)\<lparr>hk_mem := after_write Handler (Slot_Stats i) v (hk_mem (?s 0))\<rparr>"
      using assms(2,3) Set_Up wr by simp
    then show ?thesis using handler_writes_slot [OF wrote, where i = i and obj = "Slot_Stats i"] i by simp
  next
    case Fail
    then show ?thesis using moved [of B_Idle 0] assms(2,3) wr by simp
  next
    case Finish
    then show ?thesis using moved [of "B_Add_Wait i" 1] assms(2,3) wr by simp
  qed (use assms(2,3) in simp_all)
qed

text \<open>The end of a waiting loop: the newest value is the dispatcher's, and the threads agree on the slots.\<close>

lemma bank_waits:
  assumes "handshake_inv s" "acquires ord" "hk_load ord Handler j s (\<lambda>flag t. if flag then t else t\<lparr>hk_handler := h\<rparr>) = Some t"
    "\<not> in_step (hk_handler s)" "\<And>V L. slots_ok (hk_handler s) V L False \<Longrightarrow> L = V \<and> slots_ok h V L False"
  shows "handshake_inv t"
proof -
  let ?u = "s\<lparr>hk_mem := after_load Handler j (hk_mem s)\<rparr>"
  note inv = handshake_invD [OF assms(1)]
  note load = hk_load_acquires [OF assms(3,2)]
  note loads = handler_loads [OF assms(1,4) load(1,2)]
  have t: "t = (if odd j then ?u else ?u\<lparr>hk_handler := h\<rparr>)" using load(3) flag_value(1) [OF inv(2) load(2)] by simp
  show ?thesis
  proof (cases "odd j")
    case False
    then have at: "even (newest (hk_mem ?u))" "seen (hk_mem ?u) Handler = newest (hk_mem ?u)" using loads(2) by simp_all
    then have told: "told (hk_mem ?u) Dispatcher \<le> mm_view (hk_mem ?u) Handler (Clk Dispatcher)"
      using handshake_invD(3) [OF loads(1)] by (simp add: handler_sees_def)
    have "slots_ok (hk_handler s) (valid ?u) (known ?u) False" using handshake_invD(6) [OF loads(1)] at(1) by simp
    from assms(5) [OF this] have slots: "known ?u = valid ?u" "slots_ok h (valid ?u) (known ?u) False" by blast+
    have "slot_known (hk_mem ?u) (told (hk_mem ?u) Dispatcher) l" if "l \<notin> valid ?u" for l
      using handshake_invD(5) [OF loads(1)] at(1) slots(1) that unfolding flag_tells_def by presburger
    from slot_mono(1) [OF this told]
    have "handshake_inv (?u\<lparr>hk_handler := h\<rparr>)" using at slots(2) by (intro handler_moves_on [OF loads(1)]) simp_all
    with False t show ?thesis by simp
  qed (use t loads(1) in simp)
qed

lemma bank_sets_bit:
  assumes "handshake_inv s" "in_step (hk_handler s)" "known s = valid s" "i < MAX_CLIENTS" "freeing (hk_handler s) = {}"
    "v \<and> h = B_Add_Publish \<or> \<not> v \<and> h = B_Rem_Publish i"
  shows "handshake_inv (hk_read Handler Valid_Bits s (\<lambda>bits t. hk_write Handler Valid_Bits (setBit bits i v) t (\<lambda>u. u\<lparr>hk_handler := h\<rparr>)))"
proof -
  note inv = handshake_invD(2) [OF assms(1)] and at = bits_readable [OF assms(1,2)]
  let ?b = "setBit (mm_plain (hk_mem s) Valid_Bits) i v"
  let ?s = "s\<lparr>hk_mem := after_read Handler Valid_Bits (hk_mem s)\<rparr>"
  have read: "handshake_inv ?s" by (rule handler_reads [OF assms(1)]) simp
  have "reads_known Handler Valid_Bits (hk_mem ?s)" using at(1) by (simp add: reads_known_def)
  note wr = hk_write_known [OF handshake_invD(2) [OF read] known_accesses(1) [OF handshake_invD(2) [OF read]] this]
  have "handshake_inv (?s\<lparr>hk_mem := after_write Handler Valid_Bits ?b (hk_mem ?s), hk_handler := h\<rparr>)"
  proof (rule handler_writes_bits [OF read])
    show "in_step h" "slots_ok h (bits ?b) (known ?s) False" using assms(3,4,6) by (auto simp: bits_setBit)
    show "l \<notin> bits ?b \<Longrightarrow> l \<notin> freeing h \<Longrightarrow> l \<notin> valid ?s \<and> l \<notin> freeing (hk_handler ?s)" for l
      using assms(4-6) by (auto simp: bits_setBit)
  qed (use at in simp_all)
  then show ?thesis using hk_read_known [OF inv known_accesses(1) [OF inv]] wr by simp
qed

lemma bank_announces:
  assumes "handshake_inv s" "releases ord" "hk_handler s = B_Add_Publish \<and> h = B_Idle \<or> hk_handler s = B_Rem_Publish i \<and> h = B_Rem_Ack i"
  shows "handshake_inv (hk_store ord Handler True s (\<lambda>t. t\<lparr>hk_handler := h\<rparr>))"
proof -
  have "in_step (hk_handler s)" using assms(3) by auto
  from bits_readable(3) [OF assms(1) this] have "Suc (seen (hk_mem s) Handler) = length (mm_hist (hk_mem s) ())"
    using handshake_invD(2) [OF assms(1)] by (simp add: newest_def memory_ok_def)
  from hk_store_releases [OF assms(2) this] handler_announces [OF assms(1,3)] show ?thesis by simp
qed

lemma bank_gives_up:
  assumes "handshake_inv s" "hk_handler s = B_Rem_Done i"
  shows "handshake_inv (hk_write Handler (Bank_Slot i) 0 s (\<lambda>t. t\<lparr>hk_handler := B_Idle\<rparr>))"
proof -
  note inv = handshake_invD [OF assms(1)]
  have st: "in_step (hk_handler s)" using assms(2) by simp
  have i: "i \<notin> valid s" "i \<notin> known s" "known s = valid s" using inv(6) assms(2) by auto
  then have "reads_known Handler (Bank_Slot i) (hk_mem s)"
    using bits_readable(4) [OF assms(1) st, of i] by (simp add: slot_known_def reads_known_def)
  note wr = hk_write_known [OF inv(2) known_accesses(2) [OF inv(2)] this]
  have "handshake_inv (s\<lparr>hk_mem := after_write Handler (Bank_Slot i) 0 (hk_mem s)\<rparr>)"
    by (rule handler_writes_slot [OF assms(1) i(1,2)]) simp
  then have "handshake_inv (s\<lparr>hk_mem := after_write Handler (Bank_Slot i) 0 (hk_mem s)\<rparr>\<lparr>hk_handler := B_Idle\<rparr>)"
    using i(3) inv(7) assms(2) by (intro handler_moves_on) simp_all
  with wr show ?thesis by simp
qed

lemma bank_step_inv:
  assumes "handshake_inv s" "bank_next server_orders False act j (hk_handler s) s = Some t"
  shows "handshake_inv t"
proof -
  have orders: "acquires (fo_wait server_orders)" "releases (fo_announce server_orders)" by (simp_all add: server_orders_def)
  note slots = handshake_invD(6) [OF assms(1)] and waits = bank_waits [OF assms(1) orders(1)]
  show ?thesis
  proof (cases "hk_handler s")
    case B_Idle
    with bank_takes [OF assms] show ?thesis .
  next
    case (B_Add i)
    with bank_fills [OF assms] show ?thesis .
  next
    case (B_Add_Wait i)
    then show ?thesis using assms(2) by (intro waits [of j "B_Add_Set i" t]) simp_all
  next
    case (B_Add_Set i)
    then show ?thesis using bank_sets_bit [OF assms(1), where i = i and v = True] slots assms(2) by simp
  next
    case B_Add_Publish
    then show ?thesis using bank_announces [OF assms(1) orders(2)] assms(2) by simp
  next
    case (B_Rem_Wait i)
    then show ?thesis using assms(2) by (intro waits [of j "B_Rem_Clear i" t]) simp_all
  next
    case (B_Rem_Clear i)
    then show ?thesis using bank_sets_bit [OF assms(1), where i = i and v = False] slots assms(2) by simp
  next
    case (B_Rem_Publish i)
    then show ?thesis using bank_announces [OF assms(1) orders(2)] assms(2) by simp
  next
    case (B_Rem_Ack i)
    then show ?thesis using assms(2) by (intro waits [of j "B_Rem_Done i" t]) simp_all
  next
    case (B_Rem_Done i)
    then show ?thesis using bank_gives_up [OF assms(1)] assms(2) by simp
  qed
qed

lemma dispatcher_step_inv_ra:
  assumes "handshake_inv s" "dispatcher_next server_orders act j (hk_dispatcher s) s = Some t"
  shows "handshake_inv t"
proof -
  have orders: "acquires (fo_test server_orders)" "releases (fo_reset server_orders)" by (simp_all add: server_orders_def)
  note inv = handshake_invD [OF assms(1)]
  show ?thesis
  proof (cases "hk_dispatcher s")
    case D_Top
    note load = hk_load_acquires [OF assms(2) [unfolded D_Top dispatcher_next.simps] orders(1)]
    then show ?thesis using dispatcher_loads [OF assms(1) D_Top load(1,2)] flag_value(1) [OF inv(2) load(2)] by simp
  next
    case D_Load
    then show ?thesis using dispatcher_takes [OF assms(1)] hk_read_known [OF inv(2)] assms(2) by simp
  next
    case D_Clear
    then have "Suc (seen (hk_mem s) Dispatcher) = length (mm_hist (hk_mem s) ())"
      using inv(2,4) by (simp add: dispatcher_sees_def newest_def memory_ok_def)
    from hk_store_releases [OF orders(2) this] show ?thesis using dispatcher_resets [OF assms(1) D_Clear, of 0] assms(2) D_Clear by simp
  next
    case (D_Scan i)
    have "handshake_inv (s\<lparr>hk_dispatcher := d\<rparr>)" if "d = D_Top \<or> d = D_Scan (i + 1) \<or> d = D_Serve i \<and> i \<in> known s" for d
      using that assms(1) by (auto simp: handshake_inv_def dispatcher_sees_def D_Scan)
    then show ?thesis using assms(2) D_Scan by (auto simp: bits_def split: if_splits)
  next
    case (D_Serve i)
    have "slot_written (hk_mem s) (mm_view (hk_mem s) Dispatcher (Clk Handler)) i" using inv(8) inv(10) [OF D_Serve] by blast
    then have may: "writes_known Dispatcher (Bank_Slot i) (hk_mem s)" "writes_known Dispatcher (Slot_Stats i) (hk_mem s)"
      by (simp_all add: slot_written_def writes_known_def)
    note acc = dispatcher_accesses [OF assms(1) D_Serve]
    show ?thesis
    proof (cases act)
      case Use_Slot
      then show ?thesis using hk_read_known [OF inv(2) may(1)] acc(1) [of "Bank_Slot i"] assms(2) D_Serve by simp
    next
      case (Use_Stats v)
      let ?s = "s\<lparr>hk_mem := after_read Dispatcher (Slot_Stats i) (hk_mem s)\<rparr>"
      have read: "handshake_inv ?s" using acc(1) by simp
      have "writes_known Dispatcher (Slot_Stats i) (hk_mem ?s)" using may(2) by (simp add: writes_known_def)
      from hk_write_known [OF handshake_invD(2) [OF read] this known_accesses(3) [OF handshake_invD(2) [OF read]]]
      show ?thesis
        using hk_read_known [OF inv(2) may(2)] dispatcher_accesses(2) [OF read, of i v] assms(2) D_Serve Use_Stats by simp
    next
      case Leave_Slot
      then show ?thesis
        using assms D_Serve by (auto simp: handshake_inv_def dispatcher_sees_def)
    qed
  qed (use assms(2) in simp)
qed

lemma handshake_run_inv: "(handshake_step server_orders False)\<^sup>*\<^sup>* handshake_start t \<Longrightarrow> handshake_inv t"
  by (induction rule: rtranclp_induct)
    (auto intro: handshake_start_inv bank_step_inv dispatcher_step_inv_ra elim!: handshake_step.cases)

section \<open>Runs under a schedule\<close>

datatype server_turn = Bank_Turn bank_act nat | Dispatcher_Turn serve_act nat

fun handshake_turn :: "flag_orders \<Rightarrow> bool \<Rightarrow> server_turn \<Rightarrow> handshake \<Rightarrow> handshake option" where
  "handshake_turn fo logs (Bank_Turn act j) s = bank_next fo logs act j (hk_handler s) s"
| "handshake_turn fo logs (Dispatcher_Turn act j) s = dispatcher_next fo act j (hk_dispatcher s) s"

fun handshake_run :: "flag_orders \<Rightarrow> bool \<Rightarrow> server_turn list \<Rightarrow> handshake \<Rightarrow> handshake option" where
  "handshake_run fo logs [] s = Some s"
| "handshake_run fo logs (c # cs) s =
     (case handshake_turn fo logs c s of None \<Rightarrow> None | Some t \<Rightarrow> handshake_run fo logs cs t)"

lemma handshake_run_steps: "handshake_run fo logs cs s = Some t \<Longrightarrow> (handshake_step fo logs)\<^sup>*\<^sup>* s t"
proof (induction cs arbitrary: s)
  case (Cons c cs)
  then obtain u where u: "handshake_turn fo logs c s = Some u" "handshake_run fo logs cs u = Some t"
    by (auto split: option.splits)
  then have "handshake_step fo logs s u" by (cases c) (auto intro: hk_bank hk_dispatch)
  from converse_rtranclp_into_rtranclp [of "handshake_step fo logs", OF this Cons.IH [OF u(2)]] show ?case .
qed simp

text \<open>A client gets the slot 0, and the dispatcher takes the update and serves it once.\<close>

definition first_client :: "server_turn list" where
  "first_client = [Bank_Turn Subscribe 0, Bank_Turn (Set_Up 0) 0, Bank_Turn Finish 0, Bank_Turn Subscribe 0,
     Bank_Turn Subscribe 0, Bank_Turn Subscribe 0, Dispatcher_Turn Leave_Slot 1, Dispatcher_Turn Leave_Slot 0,
     Dispatcher_Turn Leave_Slot 0, Dispatcher_Turn Leave_Slot 0, Dispatcher_Turn Use_Slot 0, Dispatcher_Turn (Use_Stats 1) 0]"

text \<open>Its removal, up to the update of the bit set.\<close>

definition removal :: "server_turn list" where
  "removal = [Bank_Turn (Unsubscribe 0) 0, Bank_Turn Subscribe 2, Bank_Turn Subscribe 0]"

lemma getBit_low [simp]: "getBit (setBit 0 0 True) 0"
  by (simp add: getBit_setBit)

lemma first_slot: "[0..<MAX_CLIENTS] = 0 # [1..<MAX_CLIENTS]" "0 < MAX_CLIENTS"
  by (simp_all add: MAX_CLIENTS_def upt_conv_Cons)

lemmas handshake_eval = hk_read_def hk_write_def hk_load_def hk_store_def memory_defs all_sides Let_def join_def fun_upd_def
  handshake_start_def new_memory_def server_orders_def first_client_def removal_def first_slot

section \<open>Properties\<close>

text \<open>Property C15: the flag hands the bank over between the threads of the server. Under the C++ memory
  model, with the memory orders of the code, in every execution of the message handler and the dispatcher
  no two accesses to the bit set, to a slot or to its statistics race, as long as the handler does not log
  the statistics; and while the dispatcher serves a slot the handler neither sets it up nor gives it up.\<close>

theorem handshake_race_free:
  assumes "(handshake_step server_orders False)\<^sup>*\<^sup>* handshake_start t"
  shows "\<not> hk_undefined t \<and> (\<forall>i. hk_dispatcher t = D_Serve i \<longrightarrow> hk_handler t \<noteq> B_Add i \<and> hk_handler t \<noteq> B_Rem_Done i)"
proof -
  note inv = handshake_invD(1,6,10) [OF handshake_run_inv [OF assms]]
  have "hk_handler t \<noteq> B_Add i \<and> hk_handler t \<noteq> B_Rem_Done i" if "hk_dispatcher t = D_Serve i" for i
    using inv(2) inv(3) [OF that] by auto
  with inv(1) show ?thesis by blast
qed

theorem handshake_race_free_witness:
  "\<exists>t. (handshake_step server_orders False)\<^sup>*\<^sup>* handshake_start t \<and> hk_dispatcher t = D_Serve 0 \<and> \<not> hk_undefined t"
proof -
  have "map_option hk_dispatcher (handshake_run server_orders False first_client handshake_start) = Some (D_Serve 0)"
    by (simp add: handshake_eval)
  then obtain t where t: "handshake_run server_orders False first_client handshake_start = Some t" "hk_dispatcher t = D_Serve 0"
    by auto
  note run = handshake_run_steps [OF t(1)]
  from handshake_race_free [OF run] run t(2) show ?thesis by blast
qed

text \<open>Property C18: nothing of that can be spared. When any one of the four memory orders is weakened to
  relaxed there is an execution with a data race on the bit set; and the line that the handler logs for an
  unsubscription, with the orders as they are, reads the statistics while the dispatcher may write them.\<close>

theorem handshake_needs_orders:
  "list_all (\<lambda>(fo, logs). \<exists>t. (handshake_step fo logs)\<^sup>*\<^sup>* handshake_start t \<and> hk_undefined t)
     [(server_orders\<lparr>fo_announce := MO_Relaxed\<rparr>, False), (server_orders\<lparr>fo_test := MO_Relaxed\<rparr>, False),
      (server_orders\<lparr>fo_reset := MO_Relaxed\<rparr>, False), (server_orders\<lparr>fo_wait := MO_Relaxed\<rparr>, False),
      (server_orders, True)]"
proof -
  have races: "\<exists>t. (handshake_step fo logs)\<^sup>*\<^sup>* handshake_start t \<and> hk_undefined t"
    if "map_option hk_undefined (handshake_run fo logs turns handshake_start) = Some True" for fo logs turns
    using that by (auto intro: handshake_run_steps)
  have "map_option hk_undefined (handshake_run (server_orders\<lparr>fo_announce := MO_Relaxed\<rparr>) False (take 8 first_client) handshake_start) = Some True"
    by (simp add: handshake_eval)
  moreover have "map_option hk_undefined (handshake_run (server_orders\<lparr>fo_test := MO_Relaxed\<rparr>) False (take 8 first_client) handshake_start) = Some True"
    by (simp add: handshake_eval)
  moreover have "map_option hk_undefined (handshake_run (server_orders\<lparr>fo_reset := MO_Relaxed\<rparr>) False (first_client @ removal) handshake_start) = Some True"
    by (simp add: handshake_eval)
  moreover have "map_option hk_undefined (handshake_run (server_orders\<lparr>fo_wait := MO_Relaxed\<rparr>) False (first_client @ removal) handshake_start) = Some True"
    by (simp add: handshake_eval)
  moreover have "map_option hk_undefined (handshake_run server_orders True (first_client @ take 1 removal) handshake_start) = Some True"
    by (simp add: handshake_eval)
  ultimately show ?thesis by (simp add: races)
qed

end
