(* ===== verification/Transpose_Sockets.thy ===== *)
theory Transpose_Sockets
  imports Transpose_Crash
begin

text \<open>
  The sessions with the communicators event by event: connections that wait to be accepted, what
  \<open>epoll_wait\<close> reports, and the bytes of the messages, which \<open>recv\<close> hands out in any pieces. The preceding
  theories take a message in one step; here that is shown to be what the communicators of the server and of
  the clients do, for the sessions and for processes that are gone. A \<open>send\<close> puts all the bytes of its
  message on the connection, and \<open>recv\<close> does not fail; what the code does when it fails is in \<open>Unix_Sock_Ipc\<close>.
\<close>

section \<open>The state\<close>

text \<open>
  What \<open>epoll_wait\<close> reports: a connection to accept, or for the connection of a client whether its other end is
  gone and whether there is something to read.
\<close>

datatype sock_event = SE_Accept | SE_Client u32 bool bool

fun source :: "sock_event \<Rightarrow> u32 option" where
  "source SE_Accept = None"
| "source (SE_Client c hup readable) = Some c"

text \<open>
  The communicator is about to call \<open>epoll_wait\<close>, in the loop over its events, or in the loop that receives
  the message of a client, with the bytes it has got and the events that are left.
\<close>

datatype communicator = CO_Wait | CO_Events "sock_event list" | CO_Receive u32 "u8 list" "sock_event list"

text \<open>The client's communicator, which handles one event at a time; it stops when the server is gone.\<close>

datatype reader = RD_Wait | RD_Receive "u8 list" | RD_Stopped

text \<open>
  \<open>wi_backlog\<close> are the clients that have connected and not been accepted, \<open>wi_epoll\<close> those whose connection is
  registered with epoll, \<open>wi_stream\<close> the bytes that have arrived from a client and not been received, and
  \<open>wi_down\<close> those from the server to a client. Of the state of the sessions \<open>ss_wire\<close> and \<open>ss_read\<close> are no
  part of the program any more: they say what the bytes stand for.
\<close>

record 'k wired =
  wi_crash :: "'k crash"
  wi_backlog :: "u32 set"
  wi_epoll :: "u32 set"
  wi_stream :: "u32 \<Rightarrow> u8 list"
  wi_comm :: communicator
  wi_down :: "u32 \<Rightarrow> u8 list"
  wi_reader :: "u32 \<Rightarrow> reader"

abbreviation wi_session :: "'k wired \<Rightarrow> 'k session" where
  "wi_session w \<equiv> cr_session (wi_crash w)"

abbreviation wi_wire :: "'k wired \<Rightarrow> u32 \<Rightarrow> ClientServerMessage list" where
  "wi_wire w \<equiv> ss_wire (wi_session w)"

abbreviation responses :: "(u32 \<Rightarrow> int) \<Rightarrow> 'k session \<Rightarrow> u32 \<Rightarrow> ClientServerMessage list" where
  "responses socket s c \<equiv> sent_to (socket c) (ss_srv s)"

abbreviation bytes_of :: "ClientServerMessage list \<Rightarrow> u8 list" where
  "bytes_of msgs \<equiv> concat (map encode_message msgs)"

definition MAX_EVENTS :: nat where
  "MAX_EVENTS = 4"

section \<open>The steps\<close>

text \<open>
  What epoll(7) reports of a socket: the listening one when a connection waits, that of a client when there is
  something to read, and a connection whose other end is gone as hung up and as readable.
\<close>

fun ready :: "'k wired \<Rightarrow> sock_event \<Rightarrow> bool" where
  "ready w SE_Accept \<longleftrightarrow> wi_backlog w \<noteq> {}"
| "ready w (SE_Client c hup readable) \<longleftrightarrow> c \<in> wi_epoll w \<and> hup = (c \<in> cr_dead (wi_crash w)) \<and>
     readable = (hup \<or> wi_stream w c \<noteq> []) \<and> readable"

text \<open>The communicator's thread runs as long as the server does, and is not in a call of the message handler.\<close>

definition in_loop :: "'k wired \<Rightarrow> bool" where
  "in_loop w \<longleftrightarrow> cr_server (wi_crash w) \<and> sr_handler (ss_srv (wi_session w)) = H_Idle"

text \<open>The call of the handler on what is in the buffer, at the server and at a client.\<close>

definition delivered :: "(u32 \<Rightarrow> int) \<Rightarrow> u32 \<Rightarrow> ClientServerMessage \<Rightarrow> 'k session \<Rightarrow> 'k session" where
  "delivered socket c msg s =
     (let ws = sr_ws (ss_srv s)
      in s\<lparr>ss_wire := (ss_wire s)(c := tl (ss_wire s c)), ss_out := ss_out s @ message_log ws msg,
           ss_service := (ss_service s)\<lparr>sc_srv := (ss_srv s)\<lparr>sr_handler := MessageHandler ws (socket c) msg\<rparr>\<rparr>\<rparr>)"

definition taken :: "u32 \<Rightarrow> ClientServerMessage \<Rightarrow> 'k session \<Rightarrow> 'k session" where
  "taken c msg s = s\<lparr>ss_read := (ss_read s)(c := ss_read s c + 1), ss_work := (ss_work s)(c := ClientMessageHandler msg (ss_work s c))\<rparr>"

text \<open>
  What everybody else does, the message handler in a call included, may put messages on the wires and so bytes
  on the connections.
\<close>

definition sent_bytes :: "'k wired \<Rightarrow> 'k session \<Rightarrow> u32 \<Rightarrow> u8 list" where
  "sent_bytes w s c = bytes_of (drop (length (wi_wire w c)) (ss_wire s c))"

definition sent_back :: "(u32 \<Rightarrow> int) \<Rightarrow> 'k wired \<Rightarrow> 'k session \<Rightarrow> u32 \<Rightarrow> u8 list" where
  "sent_back socket w s c = bytes_of (drop (length (responses socket (wi_session w) c)) (responses socket s c))"

inductive wired_step ::
  "'k server_env \<Rightarrow> (u32 \<Rightarrow> sys_config) \<Rightarrow> (u32 \<Rightarrow> int) \<Rightarrow> 'k wired \<Rightarrow> 'k wired \<Rightarrow> bool"
  for E :: "'k server_env" and G :: "u32 \<Rightarrow> sys_config" and socket :: "u32 \<Rightarrow> int" where
  w_wait: "in_loop w \<Longrightarrow> wi_comm w = CO_Wait \<Longrightarrow> list_all (ready w) evs \<Longrightarrow> distinct (map source evs) \<Longrightarrow>
     length evs \<le> MAX_EVENTS \<Longrightarrow>
     wired_step E G socket w (w\<lparr>wi_comm := CO_Events evs\<rparr>)"
| w_next: "in_loop w \<Longrightarrow> wi_comm w = CO_Events [] \<Longrightarrow> wired_step E G socket w (w\<lparr>wi_comm := CO_Wait\<rparr>)"
| w_accept: "in_loop w \<Longrightarrow> wi_comm w = CO_Events (SE_Accept # evs) \<Longrightarrow> c \<in> wi_backlog w \<Longrightarrow>
     wired_step E G socket w (w\<lparr>wi_backlog := wi_backlog w - {c}, wi_epoll := insert c (wi_epoll w), wi_comm := CO_Events evs\<rparr>)"
| w_hang_up: "in_loop w \<Longrightarrow> wi_comm w = CO_Events (SE_Client c True readable # evs) \<Longrightarrow>
     wired_step E G socket w (w\<lparr>wi_crash := (wi_crash w)\<lparr>cr_dropped := insert c (cr_dropped (wi_crash w))\<rparr>,
       wi_epoll := wi_epoll w - {c}, wi_comm := CO_Events evs\<rparr>)"
| w_receive: "in_loop w \<Longrightarrow> wi_comm w = CO_Events (SE_Client c False True # evs) \<Longrightarrow>
     wired_step E G socket w (w\<lparr>wi_comm := CO_Receive c [] evs\<rparr>)"
| w_piece: "in_loop w \<Longrightarrow> wi_comm w = CO_Receive c got evs \<Longrightarrow> length got < message_size \<Longrightarrow>
     n \<le> message_size - length got \<Longrightarrow> n \<le> length (wi_stream w c) \<Longrightarrow>
     wired_step E G socket w (w\<lparr>wi_stream := (wi_stream w)(c := drop n (wi_stream w c)),
       wi_comm := CO_Receive c (got @ take n (wi_stream w c)) evs\<rparr>)"
| w_deliver: "in_loop w \<Longrightarrow> wi_comm w = CO_Receive c got evs \<Longrightarrow> \<not> length got < message_size \<Longrightarrow>
     wired_step E G socket w (w\<lparr>wi_crash := (wi_crash w)\<lparr>cr_session := delivered socket c (decode_message got) (wi_session w)\<rparr>,
       wi_comm := CO_Events evs\<rparr>)"
| w_other: "crash_step E G socket (wi_crash w) v \<Longrightarrow> cr_dropped v = cr_dropped (wi_crash w) \<Longrightarrow>
     (\<And>c. length (wi_wire w c) \<le> length (ss_wire (cr_session v) c)) \<Longrightarrow>
     ss_read (cr_session v) = ss_read (wi_session w) \<Longrightarrow>
     wired_step E G socket w (w\<lparr>wi_crash := v, wi_stream := (\<lambda>c. wi_stream w c @ sent_bytes w (cr_session v) c),
       wi_down := (\<lambda>c. wi_down w c @ sent_back socket w (cr_session v) c)\<rparr>)"
| r_receive: "c \<notin> cr_dead (wi_crash w) \<Longrightarrow> wi_reader w c = RD_Wait \<Longrightarrow> cr_server (wi_crash w) \<Longrightarrow> wi_down w c \<noteq> [] \<Longrightarrow>
     wired_step E G socket w (w\<lparr>wi_reader := (wi_reader w)(c := RD_Receive [])\<rparr>)"
| r_hang_up: "c \<notin> cr_dead (wi_crash w) \<Longrightarrow> wi_reader w c = RD_Wait \<Longrightarrow> \<not> cr_server (wi_crash w) \<Longrightarrow>
     wired_step E G socket w (w\<lparr>wi_reader := (wi_reader w)(c := RD_Stopped)\<rparr>)"
| r_piece: "c \<notin> cr_dead (wi_crash w) \<Longrightarrow> wi_reader w c = RD_Receive got \<Longrightarrow> length got < message_size \<Longrightarrow>
     n \<le> message_size - length got \<Longrightarrow> n \<le> length (wi_down w c) \<Longrightarrow>
     wired_step E G socket w (w\<lparr>wi_down := (wi_down w)(c := drop n (wi_down w c)),
       wi_reader := (wi_reader w)(c := RD_Receive (got @ take n (wi_down w c)))\<rparr>)"
| r_deliver: "c \<notin> cr_dead (wi_crash w) \<Longrightarrow> wi_reader w c = RD_Receive got \<Longrightarrow> \<not> length got < message_size \<Longrightarrow>
     wired_step E G socket w (w\<lparr>wi_crash := (wi_crash w)\<lparr>cr_session := taken c (decode_message got) (wi_session w)\<rparr>,
       wi_reader := (wi_reader w)(c := RD_Wait)\<rparr>)"

text \<open>At the start every client has connected, as its set-up does.\<close>

definition wired_start :: "'k session \<Rightarrow> 'k wired" where
  "wired_start s = \<lparr>wi_crash = crash_start s, wi_backlog = UNIV, wi_epoll = {}, wi_stream = (\<lambda>_. []), wi_comm = CO_Wait,
     wi_down = (\<lambda>_. []), wi_reader = (\<lambda>_. RD_Wait)\<rparr>"

section \<open>The invariant\<close>

fun received :: "communicator \<Rightarrow> u32 \<Rightarrow> u8 list" where
  "received (CO_Receive d got evs) c = (if c = d then got else [])"
| "received _ c = []"

fun receiving :: "communicator \<Rightarrow> u32 set" where
  "receiving (CO_Receive c got evs) = {c}"
| "receiving _ = {}"

fun events_left :: "communicator \<Rightarrow> sock_event list" where
  "events_left CO_Wait = []"
| "events_left (CO_Events evs) = evs"
| "events_left (CO_Receive c got evs) = evs"

fun partial :: "reader \<Rightarrow> u8 list" where
  "partial (RD_Receive got) = got"
| "partial _ = []"

definition readers_ok :: "(u32 \<Rightarrow> int) \<Rightarrow> 'k wired \<Rightarrow> bool" where
  "readers_ok socket w \<longleftrightarrow> (\<forall>c. ss_read (wi_session w) c \<le> length (responses socket (wi_session w) c) \<and>
     bytes_of (drop (ss_read (wi_session w) c) (responses socket (wi_session w) c)) = partial (wi_reader w c) @ wi_down w c \<and>
     length (partial (wi_reader w c)) \<le> message_size)"

text \<open>An event is about a registered connection, and there is one event at most for each.\<close>

definition events_ok :: "'k wired \<Rightarrow> bool" where
  "events_ok w \<longleftrightarrow> distinct (map source (events_left (wi_comm w))) \<and>
     (\<forall>c hup readable. SE_Client c hup readable \<in> set (events_left (wi_comm w)) \<longrightarrow>
        c \<in> wi_epoll w \<and> c \<notin> receiving (wi_comm w) \<and> (hup \<longrightarrow> c \<in> cr_dead (wi_crash w)))"

definition listener_ok :: "'k wired \<Rightarrow> bool" where
  "listener_ok w \<longleftrightarrow> (\<forall>c. bytes_of (wi_wire w c) = received (wi_comm w) c @ wi_stream w c) \<and> events_ok w \<and>
     receiving (wi_comm w) \<subseteq> wi_epoll w \<and> (\<forall>c. length (received (wi_comm w) c) \<le> message_size) \<and>
     wi_epoll w \<inter> cr_dropped (wi_crash w) = {} \<and> wi_backlog w \<inter> wi_epoll w = {} \<and>
     wi_backlog w \<inter> cr_dropped (wi_crash w) = {} \<and>
     (sr_handler (ss_srv (wi_session w)) \<noteq> H_Idle \<longrightarrow> (\<exists>evs. wi_comm w = CO_Events evs))"

lemma listener_okD:
  assumes "listener_ok w"
  shows "bytes_of (wi_wire w c) = received (wi_comm w) c @ wi_stream w c" "events_ok w" "receiving (wi_comm w) \<subseteq> wi_epoll w"
    "length (received (wi_comm w) c) \<le> message_size" "wi_epoll w \<inter> cr_dropped (wi_crash w) = {}"
    "wi_backlog w \<inter> wi_epoll w = {}" "wi_backlog w \<inter> cr_dropped (wi_crash w) = {}"
    "sr_handler (ss_srv (wi_session w)) \<noteq> H_Idle \<Longrightarrow> \<exists>evs. wi_comm w = CO_Events evs"
  using assms by (simp_all add: listener_ok_def)

text \<open>What a step of the sessions does to a wire: it appends a message, takes the first one, or nothing.\<close>

lemma session_wire:
  assumes "session_step E G socket s t" "length (ss_wire s c) \<le> length (ss_wire t c)"
  shows "ss_wire t c = ss_wire s c @ drop (length (ss_wire s c)) (ss_wire t c)"
  using assms by (cases) (auto split: if_splits)

lemma session_idle:
  assumes "session_step E G socket s t" "sr_handler (ss_srv s) = H_Idle" "\<And>c. length (ss_wire s c) \<le> length (ss_wire t c)"
  shows "sr_handler (ss_srv t) = H_Idle"
proof (rule ccontr)
  assume "sr_handler (ss_srv t) \<noteq> H_Idle"
  then have "changes Handler_Thread s t" using assms(2) by simp
  show False
    using assms(1)
  proof cases
    case (s_receive c msg rest ws)
    then show False using assms(3) [of c] by simp
  next
    case (s_dispatcher r)
    then have "\<forall>i. sr_dispatcher (ss_srv s) \<noteq> D_Serve i" by (auto simp: served_def)
    then show False using dispatcher_keeps [OF s_dispatcher(2)] s_dispatcher(1) \<open>changes Handler_Thread s t\<close> by simp
  next
    case (s_serve i v)
    then show False using serve_keeps(1) [OF s_serve(3)] \<open>changes Handler_Thread s t\<close> by simp
  qed (use assms(2) \<open>changes Handler_Thread s t\<close> in \<open>simp_all split: if_splits\<close>)
qed

lemma crash_moves:
  assumes "crash_step E G socket s t" "\<And>c. length (ss_wire (cr_session s) c) \<le> length (ss_wire (cr_session t) c)"
  shows "ss_wire (cr_session t) c = ss_wire (cr_session s) c @ drop (length (ss_wire (cr_session s) c)) (ss_wire (cr_session t) c)"
    "sr_handler (ss_srv (cr_session s)) = H_Idle \<Longrightarrow> sr_handler (ss_srv (cr_session t)) = H_Idle"
    "cr_dead s \<subseteq> cr_dead t"
proof -
  have step: "cr_session t = cr_session s \<or> session_step E G socket (cr_session s) (cr_session t)"
    using assms(1) by (cases) (auto simp: acts_def stopped_def intro: s_stop)
  show "ss_wire (cr_session t) c = ss_wire (cr_session s) c @ drop (length (ss_wire (cr_session s) c)) (ss_wire (cr_session t) c)"
    using step session_wire [OF _ assms(2)] by auto
  show "sr_handler (ss_srv (cr_session t)) = H_Idle" if "sr_handler (ss_srv (cr_session s)) = H_Idle"
    using step session_idle [OF _ that assms(2)] that by auto
  show "cr_dead s \<subseteq> cr_dead t" using assms(1) by (cases) auto
qed

text \<open>With all its bytes received, the first message on the wire is the one in the buffer.\<close>

lemma received_message:
  assumes "listener_ok w" "wi_comm w = CO_Receive c got evs" "\<not> length got < message_size"
  shows "\<exists>rest. wi_wire w c = decode_message got # rest \<and> bytes_of rest = wi_stream w c"
proof -
  have bytes: "bytes_of (wi_wire w c) = got @ wi_stream w c" and len: "length got = message_size"
    using listener_okD(1,4) [OF assms(1), of c] assms(2,3) by simp_all
  then have "wi_wire w c \<noteq> []" by (auto simp: message_size_def)
  then obtain msg rest where wire: "wi_wire w c = msg # rest" by (auto simp: neq_Nil_conv)
  then have "encode_message msg @ bytes_of rest = got @ wi_stream w c" using bytes by simp
  then have "encode_message msg = got \<and> bytes_of rest = wi_stream w c" using len csm.encode_length by (metis append_eq_append_conv)
  with wire show ?thesis using decode_encode_message by metis
qed

lemma taken_simps [simp]: "ss_wire (taken c msg s) = ss_wire s" "ss_service (taken c msg s) = ss_service s"
  by (simp_all add: taken_def)

lemma delivered_simps [simp]:
  "ss_wire (delivered socket c msg s) = (ss_wire s)(c := tl (ss_wire s c))"
  "sr_handler (ss_srv (delivered socket c msg s)) = MessageHandler (sr_ws (ss_srv s)) (socket c) msg"
  by (simp_all add: delivered_def Let_def)

lemma listener_step:
  assumes "listener_ok w" "wired_step E G socket w u"
  shows "listener_ok u"
  using assms(2)
proof cases
  note inv = listener_okD [OF assms(1)]
  {
    case (w_wait evs)
    have "SE_Client c hup readable \<in> set evs \<Longrightarrow> c \<in> wi_epoll w \<and> (hup \<longrightarrow> c \<in> cr_dead (wi_crash w))" for c hup readable
      using w_wait(4) by (auto simp: list_all_iff)
    then show ?thesis using assms(1) w_wait by (simp add: listener_ok_def events_ok_def in_loop_def)
  next
    case w_next
    then show ?thesis using assms(1) by (simp add: listener_ok_def events_ok_def in_loop_def)
  next
    case (w_accept evs c)
    then show ?thesis using assms(1) by (auto simp: listener_ok_def events_ok_def in_loop_def)
  next
    case (w_hang_up c readable evs)
    then show ?thesis using assms(1) by (auto simp: listener_ok_def events_ok_def in_loop_def image_iff)
  next
    case (w_receive c evs)
    then have "c \<in> wi_epoll w" using inv(2) by (auto simp: events_ok_def)
    with w_receive show ?thesis using assms(1) by (auto simp: listener_ok_def events_ok_def in_loop_def image_iff)
  next
    case (w_piece c got evs n)
    then show ?thesis using assms(1) by (auto simp: listener_ok_def events_ok_def in_loop_def)
  next
    case (w_deliver c got evs)
    from received_message [OF assms(1) w_deliver(3,4)] obtain rest
      where "wi_wire w c = decode_message got # rest" "bytes_of rest = wi_stream w c" by blast
    then show ?thesis using assms(1) w_deliver by (auto simp: listener_ok_def events_ok_def in_loop_def)
  next
    case (w_other v)
    note moves = crash_moves [OF w_other(2,4)]
    have "bytes_of (ss_wire (cr_session v) c) = received (wi_comm w) c @ wi_stream w c @ sent_bytes w (cr_session v) c" for c
      unfolding sent_bytes_def by (subst moves(1)) (simp add: inv(1))
    moreover have "events_ok u"
      using inv(2) moves(3) subsetD [OF moves(3)] unfolding events_ok_def w_other(1) by simp
    ultimately show ?thesis using assms(1) w_other(1,3) moves(2) by (auto simp: listener_ok_def)
  }
qed (use assms(1) in \<open>simp_all add: listener_ok_def events_ok_def\<close>)

text \<open>The responses that are on their way to a client.\<close>

lemma session_responses:
  assumes "session_step E G socket s t"
  shows "responses socket t c = responses socket s c @ drop (length (responses socket s c)) (responses socket t c)"
proof -
  have "\<exists>ms. sr_sent (ss_srv t) = sr_sent (ss_srv s) @ ms"
    using assms
  proof cases
    case (s_handler r)
    from s_handler(3) have "\<exists>ms. sr_sent r = sr_sent (ss_srv s) @ ms" by (cases) auto
    then show ?thesis by (simp add: s_handler(1))
  next
    case (s_dispatcher r)
    from s_dispatcher(2) have "sr_sent r = sr_sent (ss_srv s)" by (cases) auto
    then show ?thesis by (simp add: s_dispatcher(1))
  next
    case (s_serve i v)
    then show ?thesis using serve_same_stage(1) [OF s_serve(3)] by (simp add: same_stage_def)
  qed simp_all
  then show ?thesis by (auto simp: sent_to_def)
qed

lemma crash_responses:
  assumes "crash_step E G socket s t"
  shows "responses socket (cr_session t) c =
    responses socket (cr_session s) c @ drop (length (responses socket (cr_session s) c)) (responses socket (cr_session t) c)"
proof -
  have "cr_session t = cr_session s \<or> session_step E G socket (cr_session s) (cr_session t)"
    using assms by (cases) (auto simp: acts_def stopped_def intro: s_stop)
  then show ?thesis using session_responses by auto
qed

lemma readers_okD:
  assumes "readers_ok socket w"
  shows "ss_read (wi_session w) c \<le> length (responses socket (wi_session w) c)"
    "bytes_of (drop (ss_read (wi_session w) c) (responses socket (wi_session w) c)) = partial (wi_reader w c) @ wi_down w c"
    "length (partial (wi_reader w c)) \<le> message_size"
  using assms by (simp_all add: readers_ok_def)

lemma response_received:
  assumes "readers_ok socket w" "wi_reader w c = RD_Receive got" "\<not> length got < message_size"
  shows "ss_read (wi_session w) c < length (responses socket (wi_session w) c) \<and>
    decode_message got = responses socket (wi_session w) c ! ss_read (wi_session w) c \<and>
    bytes_of (drop (Suc (ss_read (wi_session w) c)) (responses socket (wi_session w) c)) = wi_down w c"
proof -
  let ?n = "ss_read (wi_session w) c" and ?ms = "responses socket (wi_session w) c"
  have bytes: "bytes_of (drop ?n ?ms) = got @ wi_down w c" and len: "length got = message_size"
    using readers_okD(2,3) [OF assms(1), of c] assms(2,3) by simp_all
  then have "drop ?n ?ms \<noteq> []" by (auto simp: message_size_def)
  then have n: "?n < length ?ms" by simp
  then have "encode_message (?ms ! ?n) @ bytes_of (drop (Suc ?n) ?ms) = got @ wi_down w c"
    using bytes by (simp add: Cons_nth_drop_Suc [symmetric])
  then have "encode_message (?ms ! ?n) = got \<and> bytes_of (drop (Suc ?n) ?ms) = wi_down w c"
    using len csm.encode_length by (metis append_eq_append_conv)
  then show ?thesis using n decode_encode_message by metis
qed

lemma readers_step:
  assumes "readers_ok socket w" "wired_step E G socket w u"
  shows "readers_ok socket u"
  using assms(2)
proof cases
  case (w_deliver c got evs)
  then show ?thesis using assms(1) by (simp add: readers_ok_def delivered_def Let_def sent_to_def)
next
  case (w_other v)
  note same = crash_responses [OF w_other(2)]
  have "bytes_of (drop (ss_read (wi_session w) c) (responses socket (cr_session v) c)) =
      partial (wi_reader w c) @ wi_down w c @ sent_back socket w (cr_session v) c \<and>
      ss_read (wi_session w) c \<le> length (responses socket (cr_session v) c)" for c
    unfolding sent_back_def using readers_okD(1,2) [OF assms(1), of c] by (subst (1 3) same) simp
  then show ?thesis using assms(1) w_other(1,5) by (simp add: readers_ok_def)
next
  case (r_deliver c got)
  from response_received [OF assms(1) r_deliver(3,4)] show ?thesis
    using assms(1) r_deliver(1) by (auto simp: readers_ok_def taken_def)
qed (use assms(1) in \<open>auto simp: readers_ok_def\<close>)

section \<open>What the communicators do\<close>

definition wired_inv :: "(u32 \<Rightarrow> int) \<Rightarrow> 'k wired \<Rightarrow> bool" where
  "wired_inv socket w \<longleftrightarrow> listener_ok w \<and> readers_ok socket w"

lemma wired_invD: "wired_inv socket w \<Longrightarrow> listener_ok w" "wired_inv socket w \<Longrightarrow> readers_ok socket w"
  by (simp_all add: wired_inv_def)

lemma wired_step_inv [inv_steps]: "wired_inv socket w \<Longrightarrow> wired_step E G socket w u \<Longrightarrow> wired_inv socket u"
  unfolding wired_inv_def using listener_step readers_step by blast

text \<open>Seen without the bytes, the communicators take messages, and that of the server drops connections.\<close>

interpretation wired_sim: stuttering_simulation
  "wired_step E G socket" "crash_step E G socket" "wired_inv socket" wi_crash
  for E :: "'k server_env" and G :: "u32 \<Rightarrow> sys_config" and socket :: "u32 \<Rightarrow> int"
proof unfold_locales
  fix w u :: "'k wired"
  assume inv: "wired_inv socket w" and step: "wired_step E G socket w u"
  then show "wired_inv socket u" by (rule wired_step_inv)
  show "wi_crash u = wi_crash w \<or> crash_step E G socket (wi_crash w) (wi_crash u)"
    using step
  proof cases
    case (w_hang_up c readable evs)
    then have "c \<in> cr_dead (wi_crash w)" using listener_okD(2) [OF wired_invD(1) [OF inv]] by (auto simp: events_ok_def)
    then show ?thesis using w_hang_up crash_drop [of "wi_crash w" c E G socket] by (simp add: in_loop_def)
  next
    case (w_deliver c got evs)
    let ?s = "wi_session w" and ?u = "delivered socket c (decode_message got) (wi_session w)"
    have idle: "sr_handler (ss_srv ?s) = H_Idle" "cr_server (wi_crash w)" using w_deliver(2) by (simp_all add: in_loop_def)
    from received_message [OF wired_invD(1) [OF inv] w_deliver(3,4)] obtain rest where wire: "ss_wire ?s c = decode_message got # rest" by blast
    have "session_step E G socket ?s ?u"
      using s_receive [OF idle(1) wire refl, of E G socket] wire by (simp add: delivered_def Let_def)
    moreover have "changes Handler_Thread ?s ?u" using wire by (auto intro: exI [of _ c])
    moreover have "c \<notin> cr_dropped (wi_crash w)" using listener_okD(3,5) [OF wired_invD(1) [OF inv]] w_deliver(3) by auto
    then have "closed_wires (wi_crash w) ?u" by (auto simp: closed_wires_def)
    moreover have "\<not> broken_pipe (wi_crash w)" using idle(1) by (simp add: broken_pipe_def)
    ultimately have "crash_step E G socket (wi_crash w) ((wi_crash w)\<lparr>cr_session := ?u\<rparr>)"
      using idle(2) by (intro crash_run [of E G socket Handler_Thread]) (simp_all add: acts_def)
    then show ?thesis using w_deliver(1) by simp
  next
    case (r_deliver c got)
    let ?s = "wi_session w" and ?u = "taken c (decode_message got) (wi_session w)"
    note got = response_received [OF wired_invD(2) [OF inv] r_deliver(3,4)]
    have "session_step E G socket ?s ?u"
      using m_message [OF refl, where c = c and s = ?s and socket = socket and E = E and G = G] got by (simp add: taken_def)
    moreover have "changes (Client_Reader c) ?s ?u" by (simp add: taken_def)
    ultimately have "crash_step E G socket (wi_crash w) ((wi_crash w)\<lparr>cr_session := ?u\<rparr>)"
      using r_deliver(2) by (intro crash_run [of E G socket "Client_Reader c"]) (simp_all add: acts_def closed_wires_def)
    then show ?thesis using r_deliver(1) by simp
  qed simp_all
qed

section \<open>Every session is one of bytes and events\<close>

text \<open>
  As long as no process is gone a communicator can wait for the message that its handler takes next, receive
  it in one piece, and come back to where it waits.
\<close>

definition undisturbed :: "(u32 \<Rightarrow> int) \<Rightarrow> 'k session \<Rightarrow> 'k wired \<Rightarrow> bool" where
  "undisturbed socket s w \<longleftrightarrow> wired_inv socket w \<and> wi_crash w = crash_start s \<and> wi_epoll w \<union> wi_backlog w = UNIV \<and>
     wi_reader w = (\<lambda>_. RD_Wait) \<and>
     (wi_comm w = CO_Events [] \<or> wi_comm w = CO_Wait \<and> sr_handler (ss_srv s) = H_Idle)"

lemma undisturbed_inv: "undisturbed socket s w \<Longrightarrow> wired_inv socket w"
  by (simp add: undisturbed_def)

lemma undisturbed_waits:
  assumes "undisturbed socket s w" "sr_handler (ss_srv s) = H_Idle"
  shows "(wired_step E G socket)\<^sup>*\<^sup>* w (w\<lparr>wi_comm := CO_Wait\<rparr>)" "undisturbed socket s (w\<lparr>wi_comm := CO_Wait\<rparr>)"
proof -
  let ?u = "w\<lparr>wi_comm := CO_Wait\<rparr>"
  have "wi_comm w = CO_Wait \<Longrightarrow> ?u = w" by simp
  moreover have "wired_step E G socket w ?u" if "wi_comm w \<noteq> CO_Wait"
    using that assms by (intro w_next) (auto simp: undisturbed_def in_loop_def crash_start_def)
  ultimately show run: "(wired_step E G socket)\<^sup>*\<^sup>* w ?u" by (metis r_into_rtranclp rtranclp.rtrancl_refl)
  have "wired_inv socket ?u" using assms by (auto simp: undisturbed_def wired_inv_def listener_ok_def readers_ok_def events_ok_def crash_start_def)
  with assms show "undisturbed socket s ?u" by (simp add: undisturbed_def)
qed

lemma undisturbed_accepts:
  assumes "undisturbed socket s w" "sr_handler (ss_srv s) = H_Idle"
  shows "\<exists>u. (wired_step E G socket)\<^sup>*\<^sup>* w u \<and> undisturbed socket s u \<and> wi_comm u = CO_Wait \<and> c \<in> wi_epoll u"
proof -
  let ?u = "w\<lparr>wi_comm := CO_Wait\<rparr>"
  note u = undisturbed_waits [OF assms]
  show ?thesis
  proof (cases "c \<in> wi_epoll w")
    case True
    with u show ?thesis by (intro exI [of _ ?u]) simp
  next
    case False
    then have c: "c \<in> wi_backlog w" using assms(1) by (auto simp: undisturbed_def)
    have loop: "in_loop w" using assms by (simp add: undisturbed_def in_loop_def crash_start_def)
    let ?v = "w\<lparr>wi_comm := CO_Events [SE_Accept]\<rparr>"
    let ?x = "w\<lparr>wi_backlog := wi_backlog w - {c}, wi_epoll := insert c (wi_epoll w), wi_comm := CO_Events []\<rparr>"
    have "wired_step E G socket ?u ?v"
      using w_wait [of ?u "[SE_Accept]" E G socket] loop c by (auto simp: MAX_EVENTS_def in_loop_def)
    moreover have "wired_step E G socket ?v ?x"
      using w_accept [of ?v "[]" c E G socket] loop c by (simp add: in_loop_def)
    ultimately have run: "(wired_step E G socket)\<^sup>*\<^sup>* w ?x"
      using u(1) [of E G] by (meson rtranclp.rtrancl_into_rtrancl)
    then have "wired_inv socket ?x" using wired_sim.inv_reach [OF run] assms(1) by (simp add: undisturbed_def)
    then have x: "undisturbed socket s ?x" using assms(1) by (auto simp: undisturbed_def)
    from undisturbed_waits(1) [OF x assms(2), of E G] undisturbed_waits(2) [OF x assms(2)] run show ?thesis
      by (intro exI [of _ "?x\<lparr>wi_comm := CO_Wait\<rparr>"]) (auto intro: rtranclp_trans)
  qed
qed

lemma undisturbed_step:
  assumes "session_step E G socket s t" "undisturbed socket s w"
  shows "\<exists>u. (wired_step E G socket)\<^sup>*\<^sup>* w u \<and> undisturbed socket t u"
proof -
  consider (other) "\<forall>c. length (ss_wire s c) \<le> length (ss_wire t c)" "ss_read t = ss_read s"
    | (taken) c where "ss_read s c < length (responses socket s c)" "t = taken c (responses socket s c ! ss_read s c) s"
    | (received) c msg rest where "sr_handler (ss_srv s) = H_Idle" "ss_wire s c = msg # rest" "t = delivered socket c msg s"
    using assms(1) by (cases) (auto simp: taken_def delivered_def Let_def split: if_splits)
  then show ?thesis
  proof cases
    case other
    let ?u = "w\<lparr>wi_crash := crash_start t, wi_stream := (\<lambda>c. wi_stream w c @ sent_bytes w t c),
      wi_down := (\<lambda>c. wi_down w c @ sent_back socket w t c)\<rparr>"
    have s: "wi_crash w = crash_start s" using assms(2) by (simp add: undisturbed_def)
    have "crash_step E G socket (crash_start s) (crash_start t)" by (rule crash_step_start [OF assms(1)])
    from w_other [of E G socket w, unfolded s, OF this] other have step: "wired_step E G socket w ?u" by (simp add: crash_start_def)
    then have "wired_inv socket ?u" using undisturbed_inv [OF assms(2)] wired_step_inv by blast
    moreover have "wi_comm w = CO_Wait \<Longrightarrow> sr_handler (ss_srv t) = H_Idle"
      using session_idle [OF assms(1)] other(1) assms(2) by (simp add: undisturbed_def)
    ultimately have "undisturbed socket t ?u" using assms(2) by (auto simp: undisturbed_def)
    with step show ?thesis by (meson r_into_rtranclp)
  next
    case (taken c)
    let ?msg = "responses socket s c ! ss_read s c" and ?rest = "bytes_of (drop (Suc (ss_read s c)) (responses socket s c))"
    have crash: "wi_crash w = crash_start s" and inv: "wired_inv socket w" and wait: "wi_reader w = (\<lambda>_. RD_Wait)"
      using assms(2) by (simp_all add: undisturbed_def)
    have down: "wi_down w c = encode_message ?msg @ ?rest"
      using readers_okD(2) [OF wired_invD(2) [OF inv], of c] taken(1)
      by (simp add: wait crash crash_start_def Cons_nth_drop_Suc [symmetric])
    have len: "length (encode_message ?msg) = message_size" by (rule csm.encode_length)
    let ?x = "w\<lparr>wi_reader := (wi_reader w)(c := RD_Receive [])\<rparr>"
    let ?y = "w\<lparr>wi_down := (wi_down w)(c := ?rest), wi_reader := (wi_reader w)(c := RD_Receive (encode_message ?msg))\<rparr>"
    let ?z = "w\<lparr>wi_down := (wi_down w)(c := ?rest), wi_crash := crash_start t, wi_reader := (\<lambda>_. RD_Wait)\<rparr>"
    have "wi_down w c \<noteq> []" using down len by (auto simp: message_size_def)
    then have "wired_step E G socket w ?x"
      using r_receive [of c w E G socket] by (simp add: crash crash_start_def wait)
    moreover have "wired_step E G socket ?x ?y"
      using r_piece [of c ?x "[]" message_size E G socket] down len by (simp add: crash crash_start_def message_size_def)
    moreover have "wired_step E G socket ?y ?z"
      using r_deliver [of c ?y "encode_message ?msg" E G socket] len
      by (simp add: crash crash_start_def decode_encode_message taken(2) wait fun_upd_idem)
    ultimately have run: "(wired_step E G socket)\<^sup>*\<^sup>* w ?z"
      by (meson converse_rtranclp_into_rtranclp r_into_rtranclp)
    have "wired_inv socket ?z" using wired_sim.inv_reach [OF run inv] .
    then have "undisturbed socket t ?z" using assms(2) by (auto simp: undisturbed_def taken(2))
    with run show ?thesis by blast
  next
    case (received c msg rest)
    note idle = received(1) and wire = received(2) and t = received(3)
    obtain u where u: "(wired_step E G socket)\<^sup>*\<^sup>* w u" "undisturbed socket s u" "wi_comm u = CO_Wait" "c \<in> wi_epoll u"
      using undisturbed_accepts [OF assms(2) idle] by blast
    have crash: "wi_crash u = crash_start s" and inv: "wired_inv socket u" using u(2) by (simp_all add: undisturbed_def)
    have loop: "in_loop u" using idle by (simp add: in_loop_def crash crash_start_def)
    have stream: "wi_stream u c = encode_message msg @ bytes_of rest"
      using listener_okD(1) [OF wired_invD(1) [OF inv], of c] wire u(3) by (simp add: crash crash_start_def)
    have len: "length (encode_message msg) = message_size" by (rule csm.encode_length)
    let ?v = "u\<lparr>wi_comm := CO_Events [SE_Client c False True]\<rparr>" and ?x = "u\<lparr>wi_comm := CO_Receive c [] []\<rparr>"
    let ?y = "u\<lparr>wi_stream := (wi_stream u)(c := bytes_of rest), wi_comm := CO_Receive c (encode_message msg) []\<rparr>"
    let ?z = "?y\<lparr>wi_crash := crash_start t, wi_comm := CO_Events []\<rparr>"
    have "ready u (SE_Client c False True)"
      using u(4) stream len by (auto simp: crash crash_start_def message_size_def)
    then have "wired_step E G socket u ?v"
      using w_wait [OF loop u(3), of "[SE_Client c False True]" E G socket] by (simp add: MAX_EVENTS_def)
    moreover have "wired_step E G socket ?v ?x"
      using w_receive [of ?v c "[]" E G socket] loop by (simp add: in_loop_def)
    moreover have "wired_step E G socket ?x ?y"
      using w_piece [of ?x c "[]" "[]" message_size E G socket] loop stream len by (simp add: in_loop_def message_size_def)
    moreover have "wired_step E G socket ?y ?z"
      using w_deliver [of ?y c "encode_message msg" "[]" E G socket] loop len
      by (simp add: in_loop_def decode_encode_message crash crash_start_def t)
    ultimately have run: "(wired_step E G socket)\<^sup>*\<^sup>* w ?z"
      using u(1) by (meson rtranclp.rtrancl_into_rtrancl)
    have "wired_inv socket ?z" using wired_sim.inv_reach [OF run] assms(2) by (simp add: undisturbed_def)
    then have "undisturbed socket t ?z" using u(2) by (simp add: undisturbed_def)
    with run show ?thesis by blast
  qed
qed

lemma sessions_wired:
  assumes "(session_step E G socket)\<^sup>*\<^sup>* s t" "undisturbed socket s w"
  shows "\<exists>u. (wired_step E G socket)\<^sup>*\<^sup>* w u \<and> undisturbed socket t u"
  using assms(1)
proof (induction rule: rtranclp_induct)
  case (step t v)
  then obtain u where "(wired_step E G socket)\<^sup>*\<^sup>* w u" "undisturbed socket t u" by blast
  with undisturbed_step [OF step.hyps(2)] show ?case by (meson rtranclp_trans)
qed (use assms(2) in blast)

lemma wired_start_inv: "wired_inv socket (wired_start (session_start ws kern store work))"
  by (simp add: wired_inv_def listener_ok_def readers_ok_def events_ok_def wired_start_def crash_start_def session_start_def
      service_start_def srv_start_def sent_to_def)

lemma wired_start_start: "undisturbed socket (session_start ws kern store work) (wired_start (session_start ws kern store work))"
  unfolding undisturbed_def using wired_start_inv
  by (auto simp: wired_start_def session_start_def service_start_def srv_start_def)

text \<open>
  The client 7 at its exit, its unsubscription unread, its process gone, and the communicator with the event that
  says so.
\<close>

lemma demo_hung_up:
  "\<exists>w. (wired_step demo_env demo_clients demo_socket)\<^sup>*\<^sup>* (wired_start demo_session) w \<and> in_loop w \<and>
     wi_comm w = CO_Events [SE_Client 7 True True] \<and> ss_point (wi_session w) 7 = M_Exit 0 \<and> wi_stream w 7 \<noteq> []"
proof -
  obtain t where t: "(session_step demo_env demo_clients demo_socket)\<^sup>*\<^sup>* demo_session t" "ss_point t 7 = M_Exit 0"
      "sr_handler (ss_srv t) = H_Idle" "ss_wire t 7 \<noteq> []"
    using demo_exits_early by blast
  obtain v where "(wired_step demo_env demo_clients demo_socket)\<^sup>*\<^sup>* (wired_start demo_session) v" "undisturbed demo_socket t v"
    using sessions_wired [OF t(1) wired_start_start] by blast
  then obtain u where u: "(wired_step demo_env demo_clients demo_socket)\<^sup>*\<^sup>* (wired_start demo_session) u" "undisturbed demo_socket t u"
      "wi_comm u = CO_Wait" "7 \<in> wi_epoll u"
    using undisturbed_accepts [OF _ t(3), of demo_socket v demo_env demo_clients 7] by (meson rtranclp_trans)
  have crash: "wi_crash u = crash_start t" and inv: "wired_inv demo_socket u" using u(2) by (simp_all add: undisturbed_def)
  obtain msg msgs where "ss_wire t 7 = msg # msgs" using t(4) by (auto simp: neq_Nil_conv)
  moreover have "encode_message msg \<noteq> []" using csm.encode_length [of msg] csm.sizeT_pos by auto
  ultimately have bytes: "wi_stream u 7 \<noteq> []"
    using listener_okD(1) [OF wired_invD(1) [OF inv], of 7] u(3) by (auto simp: crash crash_start_def)
  let ?k = "u\<lparr>wi_crash := (crash_start t)\<lparr>cr_dead := {7}\<rparr>\<rparr>"
  have "wired_step demo_env demo_clients demo_socket u ?k"
    using w_other [of demo_env demo_clients demo_socket u "(crash_start t)\<lparr>cr_dead := {7}\<rparr>"]
      crash_kill [of 7 "crash_start t" demo_env demo_clients demo_socket]
    by (simp add: crash crash_start_def sent_bytes_def sent_back_def)
  moreover have "wired_step demo_env demo_clients demo_socket ?k (?k\<lparr>wi_comm := CO_Events [SE_Client 7 True True]\<rparr>)"
    by (rule w_wait) (use u(3,4) t(3) in \<open>simp_all add: in_loop_def crash_start_def MAX_EVENTS_def\<close>)
  ultimately have "(wired_step demo_env demo_clients demo_socket)\<^sup>*\<^sup>* (wired_start demo_session) (?k\<lparr>wi_comm := CO_Events [SE_Client 7 True True]\<rparr>)"
    using u(1) by (meson rtranclp.rtrancl_into_rtrancl)
  then show ?thesis using t(2,3) bytes
    by (intro exI [of _ "?k\<lparr>wi_comm := CO_Events [SE_Client 7 True True]\<rparr>"]) (simp add: in_loop_def crash_start_def)
qed

section \<open>Properties\<close>

text \<open>Property C6: taking the messages whole is what the sockets do. The states the sessions reach are exactly
  the states reached when the server's communicator accepts connections and waits for at most four events at a
  time, those of the clients for one, and each receives the bytes of a message in any pieces.\<close>

theorem sockets_are_sessions:
  "(\<exists>w. (wired_step E G socket)\<^sup>*\<^sup>* (wired_start (session_start ws kern store work)) w \<and> wi_session w = t) \<longleftrightarrow>
     (session_step E G socket)\<^sup>*\<^sup>* (session_start ws kern store work) t"
proof
  let ?s = "session_start ws kern store work"
  assume "\<exists>w. (wired_step E G socket)\<^sup>*\<^sup>* (wired_start ?s) w \<and> wi_session w = t"
  then obtain w where w: "(wired_step E G socket)\<^sup>*\<^sup>* (wired_start ?s) w" "wi_session w = t" by blast
  from crash_session [OF wired_sim.simulates_reach [OF w(1) wired_start_inv]] w(2)
  show "(session_step E G socket)\<^sup>*\<^sup>* ?s t" by (simp add: wired_start_def crash_start_def)
next
  let ?s = "session_start ws kern store work"
  show "\<exists>w. (wired_step E G socket)\<^sup>*\<^sup>* (wired_start ?s) w \<and> wi_session w = t" if "(session_step E G socket)\<^sup>*\<^sup>* ?s t"
    using sessions_wired [OF that wired_start_start] by (auto simp: undisturbed_def crash_start_def)
qed

text \<open>Property C7: with processes that may be gone at any time, the communicators refine the taking of whole
  messages. In every run of bytes and events, what has arrived at a communicator and not been handed to its
  message handler is exactly the messages that have been sent and the handler has not got, the bytes in the
  buffer first, in both directions; and forgetting the bytes the run is one of those in which the messages of
  the open connections are taken in order.\<close>

theorem bytes_refine_messages:
  assumes "(wired_step E G socket)\<^sup>*\<^sup>* (wired_start (session_start ws kern store work)) w"
  shows "bytes_of (wi_wire w c) = received (wi_comm w) c @ wi_stream w c \<and>
    bytes_of (drop (ss_read (wi_session w) c) (responses socket (wi_session w) c)) = partial (wi_reader w c) @ wi_down w c \<and>
    (crash_step E G socket)\<^sup>*\<^sup>* (crash_start (session_start ws kern store work)) (wi_crash w)"
proof -
  have start: "wired_inv socket (wired_start (session_start ws kern store work))" by (rule wired_start_inv)
  have "wired_inv socket w" by (rule wired_sim.inv_reach [OF assms start])
  note inv = wired_invD [OF this]
  have "(crash_step E G socket)\<^sup>*\<^sup>* (wi_crash (wired_start (session_start ws kern store work))) (wi_crash w)"
    by (rule wired_sim.simulates_reach [OF assms start])
  with listener_okD(1) [OF inv(1)] readers_okD(2) [OF inv(2)] show ?thesis by (simp add: wired_start_def)
qed

theorem bytes_refine_messages_witness:
  "\<exists>w. (wired_step demo_env demo_clients demo_socket)\<^sup>*\<^sup>* (wired_start demo_session) w \<and> wi_stream w 7 \<noteq> [] \<and>
     bytes_of (wi_wire w 7) = wi_stream w 7"
proof -
  obtain w where w: "(wired_step demo_env demo_clients demo_socket)\<^sup>*\<^sup>* (wired_start demo_session) w"
      "wi_comm w = CO_Events [SE_Client 7 True True]" "wi_stream w 7 \<noteq> []"
    using demo_hung_up by blast
  from bytes_refine_messages [OF w(1), of 7] w show ?thesis by auto
qed

text \<open>Property C20: the server can lose the unsubscription of a client that ends regularly. When \<open>epoll_wait\<close> has
  reported that the process is gone before its last message has been received, the communicator closes the
  connection whether or not there are bytes to read; they stay unread, the client keeps its slot for ever, and
  no later process with its id is accepted or answered.\<close>

theorem hang_up_discards_unsubscription:
  assumes "server_main S hardware argv pid net = (Inr (Some (ipc, ws)), net')" "store_ready G store"
    "\<forall>c. config_ok (G c) \<and> sg_threads (G c) = ws_numWorkerThreads ws" "work_ready G work" "references_ready G store"
    "inj socket" "(wired_step E G socket)\<^sup>*\<^sup>* (wired_start (session_start ws kern store work)) w"
    "in_loop w" "wi_comm w = CO_Events (SE_Client c True readable # evs)"
    "ss_point (wi_session w) c = M_Exit status" "wi_stream w c \<noteq> []"
  shows "\<exists>u. wired_step E G socket w u \<and> wi_comm u = CO_Events evs \<and>
    (\<forall>t. (wired_step E G socket)\<^sup>*\<^sup>* u t \<longrightarrow> wi_stream t c = wi_stream w c \<and> subscribed (ss_bank (wi_session t)) c \<and>
       (\<forall>sk msg. senderId msg = c \<and> msg_type msg = MT_Subscribe \<longrightarrow> MessageHandler (sr_ws (ss_srv (wi_session t))) sk msg = H_Idle))"
proof -
  let ?s = "session_start ws kern store work"
  let ?u = "w\<lparr>wi_crash := (wi_crash w)\<lparr>cr_dropped := insert c (cr_dropped (wi_crash w))\<rparr>, wi_epoll := wi_epoll w - {c}, wi_comm := CO_Events evs\<rparr>"
  have start: "wired_inv socket (wired_start ?s)" by (rule wired_start_inv)
  have step: "wired_step E G socket w ?u" by (rule w_hang_up [OF assms(8,9)])
  have w: "wired_inv socket w" by (rule wired_sim.inv_reach [OF assms(7) start])
  then have u: "wired_inv socket ?u" using step by (rule wired_step_inv)
  have "crash_start ?s = wi_crash (wired_start ?s)" by (simp add: wired_start_def)
  then have crash: "(crash_step E G socket)\<^sup>*\<^sup>* (crash_start ?s) (wi_crash w)" using wired_sim.simulates_reach [OF assms(7) start] by simp
  have "session_ok G socket ?s" by (rule session_start_ok [OF assms(1-6)])
  then have ok: "session_ok G socket (wi_session w)" using crash_ok [OF crash] by (simp add: crash_start_def)
  have stage: "stage_now socket (ss_srv (wi_session w)) (ss_point (wi_session w) c) (wi_wire w c) c"
    by (rule session_invD(5) [OF session_okD(2) [OF ok]])
  have "wi_wire w c \<noteq> []" using listener_okD(1) [OF wired_invD(1) [OF w], of c] assms(9,11) by auto
  moreover have dead: "c \<in> cr_dead (wi_crash w)" using listener_okD(2) [OF wired_invD(1) [OF w]] assms(9) by (auto simp: events_ok_def)
  ultimately have lost: "abandoned (wi_crash ?u) c" using stage assms(10) by (auto simp: abandoned_def stage_now_def)
  have "wi_stream t c = wi_stream w c \<and> subscribed (ss_bank (wi_session t)) c" if "(wired_step E G socket)\<^sup>*\<^sup>* ?u t" for t
  proof -
    have t: "wired_inv socket t" "(crash_step E G socket)\<^sup>*\<^sup>* (wi_crash ?u) (wi_crash t)"
      by (rule wired_sim.inv_reach [OF that u], rule wired_sim.simulates_reach [OF that u])
    have "c \<in> cr_dropped (wi_crash t)" "wi_wire t c = wi_wire w c" using dropped_run [OF t(2), of c] by simp_all
    moreover from this(1) have "received (wi_comm t) c = []" using listener_okD(3,5) [OF wired_invD(1) [OF t(1)]] by (cases "wi_comm t") auto
    moreover have "received (wi_comm w) c = []" using assms(9) by simp
    ultimately have "wi_stream t c = wi_stream w c" using listener_okD(1) [OF wired_invD(1) [OF w], of c] listener_okD(1) [OF wired_invD(1) [OF t(1)], of c] by simp
    moreover have "session_ok G socket (wi_session t)" using crash_ok [OF t(2)] ok by simp
    ultimately show ?thesis using abandoned_slot(1) abandoned_run [OF t(2) lost] by blast
  qed
  then show ?thesis using step known_id_ignored by (intro exI [of _ ?u]) fastforce
qed

theorem hang_up_discards_unsubscription_witness:
  "\<exists>w u. (wired_step demo_env demo_clients demo_socket)\<^sup>*\<^sup>* (wired_start demo_session) w \<and> ss_point (wi_session w) 7 = M_Exit 0 \<and>
     wired_step demo_env demo_clients demo_socket w u \<and>
     (\<forall>t. (wired_step demo_env demo_clients demo_socket)\<^sup>*\<^sup>* u t \<longrightarrow> subscribed (ss_bank (wi_session t)) 7)"
proof -
  obtain w where w: "(wired_step demo_env demo_clients demo_socket)\<^sup>*\<^sup>* (wired_start demo_session) w" "in_loop w"
      "wi_comm w = CO_Events [SE_Client 7 True True]" "ss_point (wi_session w) 7 = M_Exit 0" "wi_stream w 7 \<noteq> []"
    using demo_hung_up by blast
  from hang_up_discards_unsubscription [OF demo_main demo_service_ok demo_session_ok(2,3,1) w] w(1,4) show ?thesis by blast
qed

end
