(* ===== verification/Transpose_Crash_Fair.thy ===== *)
theory Transpose_Crash_Fair
  imports Transpose_Crash Transpose_Fair
begin

text \<open>
  What becomes of the server when a client dies while its subscription is handled: runs with processes that
  are gone, fair to the two threads of the server. The dispatcher lets the handler come to the response, and
  the response is a \<open>send\<close> to a connection whose other end is gone.
\<close>

section \<open>Fair runs with processes that are gone\<close>

text \<open>A thread acts by a step of its own; the signal that \<open>send\<close> raises is a step of the thread that has called it.\<close>

definition crash_acts ::
  "'k server_env \<Rightarrow> (u32 \<Rightarrow> sys_config) \<Rightarrow> (u32 \<Rightarrow> int) \<Rightarrow> thread \<Rightarrow> 'k crash \<Rightarrow> 'k crash \<Rightarrow> bool" where
  "crash_acts E G socket th s t \<longleftrightarrow> lives s th \<and> crash_step E G socket s t \<and>
     (changes th (cr_session s) (cr_session t) \<or> th = Handler_Thread \<and> cr_server t \<noteq> cr_server s)"

definition fair_crash_run ::
  "'k server_env \<Rightarrow> (u32 \<Rightarrow> sys_config) \<Rightarrow> (u32 \<Rightarrow> int) \<Rightarrow> (nat \<Rightarrow> 'k crash) \<Rightarrow> bool" where
  "fair_crash_run E G socket run \<longleftrightarrow>
     (\<forall>i. run (Suc i) = run i \<or> crash_step E G socket (run i) (run (Suc i))) \<and>
     (\<forall>i. ws_running (sr_ws (ss_srv (cr_session (run i))))) \<and>
     (\<forall>th i. th \<in> {Handler_Thread, Dispatcher_Thread} \<longrightarrow>
        (\<exists>j \<ge> i. crash_acts E G socket th (run j) (run (Suc j)) \<or> \<not> (\<exists>t. crash_acts E G socket th (run j) t)))"

lemma fair_crash_runD:
  assumes "fair_crash_run E G socket run"
  shows "run (Suc i) = run i \<or> crash_step E G socket (run i) (run (Suc i))"
    "ws_running (sr_ws (ss_srv (cr_session (run i))))"
    "th \<in> {Handler_Thread, Dispatcher_Thread} \<Longrightarrow>
       \<exists>j \<ge> i. crash_acts E G socket th (run j) (run (Suc j)) \<or> \<not> (\<exists>t. crash_acts E G socket th (run j) t)"
  using assms unfolding fair_crash_run_def by blast+

lemma crash_session_step:
  "crash_step E G socket s t \<Longrightarrow> cr_session t = cr_session s \<or> session_step E G socket (cr_session s) (cr_session t)"
  by (rule crash_sim.simulates) simp_all

lemma dispatcher_wires:
  assumes "acts E G socket Dispatcher_Thread s t"
  shows "ss_wire t = ss_wire s"
proof -
  have step: "session_step E G socket s t" and ch: "changes Dispatcher_Thread s t" using assms by (simp_all add: acts_def)
  from step show ?thesis
  proof cases
    case (m_subscribe c msg)
    then show ?thesis using ch by simp
  next
    case (m_unsubscribe c msg)
    then show ?thesis using ch by simp
  next
    case (s_receive c msg rest ws)
    then show ?thesis using ch by simp
  qed simp_all
qed

text \<open>While the server lives its dispatcher can do with dead clients what it can do without.\<close>

lemma dispatcher_crash_acts:
  assumes "acts E G socket Dispatcher_Thread (cr_session s) u" "cr_server s"
  shows "crash_acts E G socket Dispatcher_Thread s (s\<lparr>cr_session := u\<rparr>)"
proof -
  have "crash_step E G socket s (s\<lparr>cr_session := u\<rparr>)"
    using assms dispatcher_wires [OF assms(1)] by (intro crash_run [of E G socket Dispatcher_Thread]) (simp_all add: closed_wires_def)
  then show ?thesis using assms by (simp add: crash_acts_def acts_def)
qed

lemma session_of_fair_crash:
  assumes "fair_crash_run E G socket run" "\<And>i. cr_server (run i)"
  shows "fair_for E G socket (\<lambda>_. False) (\<lambda>i. cr_session (run i))"
  unfolding fair_for_def
proof (intro conjI allI impI)
  show "cr_session (run (Suc i)) = cr_session (run i) \<or> session_step E G socket (cr_session (run i)) (cr_session (run (Suc i)))" for i
    using fair_crash_runD(1) [OF assms(1), of i] crash_session_step by metis
  show "ws_running (sr_ws (ss_srv (cr_session (run i))))" for i by (rule fair_crash_runD(2) [OF assms(1)])
  fix th i assume "False \<or> th = Dispatcher_Thread"
  then have th: "th = Dispatcher_Thread" by simp
  obtain j where j: "i \<le> j"
      "crash_acts E G socket th (run j) (run (Suc j)) \<or> \<not> (\<exists>t. crash_acts E G socket th (run j) t)"
    using fair_crash_runD(3) [OF assms(1), of th i] th by blast
  have "acts E G socket th (cr_session (run j)) (cr_session (run (Suc j)))" if a: "crash_acts E G socket th (run j) (run (Suc j))"
  proof -
    have "changes th (cr_session (run j)) (cr_session (run (Suc j)))" using a th by (simp add: crash_acts_def)
    moreover from this have "cr_session (run (Suc j)) \<noteq> cr_session (run j)" using th by auto
    ultimately show ?thesis using a crash_session_step [of E G socket "run j" "run (Suc j)"] by (simp add: crash_acts_def acts_def)
  qed
  moreover have "\<exists>t. crash_acts E G socket th (run j) t" if "acts E G socket th (cr_session (run j)) u" for u
    using dispatcher_crash_acts that assms(2) th by blast
  ultimately show "\<exists>j \<ge> i. acts E G socket th (cr_session (run j)) (cr_session (run (Suc j))) \<or>
      \<not> (\<exists>t. acts E G socket th (cr_session (run j)) t)" using j by blast
qed

text \<open>A server that has not been told to stop has a dispatcher.\<close>

lemma running_alive:
  assumes "(session_step E G socket)\<^sup>*\<^sup>* s t" "session_alive G socket s" "ws_running (sr_ws (ss_srv t))"
  shows "session_alive G socket t"
  using assms
proof (induction rule: rtranclp_induct)
  case (step t u)
  have "ws_running (sr_ws (ss_srv t))"
    using some_thread_acts [OF step.hyps(2)] step.prems(2) by (auto simp: stopped_def dest: acts_keeps_running)
  from stays_alive [OF step.IH [OF step.prems(1) this] step.hyps(2) step.prems(2)] show ?case .
qed

lemma running_before:
  assumes "(session_step E G socket)\<^sup>*\<^sup>* s t" "ws_running (sr_ws (ss_srv t))"
  shows "ws_running (sr_ws (ss_srv s))"
  using assms
proof (induction rule: rtranclp_induct)
  case (step t u)
  have "ws_running (sr_ws (ss_srv t))"
    using some_thread_acts [OF step.hyps(2)] step.prems by (auto simp: stopped_def dest: acts_keeps_running)
  then show ?case by (rule step.IH)
qed

section \<open>The handler at the subscription of a dead client\<close>

text \<open>Where the handler is with the subscription of \<open>c\<close>: setting up its slot, or adding it and about to answer.\<close>

definition subscribing :: "u32 \<Rightarrow> handler_pc \<Rightarrow> errand" where
  "subscribing c h = errand_for h [] c"

lemma subscribing_step:
  assumes "session_ok G socket (cr_session s)" "crash_step E G socket s t" "c \<in> cr_dead s"
    "subscribing c (sr_handler (ss_srv (cr_session s))) \<in> {Setting_Up, Adding}"
  shows "sr_sent (ss_srv (cr_session t)) = sr_sent (ss_srv (cr_session s))"
    "subscribing c (sr_handler (ss_srv (cr_session t))) \<in> {Setting_Up, Adding} \<and>
       (subscribing c (sr_handler (ss_srv (cr_session s))) = Adding \<longrightarrow> subscribing c (sr_handler (ss_srv (cr_session t))) = Adding) \<or>
     subscribing c (sr_handler (ss_srv (cr_session s))) = Setting_Up \<and> sr_handler (ss_srv (cr_session t)) = H_Idle \<and>
       ss_out (cr_session t) = ss_out (cr_session s) @ [refusal_line c]"
proof -
  let ?s = "cr_session s" and ?t = "cr_session t"
  let ?goal = "sr_sent (ss_srv ?t) = sr_sent (ss_srv ?s) \<and>
    (subscribing c (sr_handler (ss_srv ?t)) \<in> {Setting_Up, Adding} \<and>
       (subscribing c (sr_handler (ss_srv ?s)) = Adding \<longrightarrow> subscribing c (sr_handler (ss_srv ?t)) = Adding) \<or>
     subscribing c (sr_handler (ss_srv ?s)) = Setting_Up \<and> sr_handler (ss_srv ?t) = H_Idle \<and>
       ss_out ?t = ss_out ?s @ [refusal_line c])"
  have busy: "sr_handler (ss_srv ?s) \<noteq> H_Idle" using assms(4) by (auto simp: subscribing_def)
  have same: ?goal if "sr_handler (ss_srv ?t) = sr_handler (ss_srv ?s)" "sr_sent (ss_srv ?t) = sr_sent (ss_srv ?s)"
    using that assms(4) by simp
  have ?goal
    using assms(2)
  proof cases
    case (crash_run th u)
    then have u: "?t = u" and step: "session_step E G socket ?s u" and ch: "changes th ?s u" by (simp_all add: acts_def)
    from step show ?thesis
    proof cases
      case (s_handler r)
      then have "changes Handler_Thread ?s u" using busy_handler_changes [OF s_handler(3,2)] by simp
      from thread_keeps [OF step ch this] have "\<not> broken_pipe s" using crash_run(5) by simp
      then have pipe: "sr_handler (ss_srv ?s) \<noteq> H_Add_Respond sk c" for sk using assms(3) by (auto simp: broken_pipe_iff)
      have def: "sr_handler r \<noteq> H_Undefined" by (rule busy_handler_defined [OF assms(1) busy s_handler(3)])
      from s_handler(3) show ?thesis
        unfolding u
        by (cases rule: handler_step.cases)
          (use s_handler(1) assms(4) pipe def in \<open>auto simp: subscribing_def refusal_line_def split: if_splits\<close>)
    next
      case (s_dispatcher r)
      have "sr_handler r = sr_handler (ss_srv ?s) \<and> sr_sent r = sr_sent (ss_srv ?s)" using s_dispatcher(2) by (cases) simp_all
      then show ?thesis using s_dispatcher(1) u by (intro same) simp_all
    next
      case (s_serve i v)
      then show ?thesis using serve_keeps(1) [OF s_serve(3)] serve_same_stage(1) [OF s_serve(3)] u by (intro same) (simp_all add: same_stage_def)
    next
      case (s_receive d msg rest ws)
      then show ?thesis using busy by simp
    qed (rule same; simp add: u)+
  qed (rule same; simp add: stopped_def)+
  then show "sr_sent (ss_srv ?t) = sr_sent (ss_srv ?s)"
    "subscribing c (sr_handler (ss_srv ?t)) \<in> {Setting_Up, Adding} \<and>
       (subscribing c (sr_handler (ss_srv ?s)) = Adding \<longrightarrow> subscribing c (sr_handler (ss_srv ?t)) = Adding) \<or>
     subscribing c (sr_handler (ss_srv ?s)) = Setting_Up \<and> sr_handler (ss_srv ?t) = H_Idle \<and>
       ss_out ?t = ss_out ?s @ [refusal_line c]" by blast+
qed

section \<open>The server does not survive it\<close>

text \<open>While it lives the handler would go on for ever, to a response that cannot be sent.\<close>

lemma handler_can_act:
  assumes "session_ok G socket (cr_session s)" "\<not> ws_updateAvailable (sr_ws (ss_srv (cr_session s)))"
    "cr_server s" "c \<in> cr_dead s" "subscribing c (sr_handler (ss_srv (cr_session s))) \<in> {Setting_Up, Adding}"
  shows "\<exists>t. crash_acts E G socket Handler_Thread s t"
proof (cases "broken_pipe s")
  case True
  from crash_pipe [OF assms(3) this, of E G socket] assms(3)
  have "crash_acts E G socket Handler_Thread s (s\<lparr>cr_server := False\<rparr>)" by (simp add: crash_acts_def)
  then show ?thesis by blast
next
  case False
  note ok = session_okD [OF assms(1)]
  have busy: "sr_handler (ss_srv (cr_session s)) \<notin> {H_Idle, H_Undefined}" using assms(5) by (auto simp: subscribing_def)
  have "honest G (sr_handler (ss_srv (cr_session s)))" "\<forall>c. config_ok (G c)" using service_invD(3) [OF ok(5)] ok(7) by blast+
  from busy_handler_next [OF busy assms(2) this, of E] obtain r
    where r: "handler_step E (ss_srv (cr_session s)) r" "sr_handler r \<noteq> sr_handler (ss_srv (cr_session s))" by fastforce
  have "sr_handler (ss_srv (cr_session s)) \<noteq> H_Idle" using busy by simp
  from s_handler [OF this r(1), of G socket] r(2) obtain u
    where u: "acts E G socket Handler_Thread (cr_session s) u" "ss_wire u = ss_wire (cr_session s)" unfolding acts_def by fastforce
  have "crash_step E G socket s (s\<lparr>cr_session := u\<rparr>)"
    using u assms(3) False by (intro crash_run [of E G socket Handler_Thread]) (simp_all add: closed_wires_def)
  then have "crash_acts E G socket Handler_Thread s (s\<lparr>cr_session := u\<rparr>)" using u(1) assms(3) by (simp add: crash_acts_def acts_def)
  then show ?thesis by blast
qed

lemma server_gone_for_good:
  assumes "fair_crash_run E G socket run" "\<not> cr_server (run n)" "n \<le> i"
  shows "\<not> cr_server (run i)"
  using assms(3)
proof (induction i rule: dec_induct)
  case (step i)
  from fair_crash_runD(1) [OF assms(1), of i] show ?case using step.IH by (auto elim: crash_step.cases)
qed (rule assms(2))

lemma server_ends:
  assumes "fair_crash_run E G socket run" "session_alive G socket (cr_session (run 0))"
    "\<And>i. c \<in> cr_dead (run i)" "\<And>i. subscribing c (sr_handler (ss_srv (cr_session (run i)))) \<in> {Setting_Up, Adding}"
  shows "\<exists>n. \<not> cr_server (run n)"
proof (rule ccontr)
  assume "\<not> ?thesis"
  then have lives: "cr_server (run i)" for i by blast
  note fair = session_of_fair_crash [OF assms(1) lives]
  obtain n where n: "settled G (\<lambda>i. cr_session (run i)) n" using run_comes_to_rest [OF fair assms(2)] by blast
  have "\<exists>t. crash_acts E G socket Handler_Thread (run l) t" if "n \<le> l" for l
    by (rule handler_can_act [OF session_aliveD(1) [OF run_alive [OF fair assms(2)]] rest_flag_down [OF fair assms(2) n that] lives assms(3,4)])
  then obtain j where j: "n \<le> j" "crash_acts E G socket Handler_Thread (run j) (run (Suc j))"
    using fair_crash_runD(3) [OF assms(1), of Handler_Thread n] by blast
  then have le: "n \<le> Suc j" by simp
  from settledD(2,4) [OF n le j(1)] j(2) lives show False by (simp add: crash_acts_def)
qed

section \<open>Executions\<close>

lemma crash_acts_running:
  assumes "crash_acts E G socket th s t"
  shows "ws_running (sr_ws (ss_srv (cr_session t))) = ws_running (sr_ws (ss_srv (cr_session s)))"
proof -
  have "crash_step E G socket s t" "changes th (cr_session s) (cr_session t) \<or> th = Handler_Thread \<and> cr_server t \<noteq> cr_server s"
    using assms by (simp_all add: crash_acts_def)
  then show ?thesis
  proof (cases rule: crash_step.cases)
    case crash_stop
    then show ?thesis using assms by (cases th) (simp_all add: crash_acts_def stopped_def)
  qed (auto dest: acts_keeps_running)
qed

lemma fair_crash_run_of:
  assumes "ws_running (sr_ws (ss_srv (cr_session s)))"
  shows "\<exists>run. fair_crash_run E G socket run \<and> run 0 = s"
proof -
  let ?P = "\<lambda>th. th \<in> {Handler_Thread, Dispatcher_Thread}"
  obtain run where run: "run 0 = s"
      "\<And>i. run (Suc i) = run i \<or> (\<exists>th. ?P th \<and> crash_acts E G socket th (run i) (run (Suc i)))"
      "\<And>th i. ?P th \<Longrightarrow> \<exists>j \<ge> i. crash_acts E G socket th (run j) (run (Suc j)) \<or> \<not> (\<exists>t. crash_acts E G socket th (run j) t)"
    using fair_schedule [of thread_at s ?P "crash_acts E G socket"] thread_recurs by blast
  have "ws_running (sr_ws (ss_srv (cr_session (run i))))" for i
  proof (induction i)
    case (Suc i)
    then show ?case using run(2) [of i] crash_acts_running by metis
  qed (simp add: run(1) assms)
  moreover have "run (Suc i) = run i \<or> crash_step E G socket (run i) (run (Suc i))" for i
    using run(2) [of i] by (auto simp: crash_acts_def)
  ultimately show ?thesis unfolding fair_crash_run_def using run(1,3) by blast
qed

section \<open>Properties\<close>

text \<open>Property C21: a client that is gone before its response has been sent takes the server with it. Let its process
  be gone while the handler is at its subscription, whether it is still setting up the slot, waiting for the
  dispatcher or about to answer. In every run that is fair to the server's two threads, whatever the other
  clients do, the call of the handler is never left, no client is sent anything any more, and the
  server comes to its end by the signal that the \<open>send\<close> of the response raises; unless the set-up of the
  slot was not done yet and fails, which is logged. The clients have matrices as in \<open>config_ok\<close>.\<close>

theorem client_death_ends_server:
  assumes "server_main S hardware argv pid net = (Inr (Some (ipc, ws)), net')" "store_ready G store"
    "\<forall>c. config_ok (G c) \<and> sg_threads (G c) = ws_numWorkerThreads ws" "work_ready G work" "references_ready G store"
    "inj socket" "(crash_step E G socket)\<^sup>*\<^sup>* (crash_start (session_start ws kern store work)) (run 0)"
    "fair_crash_run E G socket run" "c \<in> cr_dead (run 0)"
    "subscribing c (sr_handler (ss_srv (cr_session (run 0)))) \<in> {Setting_Up, Adding}"
  shows "(\<exists>n. \<forall>i \<ge> n. \<not> cr_server (run i)) \<and>
      (\<forall>i. subscribing c (sr_handler (ss_srv (cr_session (run i)))) \<in> {Setting_Up, Adding} \<and>
         sr_sent (ss_srv (cr_session (run i))) = sr_sent (ss_srv (cr_session (run 0)))) \<or>
    subscribing c (sr_handler (ss_srv (cr_session (run 0)))) = Setting_Up \<and>
      (\<exists>i. subscribing c (sr_handler (ss_srv (cr_session (run i)))) = Setting_Up \<and> sr_handler (ss_srv (cr_session (run (Suc i)))) = H_Idle \<and>
         ss_out (cr_session (run (Suc i))) = ss_out (cr_session (run i)) @ [''Failed to add client PID: '' @ dec (unat c) @ [CHR 0x0A]])"
proof -
  let ?at = "\<lambda>i. subscribing c (sr_handler (ss_srv (cr_session (run i))))"
  let ?sent = "\<lambda>i. sr_sent (ss_srv (cr_session (run i)))"
  let ?fails = "\<lambda>i. ?at i = Setting_Up \<and> sr_handler (ss_srv (cr_session (run (Suc i)))) = H_Idle \<and>
      ss_out (cr_session (run (Suc i))) = ss_out (cr_session (run i)) @ [refusal_line c]"
  note st = fair_crash_runD(1) [OF assms(8)]
  have "ws_running ws"
    using running_before [OF crash_session [OF assms(7)] fair_crash_runD(2) [OF assms(8)]]
    by (simp add: crash_start_def session_start_def service_start_def srv_start_def)
  then have "session_alive G socket (cr_session (crash_start (session_start ws kern store work)))"
    using start_alive [OF assms(1-6)] by (simp add: crash_start_def)
  from running_alive [OF crash_session [OF assms(7)] this fair_crash_runD(2) [OF assms(8)]]
  have alive: "session_alive G socket (cr_session (run 0))" .
  have dead: "c \<in> cr_dead (run i)" for i
  proof (induction i)
    case (Suc i)
    then show ?case using st [of i] dead_step(1) by metis
  qed (rule assms(9))
  have ok: "session_ok G socket (cr_session (run i))" for i
  proof (induction i)
    case (Suc i)
    then show ?case using st [of i] crash_ok [OF r_into_rtranclp [of "crash_step E G socket"]] by metis
  qed (rule session_aliveD(1) [OF alive])
  have onward: "?at (Suc i) \<in> {Setting_Up, Adding} \<and> ?sent (Suc i) = ?sent i \<and> (?at i = Adding \<longrightarrow> ?at (Suc i) = Adding) \<or> ?fails i"
    if "?at i \<in> {Setting_Up, Adding}" for i
    using st [of i]
  proof
    assume "crash_step E G socket (run i) (run (Suc i))"
    from subscribing_step [OF ok this dead that] show ?thesis by blast
  qed (use that in simp)
  show ?thesis
  proof (cases "?at 0 = Setting_Up \<and> (\<exists>i. ?fails i)")
    case False
    have stays: "?at i \<in> {Setting_Up, Adding} \<and> ?sent i = ?sent 0 \<and> (?at 0 = Adding \<longrightarrow> ?at i = Adding)" for i
    proof (induction i)
      case (Suc i)
      then have "?at i \<in> {Setting_Up, Adding}" by blast
      from onward [OF this] show ?case using Suc.IH False assms(10) by auto
    qed (use assms(10) in simp)
    obtain n where "\<not> cr_server (run n)" using server_ends [OF assms(8) alive dead] stays by blast
    from server_gone_for_good [OF assms(8) this] stays show ?thesis by blast
  qed (auto simp: refusal_line_def)
qed

theorem client_death_ends_server_witness:
  "\<exists>run. (crash_step demo_env demo_clients demo_socket)\<^sup>*\<^sup>* (crash_start demo_session) (run 0) \<and>
     fair_crash_run demo_env demo_clients demo_socket run \<and> 7 \<in> cr_dead (run 0) \<and> (\<exists>n. \<forall>i \<ge> n. \<not> cr_server (run i))"
proof -
  obtain a where a: "(session_step demo_env demo_clients demo_socket)\<^sup>*\<^sup>* demo_session a" "sr_handler (ss_srv a) = H_Add_Respond 5 7"
      "ws_running (sr_ws (ss_srv a))"
    using demo_answering by blast
  let ?s = "crash_start a\<lparr>cr_dead := {7}\<rparr>"
  have s: "(crash_step demo_env demo_clients demo_socket)\<^sup>*\<^sup>* (crash_start demo_session) ?s" by (rule killed [OF a(1)])
  have "ws_running (sr_ws (ss_srv (cr_session ?s)))" using a(3) by (simp add: crash_start_def)
  from fair_crash_run_of [OF this, of demo_env demo_clients demo_socket] obtain run
    where run: "fair_crash_run demo_env demo_clients demo_socket run" "run 0 = ?s" by blast
  have at: "subscribing 7 (sr_handler (ss_srv (cr_session (run 0)))) = Adding" using a(2) by (simp add: run(2) crash_start_def subscribing_def)
  have reach: "(crash_step demo_env demo_clients demo_socket)\<^sup>*\<^sup>* (crash_start demo_session) (run 0)" using s run(2) by simp
  have "7 \<in> cr_dead (run 0)" by (simp add: run(2))
  from client_death_ends_server [OF demo_main demo_service_ok demo_session_ok(2,3,1) reach run(1) this] at
  have "\<exists>n. \<forall>i \<ge> n. \<not> cr_server (run i)" by auto
  with reach run(1) \<open>7 \<in> cr_dead (run 0)\<close> show ?thesis by blast
qed

end
