(* ===== verification/Result_Handover.thy ===== *)
theory Result_Handover
  imports Futex_Signaller Weak_Memory
begin

text \<open>
  How the results get from the dispatcher to the client, in the memory of \<open>Weak_Memory\<close>: the client's loop
  of requests with its \<open>Wait\<close>, the dispatcher with its \<open>Wake\<close>, the futex word with the orders of the two
  compare-and-swaps, and the result buffers as plain objects that the dispatcher writes and the client
  reads in its final check. A compare-and-swap that fails is a load and may see an old value. The queue of
  the requests is here one that hands over what its producer has seen, as \<open>Spsc_RingBuffer_RA\<close> shows of
  the ring buffer; its two orders are parameters like those of the futex word.
\<close>

section \<open>The state\<close>

datatype side = Client_Side | Server_Side

datatype shared_word = Request_Queue | Futex_Word

text \<open>
  The history of \<open>Request_Queue\<close> has, after a first entry that stands for the empty queue, one entry for
  each request ever made, with the index of the buffer. A buffer holds the elements of the matrix.
\<close>

type_synonym handover_memory = "(shared_word, u32, side, u32, u64 list) memory"

text \<open>
  The orders: of \<open>Enqueue\<close> and \<open>Dequeue\<close>, and of the two compare-and-swaps when they succeed and when they
  fail. The code gives none to the swaps, so that both are sequentially consistent, of which the acquire
  and release part is what is used here.
\<close>

record signal_orders =
  so_enqueue :: memory_order
  so_dequeue :: memory_order
  so_wait :: memory_order
  so_wait_fails :: memory_order
  so_wake :: memory_order
  so_wake_fails :: memory_order

definition signaller_orders :: signal_orders where
  "signaller_orders = \<lparr>so_enqueue = MO_Release, so_dequeue = MO_Acquire, so_wait = MO_AcqRel, so_wait_fails = MO_Acquire,
     so_wake = MO_AcqRel, so_wake_fails = MO_Acquire\<rparr>"

text \<open>
  The client: about to make its request \<open>n\<close>; in \<open>Wait\<close> for it, about to try the swap, about to call
  \<open>FUTEX_WAIT\<close>, or asleep in it; in the final check, with the buffers it has still to read. The dispatcher,
  with \<open>d\<close> requests served: polling the queue; about to write the result; about to try the swap of \<open>Wake\<close>;
  about to call \<open>FUTEX_WAKE\<close>.
\<close>

datatype asker = HC_Next nat | HC_Try nat | HC_Call nat | HC_Asleep nat | HC_Check "u32 list"

datatype answerer = HS_Poll nat | HS_Work nat u32 | HS_Wake nat | HS_Call nat

record handover =
  ho_mem :: handover_memory
  ho_client :: asker
  ho_server :: answerer
  ho_seen :: "u64 list list"
  ho_undefined :: bool

text \<open>The requests of the double loop, one after the other.\<close>

definition requests :: "u32 \<Rightarrow> u32 \<Rightarrow> u32 list" where
  "requests repetitions k = concat (replicate (unat repetitions) (word_range 0 k))"

section \<open>The accesses\<close>

definition client_move ::
  "signal_orders \<Rightarrow> futex_kernel \<Rightarrow> u32 \<Rightarrow> u32 \<Rightarrow> nat option \<Rightarrow> handover \<Rightarrow> handover option" where
  "client_move ords K repetitions k i s =
     (case ho_client s of
        HC_Next n \<Rightarrow>
          if n < length (requests repetitions k)
          then Some (case atomic_store (so_enqueue ords) Client_Side Request_Queue (requests repetitions k ! n) (ho_mem s) of
              None \<Rightarrow> s\<lparr>ho_undefined := True\<rparr>
            | Some M \<Rightarrow> s\<lparr>ho_mem := M, ho_client := HC_Try n\<rparr>)
          else Some (s\<lparr>ho_client := HC_Check (word_range 0 k)\<rparr>)
      | HC_Try n \<Rightarrow>
          (case atomic_cas (so_wait ords) (so_wait_fails ords) Client_Side Futex_Word 1 0 i (ho_mem s) of
             None \<Rightarrow> None
           | Some (taken, M) \<Rightarrow> Some (s\<lparr>ho_mem := M, ho_client := if taken then HC_Next (n + 1) else HC_Call n\<rparr>))
      | HC_Call n \<Rightarrow>
          Some (s\<lparr>ho_client := if i = None \<and> fk_blocks K (fst (last (mm_hist (ho_mem s) Futex_Word))) 0 then HC_Asleep n else HC_Try n\<rparr>)
      | HC_Asleep n \<Rightarrow> Some (s\<lparr>ho_client := HC_Try n\<rparr>)
      | HC_Check [] \<Rightarrow> None
      | HC_Check (b # rest) \<Rightarrow>
          Some (case plain_read Client_Side b (ho_mem s) of
             None \<Rightarrow> s\<lparr>ho_undefined := True\<rparr>
           | Some (tr, M) \<Rightarrow> s\<lparr>ho_mem := M, ho_client := HC_Check rest, ho_seen := ho_seen s @ [tr]\<rparr>))"

text \<open>\<open>FUTEX_WAKE\<close> finds the client asleep or does nothing.\<close>

definition woken :: "futex_kernel \<Rightarrow> asker \<Rightarrow> asker" where
  "woken K p = (case p of HC_Asleep n \<Rightarrow> if 0 \<in> set (fk_wakes K INT_MAX [0]) then HC_Try n else p | _ \<Rightarrow> p)"

text \<open>\<open>T b\<close> is what the tiled routine computes for the buffer \<open>b\<close>; its workers have joined when it returns.\<close>

definition server_move ::
  "signal_orders \<Rightarrow> futex_kernel \<Rightarrow> (u32 \<Rightarrow> u64 list) \<Rightarrow> nat option \<Rightarrow> handover \<Rightarrow> handover option" where
  "server_move ords K T i s =
     (case ho_server s of
        HS_Poll d \<Rightarrow>
          (case i of None \<Rightarrow> None | Some j \<Rightarrow>
            (case atomic_load (so_dequeue ords) Server_Side Request_Queue j (ho_mem s) of
               None \<Rightarrow> None
             | Some (b, M) \<Rightarrow> Some (s\<lparr>ho_mem := M, ho_server := if d < j then HS_Work d b else HS_Poll d\<rparr>)))
      | HS_Work d b \<Rightarrow>
          Some (case plain_write Server_Side b (T b) (ho_mem s) of
             None \<Rightarrow> s\<lparr>ho_undefined := True\<rparr>
           | Some M \<Rightarrow> s\<lparr>ho_mem := M, ho_server := HS_Wake d\<rparr>)
      | HS_Wake d \<Rightarrow>
          (case atomic_cas (so_wake ords) (so_wake_fails ords) Server_Side Futex_Word 0 1 i (ho_mem s) of
             None \<Rightarrow> None
           | Some (swapped, M) \<Rightarrow> Some (s\<lparr>ho_mem := M, ho_server := if swapped then HS_Call (d + 1) else HS_Poll (d + 1)\<rparr>))
      | HS_Call d \<Rightarrow> Some (s\<lparr>ho_client := woken K (ho_client s), ho_server := HS_Poll d\<rparr>))"

inductive handover_step ::
  "signal_orders \<Rightarrow> futex_kernel \<Rightarrow> u32 \<Rightarrow> u32 \<Rightarrow> (u32 \<Rightarrow> u64 list) \<Rightarrow> handover \<Rightarrow> handover \<Rightarrow> bool"
  for ords :: signal_orders and K :: futex_kernel and repetitions :: u32 and k :: u32 and T :: "u32 \<Rightarrow> u64 list" where
  ho_client: "client_move ords K repetitions k i s = Some t \<Longrightarrow> handover_step ords K repetitions k T s t"
| ho_server: "server_move ords K T i s = Some t \<Longrightarrow> handover_step ords K repetitions k T s t"

text \<open>The word is 0 and the results are as the client has made them; the subscription has made that known to both.\<close>

definition handover_start :: "(u32 \<Rightarrow> u64 list) \<Rightarrow> handover" where
  "handover_start zero = \<lparr>ho_mem = new_memory (\<lambda>_. 0) zero, ho_client = HC_Next 0, ho_server = HS_Poll 0,
     ho_seen = [], ho_undefined = False\<rparr>"

section \<open>The invariant\<close>

text \<open>How many requests the client has finished, and the dispatcher served.\<close>

fun finished :: "u32 list \<Rightarrow> asker \<Rightarrow> nat" where
  "finished rs (HC_Next n) = n"
| "finished rs (HC_Try n) = n"
| "finished rs (HC_Call n) = n"
| "finished rs (HC_Asleep n) = n"
| "finished rs (HC_Check bs) = length rs"

fun waiting :: "asker \<Rightarrow> bool" where
  "waiting (HC_Next n) = False"
| "waiting (HC_Check bs) = False"
| "waiting _ = True"

fun answered :: "answerer \<Rightarrow> nat" where
  "answered (HS_Poll d) = d"
| "answered (HS_Work d b) = d"
| "answered (HS_Wake d) = d"
| "answered (HS_Call d) = d"

fun busy :: "answerer \<Rightarrow> bool" where
  "busy (HS_Work d b) = True"
| "busy (HS_Wake d) = True"
| "busy _ = False"

text \<open>The results that are in their buffers.\<close>

fun written :: "answerer \<Rightarrow> nat" where
  "written (HS_Wake d) = Suc d"
| "written p = answered p"

abbreviation asked :: "u32 list \<Rightarrow> asker \<Rightarrow> nat" where
  "asked rs p \<equiv> finished rs p + (if waiting p then 1 else 0)"

text \<open>Client and dispatcher take turns: the dispatcher is at most one answer ahead, while the client waits for it.\<close>

definition turns_ok :: "u32 list \<Rightarrow> asker \<Rightarrow> answerer \<Rightarrow> bool" where
  "turns_ok rs p r \<longleftrightarrow> asked rs p \<le> length rs \<and> finished rs p \<le> answered r \<and> answered r \<le> asked rs p \<and>
     (busy r \<longrightarrow> waiting p \<and> answered r = finished rs p) \<and>
     (\<forall>n. p = HC_Asleep n \<and> answered r = Suc n \<longrightarrow> r = HS_Call (Suc n)) \<and>
     (\<forall>d b. r = HS_Work d b \<longrightarrow> b = rs ! d)"

text \<open>What the two atomic objects hold.\<close>

definition words_ok :: "u32 list \<Rightarrow> handover \<Rightarrow> bool" where
  "words_ok rs s \<longleftrightarrow>
     (let q = mm_hist (ho_mem s) Request_Queue; h = mm_hist (ho_mem s) Futex_Word;
          c = finished rs (ho_client s); a = asked rs (ho_client s); d = answered (ho_server s)
      in length q = Suc a \<and> (\<forall>i < a. fst (q ! Suc i) = rs ! i) \<and>
         length h = Suc (c + d) \<and> (\<forall>i < length h. fst (h ! i) = (if even i then 0 else 1)))"

text \<open>What the threads have seen, and what is attached to the values.\<close>

definition sights_ok :: "u32 list \<Rightarrow> handover \<Rightarrow> bool" where
  "sights_ok rs s \<longleftrightarrow>
     (let M = ho_mem s; q = mm_hist M Request_Queue; h = mm_hist M Futex_Word;
          a = asked rs (ho_client s)
      in mm_view M Client_Side (Seen Request_Queue) = a \<and> mm_view M Server_Side (Seen Request_Queue) \<le> a \<and>
         (\<forall>i \<le> a. snd (q ! i) (Seen Request_Queue) \<le> a) \<and>
         (\<forall>i < length h. snd (h ! i) (Seen Request_Queue) \<le> a) \<and>
         2 * finished rs (ho_client s) \<le> mm_view M Client_Side (Seen Futex_Word) \<and>
         (\<forall>i < a. 2 * i \<le> snd (q ! Suc i) (Seen Futex_Word)) \<and>
         (busy (ho_server s) \<longrightarrow> 2 * answered (ho_server s) \<le> mm_view M Server_Side (Seen Futex_Word)))"

text \<open>The accesses to the buffers: who can know of what.\<close>

definition buffers_ok :: "(u32 \<Rightarrow> u64 list) \<Rightarrow> u32 list \<Rightarrow> handover \<Rightarrow> bool" where
  "buffers_ok T rs s \<longleftrightarrow>
     (let M = ho_mem s
      in (\<forall>b. mm_writes M b Client_Side = 0 \<and> mm_reads M b Server_Side = 0 \<and>
            mm_writes M b Server_Side \<le> mm_view M Server_Side (Clk Server_Side) \<and>
            (\<not> waiting (ho_client s) \<longrightarrow> mm_writes M b Server_Side \<le> mm_view M Client_Side (Clk Server_Side)) \<and>
            (answered (ho_server s) = Suc (finished rs (ho_client s)) \<longrightarrow>
               mm_writes M b Server_Side \<le> snd (last (mm_hist M Futex_Word)) (Clk Server_Side))) \<and>
         (\<forall>i < written (ho_server s). mm_plain M (rs ! i) = T (rs ! i)))"

definition check_ok :: "(u32 \<Rightarrow> u64 list) \<Rightarrow> u32 list \<Rightarrow> handover \<Rightarrow> bool" where
  "check_ok T bs s \<longleftrightarrow> (case ho_client s of HC_Check rest \<Rightarrow> (\<exists>j \<le> length bs. rest = drop j bs \<and> ho_seen s = map T (take j bs))
     | _ \<Rightarrow> ho_seen s = [] \<and> (\<forall>b. mm_reads (ho_mem s) b Client_Side = 0))"

definition handover_inv :: "u32 \<Rightarrow> u32 \<Rightarrow> (u32 \<Rightarrow> u64 list) \<Rightarrow> handover \<Rightarrow> bool" where
  "handover_inv repetitions k T s \<longleftrightarrow>
     (let rs = requests repetitions k
      in \<not> ho_undefined s \<and> turns_ok rs (ho_client s) (ho_server s) \<and> words_ok rs s \<and> sights_ok rs s \<and> buffers_ok T rs s \<and>
         check_ok T (word_range 0 k) s)"

lemma handover_start_inv: "handover_inv repetitions k T (handover_start zero)"
  by (simp add: handover_inv_def Let_def handover_start_def turns_ok_def words_ok_def sights_ok_def buffers_ok_def check_ok_def
      new_memory_def)

lemma handover_invD:
  assumes "handover_inv repetitions k T s"
  defines "rs \<equiv> requests repetitions k"
  shows "\<not> ho_undefined s" "turns_ok rs (ho_client s) (ho_server s)" "words_ok rs s" "sights_ok rs s" "buffers_ok T rs s"
    "check_ok T (word_range 0 k) s"
  using assms by (simp_all add: handover_inv_def Let_def)

lemma words_okD:
  assumes "words_ok rs s"
  defines "q \<equiv> mm_hist (ho_mem s) Request_Queue" and "h \<equiv> mm_hist (ho_mem s) Futex_Word"
  shows "length q = Suc (asked rs (ho_client s))" "\<And>i. i < asked rs (ho_client s) \<Longrightarrow> fst (q ! Suc i) = rs ! i"
    "length h = Suc (finished rs (ho_client s) + answered (ho_server s))"
    "\<And>i. i < length h \<Longrightarrow> fst (h ! i) = (if even i then 0 else 1)"
  using assms(1) by (simp_all add: words_ok_def Let_def q_def h_def)

text \<open>The newest value of the futex word tells whether there is an answer that the client has not taken.\<close>

lemma newest_word:
  assumes "words_ok rs s" "turns_ok rs (ho_client s) (ho_server s)"
  shows "fst (last (mm_hist (ho_mem s) Futex_Word)) = (if answered (ho_server s) = finished rs (ho_client s) then 0 else 1)"
proof -
  note w = words_okD [OF assms(1)]
  have "answered (ho_server s) = finished rs (ho_client s) \<or> answered (ho_server s) = Suc (finished rs (ho_client s))"
    using assms(2) by (auto simp: turns_ok_def split: if_splits)
  moreover have "mm_hist (ho_mem s) Futex_Word \<noteq> []" using w(3) by auto
  ultimately show ?thesis using w(3) w(4) [of "finished rs (ho_client s) + answered (ho_server s)"]
    by (auto simp: last_conv_nth)
qed

lemma sights_okD:
  assumes "sights_ok rs s"
  defines "M \<equiv> ho_mem s" and "a \<equiv> asked rs (ho_client s)"
  shows "mm_view M Client_Side (Seen Request_Queue) = a" "mm_view M Server_Side (Seen Request_Queue) \<le> a"
    "\<And>i. i \<le> a \<Longrightarrow> snd (mm_hist M Request_Queue ! i) (Seen Request_Queue) \<le> a"
    "\<And>i. i < length (mm_hist M Futex_Word) \<Longrightarrow> snd (mm_hist M Futex_Word ! i) (Seen Request_Queue) \<le> a"
    "2 * finished rs (ho_client s) \<le> mm_view M Client_Side (Seen Futex_Word)"
    "\<And>i. i < a \<Longrightarrow> 2 * i \<le> snd (mm_hist M Request_Queue ! Suc i) (Seen Futex_Word)"
    "busy (ho_server s) \<Longrightarrow> 2 * answered (ho_server s) \<le> mm_view M Server_Side (Seen Futex_Word)"
  using assms(1) by (simp_all add: sights_ok_def Let_def M_def a_def)

lemma buffers_okD:
  assumes "buffers_ok T rs s"
  defines "M \<equiv> ho_mem s"
  shows "mm_writes M b Client_Side = 0" "mm_reads M b Server_Side = 0"
    "mm_writes M b Server_Side \<le> mm_view M Server_Side (Clk Server_Side)"
    "\<not> waiting (ho_client s) \<Longrightarrow> mm_writes M b Server_Side \<le> mm_view M Client_Side (Clk Server_Side)"
    "answered (ho_server s) = Suc (finished rs (ho_client s)) \<Longrightarrow>
       mm_writes M b Server_Side \<le> snd (last (mm_hist M Futex_Word)) (Clk Server_Side)"
    "\<And>i. i < written (ho_server s) \<Longrightarrow> mm_plain M (rs ! i) = T (rs ! i)"
  using assms(1) by (simp_all add: buffers_ok_def Let_def M_def)

lemma handover_invI:
  assumes "\<not> ho_undefined s" "turns_ok (requests repetitions k) (ho_client s) (ho_server s)"
    "words_ok (requests repetitions k) s" "sights_ok (requests repetitions k) s" "buffers_ok T (requests repetitions k) s"
    "check_ok T (word_range 0 k) s"
  shows "handover_inv repetitions k T s"
  using assms by (simp add: handover_inv_def Let_def)


section \<open>The invariant is kept\<close>

lemma client_next_inv:
  assumes "handover_inv repetitions k T s" "ho_client s = HC_Next n"
    "client_move signaller_orders K repetitions k i s = Some t"
  shows "handover_inv repetitions k T t"
proof (cases "n < length (requests repetitions k)")
  let ?rs = "requests repetitions k"
  note inv = handover_invD [OF assms(1)]
  note w = words_okD [OF inv(3)] and v = sights_okD [OF inv(4)] and b = buffers_okD [OF inv(5)]
  {
    case True
    have sup: "Suc (mm_view (ho_mem s) Client_Side (Seen Request_Queue)) = length (mm_hist (ho_mem s) Request_Queue)"
      using v(1) w(1) by simp
    obtain M where t: "t = s\<lparr>ho_mem := M, ho_client := HC_Try n\<rparr>"
      and M: "atomic_store MO_Release Client_Side Request_Queue (?rs ! n) (ho_mem s) = Some M"
      using assms(2,3) sup True by (auto simp: client_move_def signaller_orders_def atomic_store_def Let_def)
    note M = M [unfolded atomic_store_def Let_def, simplified sup, simplified, symmetric]
    have lens: "length (mm_hist (ho_mem s) Request_Queue) = Suc n" using w(1) assms(2) by simp
    show ?thesis
    proof (rule handover_invI)
      show "\<not> ho_undefined t" using inv(1) by (simp add: t)
      show "turns_ok ?rs (ho_client t) (ho_server t)" using inv(2) assms(2) True by (auto simp: t turns_ok_def)
      show "words_ok ?rs t" using w assms(2) by (auto simp: t M words_ok_def nth_append less_Suc_eq)
      show "sights_ok ?rs t" using v assms(2) lens by (auto simp: t M sights_ok_def nth_append less_Suc_eq le_Suc_eq)
      show "buffers_ok T ?rs t" using b assms(2) by (auto simp: t M buffers_ok_def)
      show "check_ok T (word_range 0 k) t" using inv(6) assms(2) by (auto simp: t M check_ok_def)
    qed
  next
    case False
    then have t: "t = s\<lparr>ho_client := HC_Check (word_range 0 k)\<rparr>" using assms(2,3) by (simp add: client_move_def)
    have n: "n = length ?rs" using inv(2) False assms(2) by (simp add: turns_ok_def)
    show ?thesis
    proof (rule handover_invI)
      show "\<not> ho_undefined t" using inv(1) by (simp add: t)
      show "turns_ok ?rs (ho_client t) (ho_server t)" using inv(2) assms(2) n by (auto simp: t turns_ok_def)
      show "words_ok ?rs t" using w assms(2) n by (auto simp: t words_ok_def)
      show "sights_ok ?rs t" using v assms(2) n by (auto simp: t sights_ok_def)
      show "buffers_ok T ?rs t" using b assms(2) n by (auto simp: t buffers_ok_def)
      show "check_ok T (word_range 0 k) t" using inv(6) assms(2) by (auto simp: t check_ok_def)
    qed
  }
qed


lemma client_try_inv:
  assumes "handover_inv repetitions k T s" "ho_client s = HC_Try n"
    "client_move signaller_orders K repetitions k i s = Some t"
  shows "handover_inv repetitions k T t"
proof (cases i)
  let ?rs = "requests repetitions k" and ?h = "mm_hist (ho_mem s) Futex_Word" and ?cv = "mm_view (ho_mem s) Client_Side"
  note inv = handover_invD [OF assms(1)]
  note w = words_okD [OF inv(3)] and v = sights_okD [OF inv(4)] and b = buffers_okD [OF inv(5)]
  {
    case None
    then have "fst (last ?h) = 1" and t: "t = s\<lparr>ho_mem := snd (atomic_rmw MO_AcqRel Client_Side Futex_Word (\<lambda>_. 0) (ho_mem s)), ho_client := HC_Next (Suc n)\<rparr>"
      using assms(2,3) by (auto simp: client_move_def signaller_orders_def atomic_cas_def split: if_splits)
    then have d: "answered (ho_server s) = Suc n" "\<not> busy (ho_server s)"
      using newest_word [OF inv(3,2)] inv(2) assms(2) by (auto simp: turns_ok_def split: if_splits)
    have lens: "length ?h = Suc (Suc (2 * n))" using w(3) assms(2) d(1) by simp
    then have last: "last ?h = ?h ! Suc (2 * n)" by (cases ?h rule: rev_cases) (auto simp: nth_append)
    have M: "snd (atomic_rmw MO_AcqRel Client_Side Futex_Word (\<lambda>_. 0) (ho_mem s)) =
        (ho_mem s)\<lparr>mm_hist := (mm_hist (ho_mem s))(Futex_Word := ?h @ [(0, join (?cv(Seen Futex_Word := length ?h)) (snd (last ?h)))]),
          mm_view := (mm_view (ho_mem s))(Client_Side := join (?cv(Seen Futex_Word := length ?h)) (snd (last ?h)))\<rparr>"
      by (simp add: atomic_rmw_acqrel)
    show ?thesis
    proof (rule handover_invI)
      show "\<not> ho_undefined t" using inv(1) by (simp add: t)
      show "turns_ok ?rs (ho_client t) (ho_server t)" using inv(2) assms(2) d by (auto simp: t turns_ok_def)
      show "words_ok ?rs t" using w assms(2) d lens by (auto simp: t M words_ok_def nth_append less_Suc_eq)
      show "sights_ok ?rs t" using v assms(2) d lens by (auto simp: t M sights_ok_def nth_append less_Suc_eq last)
      show "buffers_ok T ?rs t" using b assms(2) d by (auto simp: t M buffers_ok_def le_max_iff_disj)
      show "check_ok T (word_range 0 k) t" using inv(6) assms(2) by (auto simp: t M check_ok_def)
    qed
  next
    case (Some j)
    then obtain M where t: "t = s\<lparr>ho_mem := M, ho_client := HC_Call n\<rparr>"
      and M: "M = (ho_mem s)\<lparr>mm_view := (mm_view (ho_mem s))(Client_Side := join (?cv(Seen Futex_Word := j)) (snd (?h ! j)))\<rparr>"
      and j: "?cv (Seen Futex_Word) \<le> j" "j < length ?h"
      using assms(2,3) by (auto simp: client_move_def signaller_orders_def atomic_cas_def atomic_load_def Let_def split: if_splits prod.splits)
    show ?thesis
    proof (rule handover_invI)
      show "\<not> ho_undefined t" using inv(1) by (simp add: t)
      show "turns_ok ?rs (ho_client t) (ho_server t)" using inv(2) assms(2) by (auto simp: t turns_ok_def)
      show "words_ok ?rs t" using w assms(2) by (auto simp: t M words_ok_def)
      show "sights_ok ?rs t" using v assms(2) j v(4) [OF j(2)] by (auto simp: t M sights_ok_def le_max_iff_disj)
      show "buffers_ok T ?rs t" using b assms(2) by (auto simp: t M buffers_ok_def)
      show "check_ok T (word_range 0 k) t" using inv(6) assms(2) by (auto simp: t M check_ok_def)
    qed
  }
qed

text \<open>Where only the client's point changes, inside \<open>Wait\<close>.\<close>

lemma wait_point_inv:
  assumes "handover_inv repetitions k T s" "waiting (ho_client s)" "waiting p" "finished [] p = finished [] (ho_client s)"
    and asleep: "\<forall>n. p = HC_Asleep n \<longrightarrow> answered (ho_server s) \<noteq> Suc n"
  shows "handover_inv repetitions k T (s\<lparr>ho_client := p\<rparr>)"
proof -
  have same: "finished rs p = finished rs (ho_client s)" for rs using assms(2-4) by (cases p; cases "ho_client s") auto
  note inv = handover_invD [OF assms(1)]
  let ?rs = "requests repetitions k" and ?t = "s\<lparr>ho_client := p\<rparr>"
  have "\<not> (\<exists>bs. p = HC_Check bs)" "\<not> (\<exists>bs. ho_client s = HC_Check bs)" using assms(2,3) by auto
  then have "check_ok T (word_range 0 k) ?t" using inv(6) by (simp add: check_ok_def split: asker.splits)
  moreover have "turns_ok ?rs (ho_client ?t) (ho_server ?t)" using inv(2) assms(2,3) asleep by (auto simp: turns_ok_def same)
  moreover have "words_ok ?rs ?t" using inv(3) assms(2,3) by (simp add: words_ok_def same)
  moreover have "sights_ok ?rs ?t" using inv(4) assms(2,3) by (simp add: sights_ok_def same)
  moreover have "buffers_ok T ?rs ?t" using inv(5) assms(2,3) by (simp add: buffers_ok_def same)
  ultimately show ?thesis using inv(1) by (intro handover_invI) simp_all
qed

lemma client_check_inv:
  assumes "handover_inv repetitions k T s" "ho_client s = HC_Check bs" "repetitions \<noteq> 0"
    "client_move signaller_orders K repetitions k i s = Some t"
  shows "handover_inv repetitions k T t"
proof -
  let ?rs = "requests repetitions k" and ?cv = "mm_view (ho_mem s) Client_Side"
  note inv = handover_invD [OF assms(1)]
  note w = words_okD [OF inv(3)] and v = sights_okD [OF inv(4)] and b = buffers_okD [OF inv(5)]
  obtain x rest where bs: "bs = x # rest" using assms(2,4) by (cases bs) (auto simp: client_move_def)
  obtain j where j: "j \<le> length (word_range 0 k)" "bs = drop j (word_range 0 k)" "ho_seen s = map T (take j (word_range 0 k))"
    using inv(6) assms(2) by (auto simp: check_ok_def)
  have lt: "j < length (word_range 0 k)" using j(1,2) bs by (cases "j = length (word_range 0 k)") auto
  then have x: "word_range 0 k ! j = x" "drop (Suc j) (word_range 0 k) = rest"
    using j(2) bs by (simp_all add: Cons_nth_drop_Suc [symmetric])
  have "x \<in> set (word_range 0 k)" using lt x(1) nth_mem by blast
  then have "x \<in> set ?rs" using assms(3) by (simp add: requests_def unat_eq_0)
  then obtain m where m: "m < length ?rs" "?rs ! m = x" by (auto simp: in_set_conv_nth)
  have d: "answered (ho_server s) = length ?rs" "\<not> busy (ho_server s)"
    using inv(2) assms(2) by (auto simp: turns_ok_def)
  then have "written (ho_server s) = length ?rs" by (cases "ho_server s") auto
  then have val: "mm_plain (ho_mem s) x = T x" using b(6) [of m] m by simp
  have "mm_writes (ho_mem s) x u \<le> ?cv (Clk u)" for u using b(1,4) [of x] assms(2) by (cases u) simp_all
  then have all: "\<forall>u. mm_writes (ho_mem s) x u \<le> ?cv (Clk u)" by blast
  obtain M where t: "t = s\<lparr>ho_mem := M, ho_client := HC_Check rest, ho_seen := ho_seen s @ [T x]\<rparr>"
    and M: "M = (ho_mem s)\<lparr>mm_reads := (mm_reads (ho_mem s))(x := (mm_reads (ho_mem s) x)(Client_Side := Suc (?cv (Clk Client_Side)))),
       mm_view := (mm_view (ho_mem s))(Client_Side := ?cv(Clk Client_Side := Suc (?cv (Clk Client_Side))))\<rparr>"
    using assms(2,4) all val by (auto simp: client_move_def bs plain_read_def Let_def)
  show ?thesis
  proof (rule handover_invI)
    show "\<not> ho_undefined t" using inv(1) by (simp add: t)
    show "turns_ok ?rs (ho_client t) (ho_server t)" using inv(2) assms(2) by (simp add: t turns_ok_def)
    show "words_ok ?rs t" using inv(3) assms(2) by (simp add: t M words_ok_def Let_def)
    show "sights_ok ?rs t" using inv(4) assms(2) by (simp add: t M sights_ok_def Let_def)
    show "buffers_ok T ?rs t" using inv(5) assms(2) by (simp add: t M buffers_ok_def Let_def)
    have "T x = T (word_range 0 k ! j)" using x(1) by simp
    then have "ho_seen t = map T (take (Suc j) (word_range 0 k))" using j(3) lt by (simp add: t take_Suc_conv_app_nth)
    then show "check_ok T (word_range 0 k) t" using lt x(2) by (auto simp: t check_ok_def intro!: exI [of _ "Suc j"])
  qed
qed

lemma client_move_inv:
  assumes "handover_inv repetitions k T s" "repetitions \<noteq> 0" "futex_laws K" "client_move signaller_orders K repetitions k i s = Some t"
  shows "handover_inv repetitions k T t"
proof (cases "ho_client s")
  case (HC_Next n)
  then show ?thesis by (rule client_next_inv [OF assms(1) _ assms(4)])
next
  case (HC_Try n)
  then show ?thesis by (rule client_try_inv [OF assms(1) _ assms(4)])
next
  case (HC_Call n)
  note inv = handover_invD [OF assms(1)]
  have "answered (ho_server s) \<noteq> Suc n" if "fk_blocks K (fst (last (mm_hist (ho_mem s) Futex_Word))) 0"
    using that newest_word [OF inv(3,2)] assms(3) HC_Call by (metis Suc_n_not_le_n finished.simps(3) futex_laws_def order_refl zero_neq_one)
  then show ?thesis
    using assms(4) HC_Call by (auto simp: client_move_def intro!: wait_point_inv [OF assms(1)] split: if_splits)
next
  case (HC_Asleep n)
  then show ?thesis using assms(4) by (auto simp: client_move_def intro!: wait_point_inv [OF assms(1)])
next
  case (HC_Check bs)
  then show ?thesis by (rule client_check_inv [OF assms(1) _ assms(2,4)])
qed


lemma server_poll_inv:
  assumes "handover_inv repetitions k T s" "ho_server s = HS_Poll d" "server_move signaller_orders K T i s = Some t"
  shows "handover_inv repetitions k T t"
proof -
  let ?rs = "requests repetitions k" and ?q = "mm_hist (ho_mem s) Request_Queue" and ?sv = "mm_view (ho_mem s) Server_Side"
  note inv = handover_invD [OF assms(1)]
  note w = words_okD [OF inv(3)] and v = sights_okD [OF inv(4)] and b = buffers_okD [OF inv(5)]
  obtain j where i: "i = Some j" "?sv (Seen Request_Queue) \<le> j" "j < length ?q"
    using assms(2,3) by (auto simp: server_move_def atomic_load_def split: option.splits if_splits)
  define M where M: "M = (ho_mem s)\<lparr>mm_view := (mm_view (ho_mem s))(Server_Side := join (?sv(Seen Request_Queue := j)) (snd (?q ! j)))\<rparr>"
  have t: "t = s\<lparr>ho_mem := M, ho_server := if d < j then HS_Work d (fst (?q ! j)) else HS_Poll d\<rparr>"
    using assms(2,3) i by (cases "?q ! j") (auto simp: server_move_def signaller_orders_def atomic_load_def M Let_def)
  have j_le: "j \<le> asked ?rs (ho_client s)" using i(3) w(1) by simp
  have new: "waiting (ho_client s)" "finished ?rs (ho_client s) = d" "j = Suc d" if "d < j"
    using that j_le inv(2) assms(2) by (auto simp: turns_ok_def split: if_splits)
  have seen: "2 * d \<le> snd (?q ! j) (Seen Futex_Word)" "fst (?q ! j) = ?rs ! d" if "d < j"
    using v(6) [of d] w(2) [of d] j_le new [OF that] by simp_all
  have point: "answered (ho_server t) = d" "written (ho_server t) = d" "busy (ho_server t) = (d < j)" "ho_client t = ho_client s"
    by (simp_all add: t)
  show ?thesis
  proof (rule handover_invI)
    show "\<not> ho_undefined t" using inv(1) by (simp add: t)
    show "turns_ok ?rs (ho_client t) (ho_server t)"
      using inv(2) assms(2) new seen(2) unfolding turns_ok_def point by (auto simp: t)
    show "words_ok ?rs t" using inv(3) assms(2) unfolding words_ok_def point by (simp add: t M Let_def)
    show "sights_ok ?rs t"
      using inv(4) assms(2) j_le v(3) [OF j_le] seen(1) unfolding sights_ok_def point by (simp add: t M Let_def le_max_iff_disj)
    show "buffers_ok T ?rs t" using inv(5) assms(2) unfolding buffers_ok_def point by (simp add: t M Let_def le_max_iff_disj)
    show "check_ok T (word_range 0 k) t" using inv(6) unfolding check_ok_def point by (simp add: t M split: asker.splits)
  qed
qed

lemma server_work_inv:
  assumes "handover_inv repetitions k T s" "ho_server s = HS_Work d b" "server_move signaller_orders K T i s = Some t"
  shows "handover_inv repetitions k T t"
proof -
  let ?rs = "requests repetitions k" and ?sv = "mm_view (ho_mem s) Server_Side"
  note inv = handover_invD [OF assms(1)]
  note w = words_okD [OF inv(3)] and v = sights_okD [OF inv(4)] and bf = buffers_okD [OF inv(5)]
  have client: "waiting (ho_client s)" "finished ?rs (ho_client s) = d" "b = ?rs ! d"
    using inv(2) assms(2) by (auto simp: turns_ok_def)
  then have "\<forall>b. mm_reads (ho_mem s) b Client_Side = 0" using inv(6) by (auto simp: check_ok_def split: asker.splits)
  then have "mm_writes (ho_mem s) b u \<le> ?sv (Clk u) \<and> mm_reads (ho_mem s) b u \<le> ?sv (Clk u)" for u
    using bf(1-3) [of b] by (cases u) simp_all
  then have all: "\<forall>u. mm_writes (ho_mem s) b u \<le> ?sv (Clk u) \<and> mm_reads (ho_mem s) b u \<le> ?sv (Clk u)" by blast
  obtain M where t: "t = s\<lparr>ho_mem := M, ho_server := HS_Wake d\<rparr>"
    and M: "M = (ho_mem s)\<lparr>mm_plain := (mm_plain (ho_mem s))(b := T b),
       mm_writes := (mm_writes (ho_mem s))(b := (mm_writes (ho_mem s) b)(Server_Side := Suc (?sv (Clk Server_Side)))),
       mm_view := (mm_view (ho_mem s))(Server_Side := ?sv(Clk Server_Side := Suc (?sv (Clk Server_Side))))\<rparr>"
    using assms(2,3) all by (auto simp: server_move_def plain_write_def Let_def)
  show ?thesis
  proof (rule handover_invI)
    show "\<not> ho_undefined t" using inv(1) by (simp add: t)
    show "turns_ok ?rs (ho_client t) (ho_server t)" using inv(2) assms(2) by (auto simp: t turns_ok_def)
    show "words_ok ?rs t" using inv(3) assms(2) by (simp add: t M words_ok_def Let_def)
    show "sights_ok ?rs t" using inv(4) assms(2) by (simp add: t M sights_ok_def Let_def)
    show "buffers_ok T ?rs t" using bf assms(2) client by (auto simp: t M buffers_ok_def less_Suc_eq le_Suc_eq)
    show "check_ok T (word_range 0 k) t" using inv(6) by (simp add: t M check_ok_def split: asker.splits)
  qed
qed

lemma server_wake_inv:
  assumes "handover_inv repetitions k T s" "ho_server s = HS_Wake d" "server_move signaller_orders K T i s = Some t"
  shows "handover_inv repetitions k T t" "ho_server t = HS_Call (Suc d)"
proof -
  let ?rs = "requests repetitions k" and ?h = "mm_hist (ho_mem s) Futex_Word" and ?sv = "mm_view (ho_mem s) Server_Side"
  note inv = handover_invD [OF assms(1)]
  note w = words_okD [OF inv(3)] and v = sights_okD [OF inv(4)] and bf = buffers_okD [OF inv(5)]
  have client: "waiting (ho_client s)" "finished ?rs (ho_client s) = d"
    using inv(2) assms(2) by (auto simp: turns_ok_def)
  have lens: "length ?h = Suc (2 * d)" using w(3) assms(2) client by simp
  then have last: "last ?h = ?h ! (2 * d)" by (cases ?h rule: rev_cases) (auto simp: nth_append)
  have "i = None"
  proof (cases i)
    case (Some j)
    then have j: "?sv (Seen Futex_Word) \<le> j" "j < length ?h" "fst (?h ! j) \<noteq> 0"
      using assms(2,3) by (auto simp: server_move_def signaller_orders_def atomic_cas_def atomic_load_def Let_def split: if_splits prod.splits)
    then have "j = 2 * d" using v(7) assms(2) lens by simp
    with j(2,3) w(4) [of j] show ?thesis by simp
  qed simp
  with assms(2,3) have t: "t = s\<lparr>ho_mem := snd (atomic_rmw MO_AcqRel Server_Side Futex_Word (\<lambda>_. 1) (ho_mem s)), ho_server := HS_Call (Suc d)\<rparr>"
    by (auto simp: server_move_def signaller_orders_def atomic_cas_def split: if_splits)
  then show "ho_server t = HS_Call (Suc d)" by simp
  show "handover_inv repetitions k T t"
  proof (rule handover_invI)
    show "\<not> ho_undefined t" using inv(1) by (simp add: t)
    show "turns_ok ?rs (ho_client t) (ho_server t)" using inv(2) assms(2) client by (auto simp: t turns_ok_def)
    show "words_ok ?rs t" using w assms(2) client lens by (auto simp: t atomic_rmw_acqrel words_ok_def nth_append less_Suc_eq)
    show "sights_ok ?rs t" using v assms(2) client lens by (auto simp: t atomic_rmw_acqrel sights_ok_def nth_append less_Suc_eq last)
    show "buffers_ok T ?rs t" using bf assms(2) client by (auto simp: t atomic_rmw_acqrel buffers_ok_def le_max_iff_disj)
    show "check_ok T (word_range 0 k) t" using inv(6) by (simp add: t atomic_rmw_acqrel check_ok_def split: asker.splits)
  qed
qed

lemma woken_asleep: "futex_laws K \<Longrightarrow> woken K (HC_Asleep n) = HC_Try n"
proof -
  assume "futex_laws K"
  moreover have "length [0 :: nat] \<le> INT_MAX" by (simp add: INT_MAX_def)
  ultimately have "set (fk_wakes K INT_MAX [0]) = set [0]" unfolding futex_laws_def by blast
  then show ?thesis by (simp add: woken_def)
qed

lemma woken_awake: "\<not> (\<exists>n. p = HC_Asleep n) \<Longrightarrow> woken K p = p"
  by (cases p) (simp_all add: woken_def)

lemma server_call_inv:
  assumes "handover_inv repetitions k T s" "ho_server s = HS_Call d" "futex_laws K" "server_move signaller_orders K T i s = Some t"
  shows "handover_inv repetitions k T t"
proof -
  let ?rs = "requests repetitions k" and ?s = "s\<lparr>ho_client := woken K (ho_client s)\<rparr>"
  have "handover_inv repetitions k T ?s"
  proof (cases "\<exists>n. ho_client s = HC_Asleep n")
    case True
    then show ?thesis using woken_asleep [OF assms(3)] by (auto intro!: wait_point_inv [OF assms(1)])
  next
    case False
    then show ?thesis using assms(1) by (simp add: woken_awake)
  qed
  note inv = handover_invD [OF this]
  have awake: "\<not> (\<exists>n. woken K (ho_client s) = HC_Asleep n)"
    using woken_asleep [OF assms(3)] by (cases "ho_client s") (auto simp: woken_awake)
  have t: "t = ?s\<lparr>ho_server := HS_Poll d\<rparr>" using assms(2,4) by (simp add: server_move_def)
  show ?thesis
  proof (rule handover_invI)
    show "turns_ok ?rs (ho_client t) (ho_server t)" using inv(2) assms(2) awake by (auto simp: t turns_ok_def)
    show "words_ok ?rs t" using inv(3) assms(2) by (simp add: t words_ok_def)
    show "sights_ok ?rs t" using inv(4) assms(2) by (simp add: t sights_ok_def)
    show "buffers_ok T ?rs t" using inv(5) assms(2) by (simp add: t buffers_ok_def)
    show "check_ok T (word_range 0 k) t" using inv(6) by (simp add: t check_ok_def split: asker.splits)
  qed (use inv(1) in \<open>simp add: t\<close>)
qed

lemma handover_step_inv [inv_steps]:
  assumes "futex_laws K" "repetitions \<noteq> 0" "handover_inv repetitions k T s" "handover_step signaller_orders K repetitions k T s t"
  shows "handover_inv repetitions k T t"
  using assms(4)
proof cases
  case (ho_client i)
  then show ?thesis by (rule client_move_inv [OF assms(3,2,1)])
next
  case (ho_server i)
  then show ?thesis
    using server_poll_inv [OF assms(3)] server_work_inv [OF assms(3)] server_wake_inv(1) [OF assms(3)] server_call_inv [OF assms(3) _ assms(1)]
    by (cases "ho_server s") blast+
qed

lemma handover_reach_inv:
  assumes "(handover_step signaller_orders K repetitions k T)\<^sup>*\<^sup>* s t" "futex_laws K" "repetitions \<noteq> 0" "handover_inv repetitions k T s"
  shows "handover_inv repetitions k T t"
  using assms by (induction rule: rtranclp_induct) (auto intro: handover_step_inv)


section \<open>Progress\<close>

text \<open>How far the client is from the end of its check when nothing fails that need not fail.\<close>

fun asker_rank :: "asker \<Rightarrow> nat" where
  "asker_rank (HC_Asleep n) = 2"
| "asker_rank (HC_Call n) = 1"
| "asker_rank _ = 0"

fun answerer_rank :: "nat \<Rightarrow> answerer \<Rightarrow> nat" where
  "answerer_rank n (HS_Call d) = (if d = n then 6 else 2)"
| "answerer_rank n (HS_Poll d) = (if d = n then 5 else 0)"
| "answerer_rank n (HS_Work d b) = 4"
| "answerer_rank n (HS_Wake d) = 3"

definition distance :: "u32 list \<Rightarrow> u32 list \<Rightarrow> handover \<Rightarrow> nat" where
  "distance rs bs s = (case ho_client s of
       HC_Check rest \<Rightarrow> length rest
     | HC_Next n \<Rightarrow> length bs + 1 + (length rs - n) * 20 + 15
     | p \<Rightarrow> length bs + 1 + (length rs - finished rs p) * 20 + asker_rank p + answerer_rank (finished rs p) (ho_server s))"

lemma handover_progress:
  assumes "futex_laws K" "handover_inv repetitions k T s" "ho_client s \<noteq> HC_Check []" "repetitions \<noteq> 0"
  defines "rs \<equiv> requests repetitions k" and "bs \<equiv> word_range 0 k"
  shows "\<exists>t. handover_step signaller_orders K repetitions k T s t \<and> distance rs bs t < distance rs bs s"
proof -
  note inv = handover_invD [OF assms(2), folded rs_def]
  note w = words_okD [OF inv(3)] and v = sights_okD [OF inv(4)] and newest = newest_word [OF inv(3,2)]
  have clientI: ?thesis if "client_move signaller_orders K repetitions k i s = Some t" "distance rs bs t < distance rs bs s" for i t
    using that by (auto intro: ho_client)
  have serverI: ?thesis if "server_move signaller_orders K T i s = Some t" "distance rs bs t < distance rs bs s" for i t
    using that by (auto intro: ho_server)
  consider (ask) n where "ho_client s = HC_Next n" | (check) b rest where "ho_client s = HC_Check (b # rest)"
    | (old) "waiting (ho_client s)" "answered (ho_server s) = finished rs (ho_client s)"
    | (new) "waiting (ho_client s)" "answered (ho_server s) = Suc (finished rs (ho_client s))"
    using assms(3) inv(2) by (cases "ho_client s") (auto simp: turns_ok_def neq_Nil_conv le_Suc_eq)
  then show ?thesis
  proof cases
    case (ask n)
    have "finished rs (ho_client s) \<le> length rs" using inv(2) by (simp add: turns_ok_def)
    show ?thesis
    proof (cases "n < length rs")
      case True
      have sup: "Suc (mm_view (ho_mem s) Client_Side (Seen Request_Queue)) = length (mm_hist (ho_mem s) Request_Queue)"
        using v(1) w(1) by simp
      then obtain M where t: "client_move signaller_orders K repetitions k None s = Some (s\<lparr>ho_mem := M, ho_client := HC_Try n\<rparr>)"
        using ask True by (auto simp: client_move_def signaller_orders_def atomic_store_def Let_def rs_def)
      have "answerer_rank n (ho_server s) \<le> 6" by (cases "ho_server s") auto
      then show ?thesis by (intro clientI [OF t]) (simp add: distance_def ask)
    next
      case False
      then have "client_move signaller_orders K repetitions k None s = Some (s\<lparr>ho_client := HC_Check bs\<rparr>)"
        using ask by (simp add: client_move_def rs_def bs_def)
      then show ?thesis by (rule clientI) (simp add: distance_def ask)
    qed
  next
    case (check b rest)
    obtain t where t: "client_move signaller_orders K repetitions k None s = Some t" by (simp add: client_move_def check)
    have "\<not> ho_undefined t" using client_move_inv [OF assms(2,4,1) t] by (rule handover_invD(1))
    then have "ho_client t = HC_Check rest" using t by (auto simp: client_move_def check split: option.splits)
    then show ?thesis by (intro clientI [OF t]) (simp add: distance_def check)
  next
    case old
    let ?n = "finished rs (ho_client s)"
    have n: "?n < length rs" using inv(2) old(1) by (simp add: turns_ok_def)
    have move: ?thesis if "server_move signaller_orders K T i s = Some t" "waiting (ho_client t)"
      "finished rs (ho_client t) = ?n" "asker_rank (ho_client t) \<le> asker_rank (ho_client s)"
      "answerer_rank ?n (ho_server t) < answerer_rank ?n (ho_server s)" for i t
      using that old by (intro serverI [OF that(1)]) (auto simp: distance_def split: asker.splits)
    show ?thesis
    proof (cases "ho_server s")
      case (HS_Poll d)
      have d: "d = ?n" using old HS_Poll by simp
      have len: "length (mm_hist (ho_mem s) Request_Queue) = Suc (Suc d)" using w(1) old(1) d by simp
      then obtain b M where "server_move signaller_orders K T (Some (Suc d)) s = Some (s\<lparr>ho_mem := M, ho_server := HS_Work d b\<rparr>)"
        using v(2) old(1) d by (cases "mm_hist (ho_mem s) Request_Queue ! Suc d") (auto simp: server_move_def HS_Poll atomic_load_def Let_def)
      then show ?thesis by (rule move) (use old d HS_Poll in simp_all)
    next
      case (HS_Work d b)
      obtain t where t: "server_move signaller_orders K T None s = Some t" by (simp add: server_move_def HS_Work)
      have "\<not> ho_undefined t" using server_work_inv [OF assms(2) HS_Work t] by (rule handover_invD(1))
      then have "ho_client t = ho_client s \<and> ho_server t = HS_Wake d" using t by (auto simp: server_move_def HS_Work split: option.splits)
      then show ?thesis by (intro move [OF t]) (use old HS_Work in simp_all)
    next
      case (HS_Wake d)
      have "fst (last (mm_hist (ho_mem s) Futex_Word)) = 0" using newest old by simp
      then obtain M where "server_move signaller_orders K T None s = Some (s\<lparr>ho_mem := M, ho_server := HS_Call (d + 1)\<rparr>)"
        by (auto simp: server_move_def HS_Wake atomic_cas_def)
      then show ?thesis by (rule move) (use old HS_Wake in simp_all)
    next
      case (HS_Call d)
      have "server_move signaller_orders K T None s = Some (s\<lparr>ho_client := woken K (ho_client s), ho_server := HS_Poll d\<rparr>)"
        by (simp add: server_move_def HS_Call)
      then show ?thesis
        by (rule move) (use old HS_Call woken_asleep [OF assms(1)] in \<open>cases "ho_client s"; simp add: woken_awake\<close>)+
    qed
  next
    case new
    let ?n = "finished rs (ho_client s)"
    have n: "?n < length rs" using inv(2) new(1) by (simp add: turns_ok_def)
    have one: "fst (last (mm_hist (ho_mem s) Futex_Word)) = 1" using newest new by simp
    show ?thesis
    proof (cases "ho_client s")
      case (HC_Try m)
      then obtain M where t: "client_move signaller_orders K repetitions k None s = Some (s\<lparr>ho_mem := M, ho_client := HC_Next (m + 1)\<rparr>)"
        using one by (auto simp: client_move_def atomic_cas_def)
      have "(length rs - Suc m) * 20 + 15 < (length rs - m) * 20" using n HC_Try by simp
      then show ?thesis by (intro clientI [OF t]) (simp add: distance_def HC_Try)
    next
      case (HC_Call m)
      have "\<not> fk_blocks K 1 0" using assms(1) by (metis futex_laws_def zero_neq_one)
      then have t: "client_move signaller_orders K repetitions k None s = Some (s\<lparr>ho_client := HC_Try m\<rparr>)"
        using one by (simp add: client_move_def HC_Call)
      show ?thesis by (intro clientI [OF t]) (simp add: distance_def HC_Call)
    next
      case (HC_Asleep m)
      then have "ho_server s = HS_Call (Suc m)" using inv(2) new by (simp add: turns_ok_def)
      then have t: "server_move signaller_orders K T None s = Some (s\<lparr>ho_client := HC_Try m, ho_server := HS_Poll (Suc m)\<rparr>)"
        by (simp add: server_move_def HC_Asleep woken_asleep [OF assms(1)])
      show ?thesis by (intro serverI [OF t]) (simp add: distance_def HC_Asleep)
    qed (use new in simp_all)
  qed
qed

lemma handover_completes:
  assumes "futex_laws K" "repetitions \<noteq> 0" "handover_inv repetitions k T s"
  shows "\<exists>t. (handover_step signaller_orders K repetitions k T)\<^sup>*\<^sup>* s t \<and> ho_client t = HC_Check []"
  using assms(3)
proof (induction "distance (requests repetitions k) (word_range 0 k) s" arbitrary: s rule: less_induct)
  case less
  show ?case
  proof (cases "ho_client s = HC_Check []")
    case False
    from handover_progress [OF assms(1) less.prems this assms(2)] obtain u
      where u: "handover_step signaller_orders K repetitions k T s u"
        "distance (requests repetitions k) (word_range 0 k) u < distance (requests repetitions k) (word_range 0 k) s" by blast
    from less.hyps [OF u(2) handover_step_inv [OF assms(1,2) less.prems u(1)]] u(1) show ?thesis
      by (meson converse_rtranclp_into_rtranclp)
  qed auto
qed

section \<open>Executions\<close>

datatype handover_turn = By_Client "nat option" | By_Server "nat option"

fun handover_run ::
  "signal_orders \<Rightarrow> futex_kernel \<Rightarrow> u32 \<Rightarrow> u32 \<Rightarrow> (u32 \<Rightarrow> u64 list) \<Rightarrow> handover_turn list \<Rightarrow> handover \<Rightarrow> handover option" where
  "handover_run ords K repetitions k T [] s = Some s"
| "handover_run ords K repetitions k T (By_Client i # us) s =
     (case client_move ords K repetitions k i s of None \<Rightarrow> None | Some t \<Rightarrow> handover_run ords K repetitions k T us t)"
| "handover_run ords K repetitions k T (By_Server i # us) s =
     (case server_move ords K T i s of None \<Rightarrow> None | Some t \<Rightarrow> handover_run ords K repetitions k T us t)"

lemma handover_run_steps:
  "handover_run ords K repetitions k T us s = Some t \<Longrightarrow> (handover_step ords K repetitions k T)\<^sup>*\<^sup>* s t"
proof (induction us arbitrary: s)
  case (Cons u us)
  then obtain v where v: "handover_step ords K repetitions k T s v" "handover_run ords K repetitions k T us v = Some t"
    by (cases u) (auto split: option.splits intro: ho_client ho_server)
  from Cons.IH [OF v(2)] v(1) show ?case by (rule converse_rtranclp_into_rtranclp [rotated])
qed simp

text \<open>The first request and its answer, every access seeing the newest value.\<close>

definition first_answer :: "handover_turn list" where
  "first_answer = [By_Client None, By_Server (Some 1), By_Server None, By_Server None, By_Server None, By_Client None]"

text \<open>The second one, where the swap of \<open>Wake\<close> fails with the dispatcher's own store, the value with the number 1.\<close>

definition missed_wake :: "handover_turn list" where
  "missed_wake = first_answer @ [By_Client None, By_Client (Some 2), By_Client None, By_Server (Some 2), By_Server None, By_Server (Some 1)]"

lemma both_sides: "(\<forall>u. P u) \<longleftrightarrow> P Client_Side \<and> P Server_Side"
  by (metis side.exhaust)

lemma demo_requests: "requests 1 1 = [0]" "requests 2 1 = [0, 0]" "word_range 0 (1 :: u32) = [0]"
proof -
  show one: "word_range 0 (1 :: u32) = [0]" by (simp add: word_range_def)
  have "unat (2 :: u32) = 2" by simp
  then have two: "unat (2 :: u32) = Suc (Suc 0)" unfolding numeral_2_eq_2 .
  show "requests 1 1 = [0]" "requests 2 1 = [0, 0]" unfolding requests_def one two by simp_all
qed

lemmas handover_eval = client_move_def server_move_def woken_def memory_defs atomic_cas_def Let_def new_memory_def handover_start_def
  join_def fun_upd_def first_answer_def missed_wake_def signaller_orders_def demo_requests fifo_kernel_def
  both_sides numeral_eq_Suc

abbreviation demo_handover :: "signal_orders \<Rightarrow> u32 \<Rightarrow> handover_turn list \<Rightarrow> handover option" where
  "demo_handover ords repetitions us \<equiv>
     handover_run ords fifo_kernel repetitions 1 (\<lambda>b. [7]) us (handover_start (\<lambda>b. [0]))"

text \<open>A client that waits for a signal that nobody will send: with any orders, nothing takes it out of \<open>Wait\<close>.\<close>

definition forsaken :: "handover \<Rightarrow> bool" where
  "forsaken s \<longleftrightarrow> waiting (ho_client s) \<and> (\<exists>d. ho_server s = HS_Poll d \<and> length (mm_hist (ho_mem s) Request_Queue) \<le> Suc d) \<and>
     fst (last (mm_hist (ho_mem s) Futex_Word)) = 0"

lemma forsaken_step:
  assumes "handover_step ords K repetitions k T s t" "forsaken s"
  shows "forsaken t"
  using assms(1)
proof cases
  case (ho_client i)
  then show ?thesis
    using assms(2) unfolding forsaken_def
    by (cases "ho_client s") (auto simp: client_move_def atomic_cas_def atomic_load_def Let_def split: option.splits if_splits prod.splits)
next
  case (ho_server i)
  then show ?thesis
    using assms(2) unfolding forsaken_def
    by (auto simp: server_move_def atomic_load_def Let_def split: option.splits if_splits prod.splits)
qed

lemma forsaken_for_ever:
  assumes "(handover_step ords K repetitions k T)\<^sup>*\<^sup>* s t" "forsaken s"
  shows "waiting (ho_client t)"
proof -
  have "forsaken t" using assms by (induction rule: rtranclp_induct) (auto intro: forsaken_step)
  then show ?thesis by (simp add: forsaken_def)
qed

section \<open>Properties\<close>

text \<open>Property C19: the results reach the client under the C++ memory model. With the orders of the two
  compare-and-swaps of the futex word, each of which may fail with an old value, and with a queue that hands
  over: the dispatcher's writes of the results and the client's reads of them do not race, the check reads
  exactly what the dispatcher has computed, and from every reachable state the client can come to the end of
  its check: no wake-up is lost.\<close>

theorem results_handed_over:
  assumes "futex_laws K" "repetitions \<noteq> 0"
    "(handover_step signaller_orders K repetitions k T)\<^sup>*\<^sup>* (handover_start zero) s"
  shows "\<not> ho_undefined s \<and> (ho_client s = HC_Check [] \<longrightarrow> ho_seen s = map T (word_range 0 k)) \<and>
    (\<exists>t. (handover_step signaller_orders K repetitions k T)\<^sup>*\<^sup>* s t \<and> ho_client t = HC_Check [])"
proof -
  have inv: "handover_inv repetitions k T s" by (rule handover_reach_inv [OF assms(3,1,2) handover_start_inv])
  have "ho_seen s = map T (word_range 0 k)" if "ho_client s = HC_Check []"
    using handover_invD(6) [OF inv] that by (auto simp: check_ok_def)
  with handover_invD(1) [OF inv] handover_completes [OF assms(1,2) inv] show ?thesis by blast
qed

theorem results_handed_over_witness:
  "\<exists>s. (handover_step signaller_orders fifo_kernel 1 1 (\<lambda>b. [7]))\<^sup>*\<^sup>* (handover_start (\<lambda>b. [0])) s \<and>
     ho_client s = HC_Check [] \<and> ho_seen s = [[7]]"
proof -
  let ?run = "demo_handover signaller_orders 1 (first_answer @ [By_Client None, By_Client None])"
  have "map_option ho_client ?run = Some (HC_Check [])" by (simp add: handover_eval)
  then obtain s where s: "?run = Some s" "ho_client s = HC_Check []" by auto
  from results_handed_over [OF fifo_kernel_laws _ handover_run_steps [OF s(1)]] handover_run_steps [OF s(1)] s(2)
  show ?thesis by (auto simp: demo_requests)
qed

text \<open>What the hand-over of the results rests on. When the swap of \<open>Wake\<close> is relaxed, or that of
  \<open>Wait\<close>, there is an execution in which the client's check reads a result in a race with the dispatcher's
  write; when the queue does not hand over, on either side, there is one in which \<open>Wake\<close> takes the word
  for still set, does nothing, and the client waits for ever.\<close>

theorem handover_needs_orders:
  "list_all (\<lambda>ords. \<exists>t. (handover_step ords fifo_kernel 1 1 (\<lambda>b. [7]))\<^sup>*\<^sup>* (handover_start (\<lambda>b. [0])) t \<and> ho_undefined t)
     [signaller_orders\<lparr>so_wake := MO_Relaxed\<rparr>, signaller_orders\<lparr>so_wait := MO_Relaxed\<rparr>] \<and>
   list_all (\<lambda>ords. \<exists>s. (handover_step ords fifo_kernel 2 1 (\<lambda>b. [7]))\<^sup>*\<^sup>* (handover_start (\<lambda>b. [0])) s \<and>
       \<not> (\<exists>t. (handover_step ords fifo_kernel 2 1 (\<lambda>b. [7]))\<^sup>*\<^sup>* s t \<and> \<not> waiting (ho_client t)))
     [signaller_orders\<lparr>so_enqueue := MO_Relaxed\<rparr>, signaller_orders\<lparr>so_dequeue := MO_Relaxed\<rparr>]"
proof -
  have race: "\<exists>t. (handover_step ords fifo_kernel 1 1 (\<lambda>b. [7]))\<^sup>*\<^sup>* (handover_start (\<lambda>b. [0])) t \<and> ho_undefined t"
    if "map_option ho_undefined (demo_handover ords 1 us) = Some True" for ords us
    using that by (auto intro: handover_run_steps)
  have miss: "\<exists>s. (handover_step ords fifo_kernel 2 1 (\<lambda>b. [7]))\<^sup>*\<^sup>* (handover_start (\<lambda>b. [0])) s \<and>
       \<not> (\<exists>t. (handover_step ords fifo_kernel 2 1 (\<lambda>b. [7]))\<^sup>*\<^sup>* s t \<and> \<not> waiting (ho_client t))"
    if "map_option (\<lambda>s. (ho_client s, ho_server s, length (mm_hist (ho_mem s) Request_Queue), fst (last (mm_hist (ho_mem s) Futex_Word))))
      (demo_handover ords 2 missed_wake) = Some (HC_Asleep 1, HS_Poll 2, 3, 0)" for ords
  proof -
    from that obtain s where s: "demo_handover ords 2 missed_wake = Some s" "forsaken s" by (auto simp: forsaken_def)
    with handover_run_steps forsaken_for_ever show ?thesis by blast
  qed
  have "map_option ho_undefined (demo_handover (signaller_orders\<lparr>so_wake := MO_Relaxed\<rparr>) 1 (first_answer @ [By_Client None, By_Client None])) = Some True"
    "map_option ho_undefined (demo_handover (signaller_orders\<lparr>so_wait := MO_Relaxed\<rparr>) 1 (first_answer @ [By_Client None, By_Client None])) = Some True"
    by (simp_all add: handover_eval)
  moreover have
    "map_option (\<lambda>s. (ho_client s, ho_server s, length (mm_hist (ho_mem s) Request_Queue), fst (last (mm_hist (ho_mem s) Futex_Word))))
      (demo_handover (signaller_orders\<lparr>so_enqueue := MO_Relaxed\<rparr>) 2 missed_wake) = Some (HC_Asleep 1, HS_Poll 2, 3, 0)"
    "map_option (\<lambda>s. (ho_client s, ho_server s, length (mm_hist (ho_mem s) Request_Queue), fst (last (mm_hist (ho_mem s) Futex_Word))))
      (demo_handover (signaller_orders\<lparr>so_dequeue := MO_Relaxed\<rparr>) 2 missed_wake) = Some (HC_Asleep 1, HS_Poll 2, 3, 0)"
    by (simp_all add: handover_eval)
  ultimately show ?thesis using race miss by simp
qed

end
