(* ===== verification/Spsc_SeqLock_Relaxed.thy ===== *)
theory Spsc_SeqLock_Relaxed
  imports Spsc_SeqLock_RA
begin

text \<open>
  That the races of the sequence-locked queue are not harmless. Here its indices and its slots are read and
  written as compilers translate the plain accesses, by loads and stores of whole words that order nothing:
  relaxed accesses, which cannot race. The counter does not make up for that.
\<close>

datatype sl_word = W_Seq | W_Head | W_Tail | W_Slot nat

text \<open>There are no plain objects left.\<close>

type_synonym word_memory = "(sl_word, unit, party, u64, unit) memory"

record slw_sys =
  slw_mem :: word_memory
  slw_prod :: sl_producer
  slw_cons :: sl_consumer
  slw_sent :: "u32 list"
  slw_received :: "u32 list"

text \<open>A load returns the value with the index \<open>i\<close>, a store is one of the newest value; \<open>None\<close> is no step.\<close>

definition slw_load ::
  "memory_order \<Rightarrow> party \<Rightarrow> sl_word \<Rightarrow> nat \<Rightarrow> slw_sys \<Rightarrow> (u64 \<Rightarrow> slw_sys \<Rightarrow> slw_sys) \<Rightarrow> slw_sys option" where
  "slw_load ord who obj i s k =
     (case atomic_load ord who obj i (slw_mem s) of
        None \<Rightarrow> None
      | Some (v, M) \<Rightarrow> Some (k v (s\<lparr>slw_mem := M\<rparr>)))"

definition slw_store :: "party \<Rightarrow> sl_word \<Rightarrow> u64 \<Rightarrow> slw_sys \<Rightarrow> (slw_sys \<Rightarrow> slw_sys) \<Rightarrow> slw_sys option" where
  "slw_store who obj v s k =
     (case atomic_store MO_Relaxed who obj v (slw_mem s) of
        None \<Rightarrow> None
      | Some M \<Rightarrow> Some (k (s\<lparr>slw_mem := M\<rparr>)))"

definition slw_count :: "slw_sys \<Rightarrow> slw_sys" where
  "slw_count s = s\<lparr>slw_mem := snd (atomic_rmw MO_AcqRel Producer W_Seq (\<lambda>n. n + 1) (slw_mem s))\<rparr>"

fun slw_producer :: "u64 \<Rightarrow> u32 \<Rightarrow> nat \<Rightarrow> sl_producer \<Rightarrow> slw_sys \<Rightarrow> slw_sys option" where
  "slw_producer capacity x i SP_Idle s = slw_load MO_Relaxed Producer W_Head i s (\<lambda>head t. t\<lparr>slw_prod := SP_Loaded x head\<rparr>)"
| "slw_producer capacity x i (SP_Loaded item head) s =
     slw_load MO_Relaxed Producer W_Tail i s (\<lambda>tail t.
       let nextHead = (head + 1) AND (capacity - 1)
       in t\<lparr>slw_prod := if nextHead = tail then SP_Idle else SP_Checked item head nextHead\<rparr>)"
| "slw_producer capacity x i (SP_Checked item head nextHead) s =
     Some (slw_count (s\<lparr>slw_prod := SP_Locked item head nextHead\<rparr>))"
| "slw_producer capacity x i (SP_Locked item head nextHead) s =
     (if head < capacity
      then slw_store Producer (W_Slot (unat head)) (ucast item) s (\<lambda>t. t\<lparr>slw_prod := SP_Filled item nextHead\<rparr>)
      else None)"
| "slw_producer capacity x i (SP_Filled item nextHead) s =
     slw_store Producer W_Head nextHead s (\<lambda>t. t\<lparr>slw_prod := SP_Stored, slw_sent := slw_sent t @ [item]\<rparr>)"
| "slw_producer capacity x i SP_Stored s = Some (slw_count (s\<lparr>slw_prod := SP_Idle\<rparr>))"

fun slw_consumer :: "u64 \<Rightarrow> nat \<Rightarrow> sl_consumer \<Rightarrow> slw_sys \<Rightarrow> slw_sys option" where
  "slw_consumer capacity i SC_Idle s = slw_load MO_Relaxed Consumer W_Head i s (\<lambda>head t. t\<lparr>slw_cons := SC_Head head\<rparr>)"
| "slw_consumer capacity i (SC_Head head) s =
     slw_load MO_Relaxed Consumer W_Tail i s (\<lambda>tail t. t\<lparr>slw_cons := if tail = head then SC_Idle else SC_Nonempty tail\<rparr>)"
| "slw_consumer capacity i (SC_Nonempty tail) s =
     slw_load MO_Acquire Consumer W_Seq i s (\<lambda>seqStart t.
       t\<lparr>slw_cons := if seqStart mod 2 \<noteq> 0 then SC_Idle else SC_Started tail seqStart\<rparr>)"
| "slw_consumer capacity i (SC_Started tail seqStart) s =
     (if tail < capacity
      then slw_load MO_Relaxed Consumer (W_Slot (unat tail)) i s (\<lambda>item t. t\<lparr>slw_cons := SC_Read tail seqStart (ucast item)\<rparr>)
      else None)"
| "slw_consumer capacity i (SC_Read tail seqStart item) s =
     slw_load MO_Acquire Consumer W_Seq i s (\<lambda>seqEnd t.
       t\<lparr>slw_cons := if seqStart = seqEnd then SC_Stable tail item else SC_Idle\<rparr>)"
| "slw_consumer capacity i (SC_Stable tail item) s =
     slw_store Consumer W_Tail ((tail + 1) AND (capacity - 1)) s
       (\<lambda>t. t\<lparr>slw_cons := SC_Idle, slw_received := slw_received t @ [item]\<rparr>)"

inductive slw_step :: "u64 \<Rightarrow> slw_sys \<Rightarrow> slw_sys \<Rightarrow> bool" for capacity :: u64 where
  slw_producer: "slw_producer capacity x i (slw_prod s) s = Some t \<Longrightarrow> slw_step capacity s t"
| slw_consumer: "slw_consumer capacity i (slw_cons s) s = Some t \<Longrightarrow> slw_step capacity s t"

definition slw_start :: slw_sys where
  "slw_start = \<lparr>slw_mem = new_memory (\<lambda>_. 0) (\<lambda>_. ()), slw_prod = SP_Idle, slw_cons = SC_Idle, slw_sent = [], slw_received = []\<rparr>"

fun slw_run :: "u64 \<Rightarrow> turn list \<Rightarrow> slw_sys \<Rightarrow> slw_sys option" where
  "slw_run capacity [] s = Some s"
| "slw_run capacity (P_Turn x i # us) s =
     (case slw_producer capacity x i (slw_prod s) s of None \<Rightarrow> None | Some t \<Rightarrow> slw_run capacity us t)"
| "slw_run capacity (C_Turn i # us) s =
     (case slw_consumer capacity i (slw_cons s) s of None \<Rightarrow> None | Some t \<Rightarrow> slw_run capacity us t)"

lemma slw_run_steps: "slw_run capacity us s = Some t \<Longrightarrow> (slw_step capacity)\<^sup>*\<^sup>* s t"
proof (induction us arbitrary: s)
  case (Cons u us)
  then obtain v where v: "slw_step capacity s v" "slw_run capacity us v = Some t"
    by (cases u) (auto split: option.splits intro: slw_producer slw_consumer)
  from Cons.IH [OF v(2)] v(1) show ?case by (rule converse_rtranclp_into_rtranclp [rotated])
qed simp

text \<open>
  One \<open>Enqueue\<close> of 5, and a \<open>Dequeue\<close> that sees the new head and then the old counter, twice, and the old
  slot in between.
\<close>

definition stale_dequeue :: "turn list" where
  "stale_dequeue = [P_Turn 5 0, P_Turn 5 0, P_Turn 5 0, P_Turn 5 0, P_Turn 5 0, C_Turn 1, C_Turn 0, C_Turn 0, C_Turn 0, C_Turn 0, C_Turn 0]"

lemmas slw_eval = slw_start_def new_memory_def slw_load_def slw_store_def slw_count_def memory_defs
  Let_def join_def fun_upd_def stale_dequeue_def

section \<open>Properties\<close>

text \<open>Property C33: the sequence-locked queue can pass on an item that nobody has enqueued, even when its plain
  accesses are taken for relaxed ones: the new head may be seen before the counter and the slot, and the
  comparison of the two loads of the counter does not notice.\<close>

theorem seqlock_returns_stale_item:
  "\<exists>t. (slw_step 4)\<^sup>*\<^sup>* slw_start t \<and> slw_sent t = [5] \<and> slw_received t = [0]"
proof -
  have "map_option (\<lambda>t. (slw_sent t, slw_received t)) (slw_run 4 stale_dequeue slw_start) = Some ([5], [0])"
    by (simp add: slw_eval)
  then obtain t where "slw_run 4 stale_dequeue slw_start = Some t" "slw_sent t = [5]" "slw_received t = [0]" by auto
  with slw_run_steps show ?thesis by blast
qed

end
